(* ===== verification/Prelude.thy ===== *)
theory Prelude
  imports Main "HOL-Library.Word" "HOL-Library.List_Lexorder" "HOL-Library.Char_ord"
begin

section \<open>Prelude: machine integers, byte strings, ordered maps, effects\<close>

text \<open>
  What every component of the development shares:

  \<^item> the names of the machine types the code uses (\<open>u8\<close>, \<open>u64\<close>, \<open>i64\<close>, and \<open>usize\<close> on a
    64-bit target) and the little-endian and big-endian byte encodings of the Rust standard
    library (\<open>to_le_bytes\<close>, \<open>from_le_bytes\<close>, \<open>to_be_bytes\<close>);
  \<^item> Rust strings as HOL strings of bytes, with the UTF-8 validity check of
    \<open>String::from_utf8\<close>;
  \<^item> ordered maps as strictly sorted association lists, the shape a key-value tree is
    iterated in;
  \<^item> the two effects of the code: \<open>Result\<close> as a sum type, and state passing with \<open>Result\<close>,
    with a weakest-precondition calculus for the second.
\<close>

named_theorems codec_simps \<open>evaluation of readers on encoded records\<close>
named_theorems wp_rules \<open>weakest preconditions of state-passing operations\<close>

subsection \<open>Machine types\<close>

type_synonym u8 = "8 word"
type_synonym u16 = "16 word"
type_synonym u64 = "64 word"
type_synonym i64 = "64 word"
type_synonym usize = "64 word"
type_synonym bytes = "u8 list"

definition usize_max :: nat where
  "usize_max = 2 ^ 64 - 1"

definition checked_add :: "nat \<Rightarrow> nat \<Rightarrow> nat option" where
  "checked_add a b = (if a + b \<le> usize_max then Some (a + b) else None)"

definition checked_mul :: "nat \<Rightarrow> nat \<Rightarrow> nat option" where
  "checked_mul a b = (if a * b \<le> usize_max then Some (a * b) else None)"

definition saturating_add_u64 :: "u64 \<Rightarrow> u64 \<Rightarrow> u64" where
  "saturating_add_u64 a b = (if unat a + unat b \<le> usize_max then a + b else - 1)"

lemma unat_lt2p: "unat (w :: 'a::len word) < 2 ^ LENGTH('a)"
  by (rule unsigned_less)

lemma unat_of_nat_eq: "n < 2 ^ LENGTH('a) \<Longrightarrow> unat (of_nat n :: 'a::len word) = n"
  by (simp add: unat_of_nat)

lemma usize_max_eq: "usize_max = 18446744073709551615"
  by (simp add: usize_max_def)

lemma unat_u64_le_max [simp]: "unat (w :: u64) \<le> usize_max"
  using unat_lt2p [of w] by (simp add: usize_max_def)

lemma unat_of_nat_u64 [simp]: "n \<le> usize_max \<Longrightarrow> unat (of_nat n :: u64) = n"
  by (simp add: usize_max_def unat_of_nat_eq)

lemma unat_saturating_add_u64:
  "unat (saturating_add_u64 a b) = min (unat a + unat b) usize_max"
proof (cases "unat a + unat b \<le> usize_max")
  case True
  then have "unat (a + b) = unat a + unat b"
    by (simp add: unat_plus_if' usize_max_def)
  with True show ?thesis by (simp add: saturating_add_u64_def)
next
  case False
  then show ?thesis by (simp add: saturating_add_u64_def usize_max_def unsigned_minus_1_eq_mask mask_eq_exp_minus_1)
qed

subsection \<open>Little-endian and big-endian encodings\<close>

primrec le_put :: "nat \<Rightarrow> nat \<Rightarrow> bytes" where
  "le_put 0 x = []"
| "le_put (Suc n) x = of_nat (x mod 256) # le_put n (x div 256)"

primrec le_get :: "bytes \<Rightarrow> nat" where
  "le_get [] = 0"
| "le_get (b # bs) = unat b + 256 * le_get bs"

lemma length_le_put [simp]: "length (le_put n x) = n"
  by (induction n arbitrary: x) auto

lemma unat_u8_less [simp]: "unat (b :: u8) < 256"
  using unat_lt2p [of b] by simp

lemma le_get_bound: "le_get bs < 256 ^ length bs"
proof (induction bs)
  case (Cons b bs)
  have "unat b + 256 * le_get bs < 256 + 256 * le_get bs" by simp
  also have "\<dots> = 256 * (le_get bs + 1)" by simp
  also have "\<dots> \<le> 256 * 256 ^ length bs" using Cons by (intro mult_le_mono) auto
  finally show ?case by simp
qed simp

lemma le_get_put: "le_get (le_put n x) = x mod 256 ^ n"
proof (induction n arbitrary: x)
  case (Suc n)
  have "unat (of_nat (x mod 256) :: u8) = x mod 256" by (simp add: unat_of_nat_eq)
  with Suc show ?case by (simp add: mod_mult2_eq)
qed simp

lemma le_put_get: "le_put (length bs) (le_get bs) = bs"
  by (induction bs) (auto simp: unat_u8_less [THEN mod_less])

lemma le_get_inject: "length as = length bs \<Longrightarrow> le_get as = le_get bs \<longleftrightarrow> as = bs"
  by (metis le_put_get)

definition u16_to_le_bytes :: "u16 \<Rightarrow> bytes" where
  "u16_to_le_bytes w = le_put 2 (unat w)"

definition u16_from_le_bytes :: "bytes \<Rightarrow> u16" where
  "u16_from_le_bytes bs = of_nat (le_get bs)"

definition u64_to_le_bytes :: "u64 \<Rightarrow> bytes" where
  "u64_to_le_bytes w = le_put 8 (unat w)"

definition u64_from_le_bytes :: "bytes \<Rightarrow> u64" where
  "u64_from_le_bytes bs = of_nat (le_get bs)"

definition u64_to_be_bytes :: "u64 \<Rightarrow> bytes" where
  "u64_to_be_bytes w = rev (le_put 8 (unat w))"

lemma length_to_bytes [simp]:
  "length (u16_to_le_bytes h) = 2" "length (u64_to_le_bytes w) = 8" "length (u64_to_be_bytes w) = 8"
  by (simp_all add: u16_to_le_bytes_def u64_to_le_bytes_def u64_to_be_bytes_def)

lemma u16_from_to_le_bytes [simp]: "u16_from_le_bytes (u16_to_le_bytes w) = w"
proof -
  have "unat w mod 256 ^ 2 = unat w" using unat_lt2p [of w] by simp
  then show ?thesis by (simp add: u16_from_le_bytes_def u16_to_le_bytes_def le_get_put)
qed

lemma u64_from_to_le_bytes [simp]: "u64_from_le_bytes (u64_to_le_bytes w) = w"
proof -
  have "unat w mod 256 ^ 8 = unat w" using unat_lt2p [of w] by simp
  then show ?thesis by (simp add: u64_from_le_bytes_def u64_to_le_bytes_def le_get_put)
qed

lemma u16_to_from_le_bytes: "length bs = 2 \<Longrightarrow> u16_to_le_bytes (u16_from_le_bytes bs) = bs"
  using le_get_bound [of bs] le_put_get [of bs]
  by (simp add: u16_from_le_bytes_def u16_to_le_bytes_def unat_of_nat_eq)

lemma u64_to_from_le_bytes: "length bs = 8 \<Longrightarrow> u64_to_le_bytes (u64_from_le_bytes bs) = bs"
  using le_get_bound [of bs] le_put_get [of bs]
  by (simp add: u64_from_le_bytes_def u64_to_le_bytes_def unat_of_nat_eq)

lemma u64_to_le_bytes_inject [simp]: "u64_to_le_bytes v = u64_to_le_bytes w \<longleftrightarrow> v = w"
  by (metis u64_from_to_le_bytes)

lemma u64_to_be_bytes_inject [simp]: "u64_to_be_bytes v = u64_to_be_bytes w \<longleftrightarrow> v = w"
  by (metis rev_rev_ident u64_to_be_bytes_def u64_to_le_bytes_def u64_to_le_bytes_inject)

lemma le_get_append: "le_get (xs @ ys) = le_get xs + 256 ^ length xs * le_get ys"
  by (induction xs) (auto simp: algebra_simps)

lemma less_iff_be_less:
  "length xs = length ys \<Longrightarrow> xs < ys \<longleftrightarrow> le_get (rev xs) < le_get (rev ys)"
proof (induction xs ys rule: list_induct2)
  case (Cons a xs b ys)
  let ?n = "256 ^ length ys :: nat"
  have bounds: "le_get (rev xs) < ?n" "le_get (rev ys) < ?n"
    using le_get_bound [of "rev xs"] le_get_bound [of "rev ys"] Cons by simp_all
  have step: "u + ?n * unat c < v + ?n * unat d" if "unat c < unat d" "u < ?n" for u v c d
  proof -
    have "u + ?n * unat c < ?n * Suc (unat c)" using that by simp
    also have "\<dots> \<le> ?n * unat d" using that by (intro mult_le_mono) auto
    finally show ?thesis by simp
  qed
  show ?case
  proof (cases a b rule: linorder_cases)
    case less
    then show ?thesis
      using step [of a b] bounds Cons by (simp add: le_get_append word_less_nat_alt)
  next
    case equal
    then show ?thesis using Cons by (simp add: le_get_append)
  next
    case greater
    then show ?thesis
      using step [of b a "le_get (rev ys)" "le_get (rev xs)"] bounds Cons
      by (auto simp: le_get_append word_less_nat_alt)
  qed
qed simp

lemma u64_to_be_bytes_less: "u64_to_be_bytes v < u64_to_be_bytes w \<longleftrightarrow> v < w"
proof -
  have "unat v mod 256 ^ 8 = unat v" "unat w mod 256 ^ 8 = unat w"
    using unat_lt2p [of v] unat_lt2p [of w] by simp_all
  then show ?thesis
    by (simp add: u64_to_be_bytes_def less_iff_be_less le_get_put word_less_nat_alt)
qed

lemma append_less_same [simp]: "(p @ xs :: 'a::linorder list) < p @ ys \<longleftrightarrow> xs < ys"
  by (induction p) auto

lemma less_append_iff [simp]: "(p :: 'a::linorder list) < p @ xs \<longleftrightarrow> xs \<noteq> []"
  by (induction p) (use Nil_less_Cons in \<open>cases xs; auto\<close>)+

text \<open>The successor of a key in byte order is the key with a zero byte appended: there is
  nothing between the two, which is what a scan that starts \<open>strictly after\<close> relies on.\<close>

lemma append_zero_le_iff: "(p @ [0] :: bytes) \<le> q \<longleftrightarrow> p < q"
proof (induction p arbitrary: q)
  case Nil
  then show ?case by (cases q) (auto simp: word_le_nat_alt less_le)
next
  case (Cons a p)
  then show ?case by (cases q) (auto simp: less_le)
qed

subsection \<open>Strings\<close>

text \<open>A Rust \<open>String\<close> is a byte string that is valid UTF-8; a HOL string is a list of
  bytes as well. \<open>as_bytes\<close> and \<open>string_of_bytes\<close> pass between the two views, and
  \<open>from_utf8\<close> is the checked direction of the standard library.\<close>

definition byte_of_char :: "char \<Rightarrow> u8" where
  "byte_of_char c = of_nat (of_char c)"

definition char_of_byte :: "u8 \<Rightarrow> char" where
  "char_of_byte b = char_of (unat b)"

definition as_bytes :: "string \<Rightarrow> bytes" where
  "as_bytes s = map byte_of_char s"

definition string_of_bytes :: "bytes \<Rightarrow> string" where
  "string_of_bytes bs = map char_of_byte bs"

definition utf8_cont :: "u8 \<Rightarrow> bool" where
  "utf8_cont b \<longleftrightarrow> 0x80 \<le> b \<and> b \<le> 0xBF"

fun utf8_valid :: "bytes \<Rightarrow> bool" where
  "utf8_valid [] = True"
| "utf8_valid (b # bs) =
    (if b < 0x80 then utf8_valid bs
     else if 0xC2 \<le> b \<and> b \<le> 0xDF then
       (case bs of c # cs \<Rightarrow> utf8_cont c \<and> utf8_valid cs | _ \<Rightarrow> False)
     else if 0xE0 \<le> b \<and> b \<le> 0xEF then
       (case bs of c # d # cs \<Rightarrow>
          utf8_cont c \<and> (b = 0xE0 \<longrightarrow> 0xA0 \<le> c) \<and> (b = 0xED \<longrightarrow> c \<le> 0x9F) \<and> utf8_cont d \<and>
          utf8_valid cs
        | _ \<Rightarrow> False)
     else if 0xF0 \<le> b \<and> b \<le> 0xF4 then
       (case bs of c # d # e # cs \<Rightarrow>
          utf8_cont c \<and> (b = 0xF0 \<longrightarrow> 0x90 \<le> c) \<and> (b = 0xF4 \<longrightarrow> c \<le> 0x8F) \<and> utf8_cont d \<and>
          utf8_cont e \<and> utf8_valid cs
        | _ \<Rightarrow> False)
     else False)"

definition from_utf8 :: "bytes \<Rightarrow> string option" where
  "from_utf8 bs = (if utf8_valid bs then Some (string_of_bytes bs) else None)"

definition utf8_string :: "string \<Rightarrow> bool" where
  "utf8_string s \<longleftrightarrow> utf8_valid (as_bytes s)"

lemma char_of_byte_of_char [simp]: "char_of_byte (byte_of_char c) = c"
  by (simp add: char_of_byte_def byte_of_char_def unat_of_nat)

lemma byte_of_char_of_byte [simp]: "byte_of_char (char_of_byte b) = b"
  by (simp add: char_of_byte_def byte_of_char_def unat_u8_less [THEN mod_less])

lemma string_of_as_bytes [simp]: "string_of_bytes (as_bytes s) = s"
  by (simp add: string_of_bytes_def as_bytes_def map_idI)

lemma as_bytes_of_string [simp]: "as_bytes (string_of_bytes bs) = bs"
  by (simp add: string_of_bytes_def as_bytes_def map_idI)

lemma as_bytes_inject [simp]: "as_bytes s = as_bytes t \<longleftrightarrow> s = t"
  by (metis string_of_as_bytes)

lemma length_as_bytes [simp]: "length (as_bytes s) = length s"
  by (simp add: as_bytes_def)

lemma from_utf8_as_bytes [simp]: "utf8_string s \<Longrightarrow> from_utf8 (as_bytes s) = Some s"
  by (simp add: from_utf8_def utf8_string_def)

lemma from_utf8_eq_Some: "from_utf8 bs = Some s \<longleftrightarrow> utf8_string s \<and> bs = as_bytes s"
  by (auto simp: from_utf8_def utf8_string_def)

fun show_nat :: "nat \<Rightarrow> string" where
  "show_nat n = (if n < 10 then [char_of (48 + n)] else show_nat (n div 10) @ [char_of (48 + n mod 10)])"

declare show_nat.simps [simp del]

subsection \<open>Ordered maps\<close>

text \<open>A key-value tree is iterated in key order, so its content is an association list with
  strictly increasing keys; \<^const>\<open>map_of\<close> is the point lookup.\<close>

type_synonym ('k, 'v) omap = "('k \<times> 'v) list"

definition omap_ok :: "('k::linorder, 'v) omap \<Rightarrow> bool" where
  "omap_ok m \<longleftrightarrow> sorted_wrt (<) (map fst m)"

fun omap_ins :: "'k::linorder \<Rightarrow> 'v \<Rightarrow> ('k, 'v) omap \<Rightarrow> ('k, 'v) omap" where
  "omap_ins k v [] = [(k, v)]"
| "omap_ins k v ((l, w) # m) =
    (if k < l then (k, v) # (l, w) # m
     else if k = l then (k, v) # m
     else (l, w) # omap_ins k v m)"

fun omap_del :: "'k::linorder \<Rightarrow> ('k, 'v) omap \<Rightarrow> ('k, 'v) omap" where
  "omap_del k [] = []"
| "omap_del k ((l, w) # m) = (if k = l then m else (l, w) # omap_del k m)"

definition omap_sum :: "('k \<Rightarrow> 'v \<Rightarrow> nat) \<Rightarrow> ('k, 'v) omap \<Rightarrow> nat" where
  "omap_sum f m = sum_list (map (\<lambda>(k, v). f k v) m)"

lemma omap_ok_Nil [simp]: "omap_ok []"
  by (simp add: omap_ok_def)

lemma omap_ok_Cons: "omap_ok ((k, v) # m) \<longleftrightarrow> (\<forall>e \<in> set m. k < fst e) \<and> omap_ok m"
  by (auto simp: omap_ok_def)

lemma map_of_omap_ins [simp]: "map_of (omap_ins k v m) = (map_of m)(k \<mapsto> v)"
  by (induction m) (auto simp: fun_eq_iff)

lemma set_omap_ins: "e \<in> set (omap_ins k v m) \<Longrightarrow> e = (k, v) \<or> e \<in> set m"
  by (induction m) (auto split: if_splits)

lemma set_omap_del: "e \<in> set (omap_del k m) \<Longrightarrow> e \<in> set m"
  by (induction m) (auto split: if_splits)

lemma omap_ok_ins [simp]: "omap_ok m \<Longrightarrow> omap_ok (omap_ins k v m)"
proof (induction m)
  case (Cons e m)
  obtain l w where e: "e = (l, w)" by (cases e)
  with Cons have hd: "\<forall>e \<in> set m. l < fst e" and ok: "omap_ok m"
    by (simp_all add: omap_ok_Cons)
  show ?case
  proof (cases k l rule: linorder_cases)
    case greater
    then show ?thesis using e hd Cons.IH [OF ok] by (auto simp: omap_ok_Cons dest: set_omap_ins)
  qed (use e hd ok in \<open>auto simp: omap_ok_Cons\<close>)
qed (simp add: omap_ok_def)

lemma map_of_None_below:
  fixes m :: "('k::linorder, 'v) omap"
  shows "\<forall>e \<in> set m. k < fst e \<Longrightarrow> map_of m k = None"
  by (induction m) auto

lemma map_of_omap_del [simp]: "omap_ok m \<Longrightarrow> map_of (omap_del k m) = (map_of m)(k := None)"
proof (induction m)
  case (Cons e m)
  obtain l w where e: "e = (l, w)" by (cases e)
  with Cons have "map_of m l = None" and "omap_ok m"
    by (simp_all add: omap_ok_Cons map_of_None_below)
  then show ?case using Cons e by (auto simp: fun_eq_iff)
qed simp

lemma omap_ok_del [simp]: "omap_ok m \<Longrightarrow> omap_ok (omap_del k m)"
proof (induction m)
  case (Cons e m)
  obtain l w where e: "e = (l, w)" by (cases e)
  then show ?case using Cons by (auto simp: omap_ok_Cons dest: set_omap_del)
qed simp

lemma omap_sum_simps [simp]:
  "omap_sum f [] = 0" "omap_sum f ((k, v) # m) = f k v + omap_sum f m"
  by (simp_all add: omap_sum_def)

definition omap_part :: "('k \<Rightarrow> 'v \<Rightarrow> nat) \<Rightarrow> ('k, 'v) omap \<Rightarrow> 'k \<Rightarrow> nat" where
  "omap_part f m k = (case map_of m k of None \<Rightarrow> 0 | Some v \<Rightarrow> f k v)"

lemma omap_sum_ins:
  "omap_ok m \<Longrightarrow> omap_sum f (omap_ins k v m) + omap_part f m k = omap_sum f m + f k v"
proof (induction m)
  case (Cons e m)
  obtain l w where e: "e = (l, w)" by (cases e)
  with Cons have "omap_ok m" and below: "\<forall>e \<in> set m. l < fst e"
    by (simp_all add: omap_ok_Cons)
  moreover have "map_of m k = None" if "k \<le> l"
    using below that by (intro map_of_None_below) auto
  ultimately show ?case using Cons.IH e
    by (cases k l rule: linorder_cases) (auto simp: omap_part_def)
qed (simp add: omap_part_def)

lemma omap_sum_del:
  "omap_ok m \<Longrightarrow> omap_sum f (omap_del k m) + omap_part f m k = omap_sum f m"
proof (induction m)
  case (Cons e m)
  obtain l w where e: "e = (l, w)" by (cases e)
  with Cons have "omap_ok m" by (simp add: omap_ok_Cons)
  with Cons.IH e show ?case by (auto simp: omap_part_def)
qed (simp add: omap_part_def)

lemma omap_part_le_sum: "omap_part f m k \<le> omap_sum f m"
  by (induction m) (auto simp: omap_part_def)

lemma omap_ok_filter: "omap_ok m \<Longrightarrow> omap_ok (filter P m)"
proof (induction m)
  case (Cons e m)
  then show ?case by (cases e) (auto simp: omap_ok_Cons)
qed simp

lemma omap_ok_map_of: "omap_ok m \<Longrightarrow> map_of m k = Some v \<longleftrightarrow> (k, v) \<in> set m"
  by (rule map_of_eq_Some_iff) (auto simp: omap_ok_def strict_sorted_iff)

lemma omap_after_step:
  fixes m :: "('k::linorder, 'v) omap"
  assumes "omap_ok m"
    and "filter (\<lambda>(k, v). case cur of None \<Rightarrow> True | Some c \<Rightarrow> c < k) m = (k, v) # es"
  shows "filter (\<lambda>(k', v). k < k') m = es"
  using assms
proof (induction m)
  case (Cons e m)
  obtain l w where e: "e = (l, w)" by (cases e)
  with Cons.prems have low: "\<forall>e \<in> set m. l < fst e" and ok: "omap_ok m" by (simp_all add: omap_ok_Cons)
  show ?case
  proof (cases "case cur of None \<Rightarrow> True | Some c \<Rightarrow> c < l")
    case True
    then have *: "l = k" "filter (\<lambda>(k, v). case cur of None \<Rightarrow> True | Some c \<Rightarrow> c < k) m = es"
      using Cons.prems(2) e by simp_all
    have "filter (\<lambda>(k, v). case cur of None \<Rightarrow> True | Some c \<Rightarrow> c < k) m = filter (\<lambda>(k', v). k < k') m"
      using low True * by (intro filter_cong) (auto split: option.splits dest: order.strict_trans)
    then show ?thesis using * e by simp
  next
    case False
    then have es: "filter (\<lambda>(k, v). case cur of None \<Rightarrow> True | Some c \<Rightarrow> c < k) m = (k, v) # es"
      using Cons.prems(2) e by simp
    then have "(k, v) \<in> set (filter (\<lambda>(k, v). case cur of None \<Rightarrow> True | Some c \<Rightarrow> c < k) m)" by simp
    then have "l < k" using low by auto
    then show ?thesis using Cons.IH [OF ok es] e by simp
  qed
qed simp

subsection \<open>Results and state passing\<close>

text \<open>A function that returns \<open>Result<'a, 'e>\<close> is a sum with the error on the left; the
  question mark operator is \<open>bindE\<close>. A function that also reads and changes state is an
  \<open>act\<close>: the state it leaves is there on the error path as well. The combinators are
  \<open>ret\<close> (\<open>Ok\<close>), \<open>raise\<close> (\<open>Err\<close>), \<open>bindM\<close> (sequencing with the question mark), \<open>tryM\<close> (the
  result as a value, for code that matches on it) and \<open>liftE\<close> (a pure \<open>Result\<close>).\<close>

type_synonym ('s, 'e, 'a) act = "'s \<Rightarrow> ('e + 'a) \<times> 's"

definition bindE :: "'e + 'a \<Rightarrow> ('a \<Rightarrow> 'e + 'b) \<Rightarrow> 'e + 'b" where
  "bindE r k = (case r of Inl e \<Rightarrow> Inl e | Inr x \<Rightarrow> k x)"

definition map_err :: "('e \<Rightarrow> 'f) \<Rightarrow> 'e + 'a \<Rightarrow> 'f + 'a" where
  "map_err f r = (case r of Inl e \<Rightarrow> Inl (f e) | Inr x \<Rightarrow> Inr x)"

definition ok_or :: "'e \<Rightarrow> 'a option \<Rightarrow> 'e + 'a" where
  "ok_or e v = (case v of None \<Rightarrow> Inl e | Some x \<Rightarrow> Inr x)"

definition ret :: "'a \<Rightarrow> ('s, 'e, 'a) act" where
  "ret x = (\<lambda>s. (Inr x, s))"

definition raise :: "'e \<Rightarrow> ('s, 'e, 'a) act" where
  "raise e = (\<lambda>s. (Inl e, s))"

definition bindM :: "('s, 'e, 'a) act \<Rightarrow> ('a \<Rightarrow> ('s, 'e, 'b) act) \<Rightarrow> ('s, 'e, 'b) act" where
  "bindM m k = (\<lambda>s. case m s of (Inl e, s') \<Rightarrow> (Inl e, s') | (Inr x, s') \<Rightarrow> k x s')"

definition tryM :: "('s, 'e, 'a) act \<Rightarrow> ('s, 'f, 'e + 'a) act" where
  "tryM m = (\<lambda>s. case m s of (r, s') \<Rightarrow> (Inr r, s'))"

definition liftE :: "'e + 'a \<Rightarrow> ('s, 'e, 'a) act" where
  "liftE r = (\<lambda>s. (r, s))"

definition modifyM :: "('s \<Rightarrow> 's) \<Rightarrow> ('s, 'e, unit) act" where
  "modifyM f = (\<lambda>s. (Inr (), f s))"

definition getsM :: "('s \<Rightarrow> 'a) \<Rightarrow> ('s, 'e, 'a) act" where
  "getsM f = (\<lambda>s. (Inr (f s), s))"

definition wp :: "('s, 'e, 'a) act \<Rightarrow> ('a \<Rightarrow> 's \<Rightarrow> bool) \<Rightarrow> ('e \<Rightarrow> 's \<Rightarrow> bool) \<Rightarrow> 's \<Rightarrow> bool" where
  "wp m Q E s = (case m s of (Inl e, s') \<Rightarrow> E e s' | (Inr x, s') \<Rightarrow> Q x s')"

lemma bindE_simps [simp]: "bindE (Inl e) k = Inl e" "bindE (Inr x) k = k x"
  by (simp_all add: bindE_def)

lemma bindE_eq_Inr: "bindE r k = Inr y \<longleftrightarrow> (\<exists>x. r = Inr x \<and> k x = Inr y)"
  by (cases r) auto

lemma map_err_simps [simp]: "map_err f (Inl e) = Inl (f e)" "map_err f (Inr x) = Inr x"
  by (simp_all add: map_err_def)

lemma map_err_eq_Inr [simp]: "map_err f r = Inr x \<longleftrightarrow> r = Inr x"
  by (cases r) auto

lemma ok_or_simps [simp]: "ok_or e None = Inl e" "ok_or e (Some x) = Inr x"
  by (simp_all add: ok_or_def)

lemma ok_or_eq_Inr [simp]: "ok_or e v = Inr x \<longleftrightarrow> v = Some x"
  by (cases v) auto

lemma wp_ret [wp_rules, simp]: "wp (ret x) Q E s = Q x s"
  by (simp add: wp_def ret_def)

lemma wp_raise [wp_rules, simp]: "wp (raise e) Q E s = E e s"
  by (simp add: wp_def raise_def)

lemma wp_bindM [wp_rules, simp]: "wp (bindM m k) Q E s = wp m (\<lambda>x. wp (k x) Q E) E s"
  by (auto simp: wp_def bindM_def split: prod.splits sum.splits)

lemma wp_tryM [wp_rules, simp]: "wp (tryM m) Q E s = wp m (\<lambda>x. Q (Inr x)) (\<lambda>e. Q (Inl e)) s"
  by (auto simp: wp_def tryM_def split: prod.splits sum.splits)

lemma wp_liftE [wp_rules, simp]:
  "wp (liftE r) Q E s = (case r of Inl e \<Rightarrow> E e s | Inr x \<Rightarrow> Q x s)"
  by (simp add: wp_def liftE_def)

lemma wp_modifyM [wp_rules, simp]: "wp (modifyM f) Q E s = Q () (f s)"
  by (simp add: wp_def modifyM_def)

lemma wp_getsM [wp_rules, simp]: "wp (getsM f) Q E s = Q (f s) s"
  by (simp add: wp_def getsM_def)

lemma wp_mono:
  assumes "wp m Q E s"
    and "\<And>x s'. Q x s' \<Longrightarrow> Q' x s'"
    and "\<And>e s'. E e s' \<Longrightarrow> E' e s'"
  shows "wp m Q' E' s"
  using assms by (auto simp: wp_def split: prod.splits sum.splits)

lemma wp_conj:
  "wp m Q E s \<Longrightarrow> wp m Q' E' s \<Longrightarrow> wp m (\<lambda>x s. Q x s \<and> Q' x s) (\<lambda>e s. E e s \<and> E' e s) s"
  by (auto simp: wp_def split: prod.splits sum.splits)

lemma wpD_Inr: "wp m Q E s \<Longrightarrow> m s = (Inr x, s') \<Longrightarrow> Q x s'"
  by (simp add: wp_def)

lemma wpD_Inl: "wp m Q E s \<Longrightarrow> m s = (Inl e, s') \<Longrightarrow> E e s'"
  by (simp add: wp_def)

lemma wpI:
  "(\<And>x s'. m s = (Inr x, s') \<Longrightarrow> Q x s') \<Longrightarrow> (\<And>e s'. m s = (Inl e, s') \<Longrightarrow> E e s') \<Longrightarrow> wp m Q E s"
  by (auto simp: wp_def split: prod.splits sum.splits)

text \<open>Running an action on a component of a larger state, converting an error, and a loop over a
  list that stops at the first error.\<close>

definition zoom :: "('s \<Rightarrow> 't) \<Rightarrow> ('t \<Rightarrow> 's \<Rightarrow> 's) \<Rightarrow> ('t, 'e, 'a) act \<Rightarrow> ('s, 'e, 'a) act" where
  "zoom sel upd m s = (let (r, t) = m (sel s) in (r, upd t s))"

definition mapE :: "('e \<Rightarrow> 'f) \<Rightarrow> ('s, 'e, 'a) act \<Rightarrow> ('s, 'f, 'a) act" where
  "mapE f m s = (let (r, s') = m s in (map_err f r, s'))"

fun forM :: "'a list \<Rightarrow> ('a \<Rightarrow> ('s, 'e, 'b) act) \<Rightarrow> ('s, 'e, 'b list) act" where
  "forM [] f = ret []"
| "forM (x # xs) f = bindM (f x) (\<lambda>y. bindM (forM xs f) (\<lambda>ys. ret (y # ys)))"

definition orElse :: "('s, 'e, 'a) act \<Rightarrow> ('e \<Rightarrow> ('s, 'f, 'a) act) \<Rightarrow> ('s, 'f, 'a) act" where
  "orElse m h = bindM (tryM m) (\<lambda>r. case r of Inr x \<Rightarrow> ret x | Inl e \<Rightarrow> h e)"

definition ignore :: "('s, 'e, 'a) act \<Rightarrow> ('s, 'f, unit) act" where
  "ignore m = bindM (tryM m) (\<lambda>_. ret ())"

lemma wp_seq: "wp m R E s \<Longrightarrow> (\<And>x t. R x t \<Longrightarrow> wp (k x) Q E t) \<Longrightarrow> wp (bindM m k) Q E s"
  unfolding wp_bindM by (rule wp_mono)

text \<open>A run that is known to satisfy its postconditions is still that run.\<close>

lemma wp_traced: "wp m Q E s \<Longrightarrow> wp m (\<lambda>x t. Q x t \<and> m s = (Inr x, t)) (\<lambda>e t. E e t \<and> m s = (Inl e, t)) s"
  by (auto simp: wp_def split: prod.splits sum.splits)

lemma if_cases: "(b \<Longrightarrow> wp m Q E s) \<Longrightarrow> (\<not> b \<Longrightarrow> wp n Q E s) \<Longrightarrow> wp (if b then m else n) Q E s"
  by simp

lemma wp_ret_fun [simp]: "wp (ret x) Q E = Q x" "wp (raise e) Q E = E e"
  by (simp_all add: fun_eq_iff)

lemma wp_zoom [wp_rules, simp]:
  "wp (zoom sel upd m) Q E s = wp m (\<lambda>x t. Q x (upd t s)) (\<lambda>e t. E e (upd t s)) (sel s)"
  by (simp add: wp_def zoom_def split: prod.splits)

lemma wp_mapE [wp_rules, simp]: "wp (mapE f m) Q E s = wp m Q (\<lambda>e. E (f e)) s"
  by (auto simp: wp_def mapE_def map_err_def split: prod.splits sum.splits)

lemma wp_orElse [wp_rules, simp]: "wp (orElse m h) Q E s = wp m Q (\<lambda>e. wp (h e) Q E) s"
  by (simp add: orElse_def)

lemma wp_ignore [wp_rules, simp]: "wp (ignore m) Q E s = wp m (\<lambda>_. Q ()) (\<lambda>_. Q ()) s"
  by (simp add: ignore_def)

lemma wp_forM_inv:
  assumes "I [] s"
    and "\<And>x done rest s. xs = done @ x # rest \<Longrightarrow> I done s \<Longrightarrow>
      wp (f x) (\<lambda>_. I (done @ [x])) E s"
    and "\<And>ys s. I xs s \<Longrightarrow> length ys = length xs \<Longrightarrow> Q ys s"
  shows "wp (forM xs f) Q E s"
proof -
  have "wp (forM rest f) (\<lambda>ys s. I xs s \<and> length ys = length rest) E s" if "xs = done @ rest" "I done s" for rest "done" s
    using that
  proof (induction rest arbitrary: "done" s)
    case (Cons x rest)
    show ?case unfolding forM.simps wp_bindM
    proof (rule wp_mono [OF assms(2) [OF Cons.prems]])
      fix y s' assume "I (done @ [x]) s'"
      then show "wp (forM rest f) (\<lambda>ys. wp (ret (y # ys)) (\<lambda>ys s. I xs s \<and> length ys = length (x # rest)) E) E s'"
        using Cons.IH [of "done @ [x]" s'] Cons.prems(1) by simp
    qed
  qed simp
  from this [of "[]" xs s] show ?thesis using assms(1,3) by (auto elim!: wp_mono)
qed

lemma wp_forM_rel:
  assumes "I [] s"
    and "\<And>x done rest s. xs = map fst done @ x # rest \<Longrightarrow> I done s \<Longrightarrow>
      wp (f x) (\<lambda>y. I (done @ [(x, y)])) E s"
  shows "wp (forM xs f) (\<lambda>ys s. I (zip xs ys) s \<and> length ys = length xs) E s"
proof -
  have "wp (forM rest f) (\<lambda>ys s. I (done @ zip rest ys) s \<and> length ys = length rest) E s"
    if "xs = map fst done @ rest" "I done s" for rest "done" s
    using that
  proof (induction rest arbitrary: "done" s)
    case (Cons x rest)
    have step: "wp (f x) (\<lambda>y. I (done @ [(x, y)])) E s" by (rule assms(2) [OF Cons.prems])
    show ?case unfolding forM.simps
    proof (rule wp_seq [OF step])
      fix y s' assume y: "I (done @ [(x, y)]) s'"
      have "wp (forM rest f) (\<lambda>ys s. I ((done @ [(x, y)]) @ zip rest ys) s \<and> length ys = length rest) E s'"
        by (rule Cons.IH) (use y Cons.prems in simp_all)
      then show "wp (bindM (forM rest f) (\<lambda>ys. ret (y # ys)))
          (\<lambda>ys s. I (done @ zip (x # rest) ys) s \<and> length ys = length (x # rest)) E s'"
        by simp
    qed
  qed simp
  from this [of "[]" xs s] show ?thesis using assms(1) by simp
qed

end
