(* ===== verification/Codec.thy ===== *)
theory Codec
  imports Prelude
begin

section \<open>The record codec: cursor, field readers, block ids\<close>

text \<open>
  The byte-level helpers of \<open>metastore/codec.rs\<close>, the decode errors of \<open>metastore/errors.rs\<close>
  and the block address of \<open>metastore/block.rs\<close>. A \<open>Reader\<close> is a record (its record name, its
  buffer, its cursor) and each of its methods is a state-passing operation on it; offsets are
  natural numbers whose arithmetic is checked against the largest \<open>usize\<close> where the code
  calls \<open>checked_add\<close> and \<open>checked_mul\<close>.

  The interface \<open>field_codec\<close> says what a field reader owes a field writer: it reads back what
  was written and leaves the rest, and whatever it accepts is what the writer would have
  written. Every field kind of the on-disk formats is an instance, and the record theories
  build on the instances only.
\<close>

subsection \<open>Decode errors\<close>

datatype fs_error =
    Truncated string nat nat
  | TrailingBytes string nat
  | InvalidUtf8 string string
  | UnknownObjectType u8
  | InvalidIdWidth u8
  | LengthOverflow string string

subsection \<open>Block ids\<close>

definition BLOCKID_SIZE :: nat where
  "BLOCKID_SIZE = 16"

definition MAX_BLOCKID_SIZE :: nat where
  "MAX_BLOCKID_SIZE = 32"

datatype block_id = BlockId (bid_bytes: bytes) (bid_len: u8)

definition block_id_from_slice :: "bytes \<Rightarrow> fs_error + block_id" where
  "block_id_from_slice bs =
    (if length bs = BLOCKID_SIZE \<or> length bs = MAX_BLOCKID_SIZE then
       Inr (BlockId (bs @ replicate (MAX_BLOCKID_SIZE - length bs) 0) (of_nat (length bs)))
     else Inl (InvalidIdWidth (if length bs \<le> 255 then of_nat (length bs) else 255)))"

definition as_slice :: "block_id \<Rightarrow> bytes" where
  "as_slice b = take (unat (bid_len b)) (bid_bytes b)"

definition block_id_len :: "block_id \<Rightarrow> nat" where
  "block_id_len b = unat (bid_len b)"

definition block_id_from_16 :: "bytes \<Rightarrow> block_id" where
  "block_id_from_16 bs = BlockId (bs @ replicate (MAX_BLOCKID_SIZE - BLOCKID_SIZE) 0) (of_nat BLOCKID_SIZE)"

definition block_id_from_32 :: "bytes \<Rightarrow> block_id" where
  "block_id_from_32 bs = BlockId bs (of_nat MAX_BLOCKID_SIZE)"

text \<open>The invariant of the type: 32 stored bytes, width 16 or 32, zero padding.\<close>

definition wf_block_id :: "block_id \<Rightarrow> bool" where
  "wf_block_id b \<longleftrightarrow>
     length (bid_bytes b) = MAX_BLOCKID_SIZE \<and>
     (block_id_len b = BLOCKID_SIZE \<or> block_id_len b = MAX_BLOCKID_SIZE) \<and>
     (\<forall>x \<in> set (drop (block_id_len b) (bid_bytes b)). x = 0)"

text \<open>The derived \<open>Ord\<close>: the padded arrays first, then the widths.\<close>

instantiation block_id :: linorder
begin

definition less_eq_block_id :: "block_id \<Rightarrow> block_id \<Rightarrow> bool" where
  "less_eq_block_id a b \<longleftrightarrow> bid_bytes a < bid_bytes b \<or> bid_bytes a = bid_bytes b \<and> bid_len a \<le> bid_len b"

definition less_block_id :: "block_id \<Rightarrow> block_id \<Rightarrow> bool" where
  "less_block_id a b \<longleftrightarrow> bid_bytes a < bid_bytes b \<or> bid_bytes a = bid_bytes b \<and> bid_len a < bid_len b"

instance
  by standard
    (auto simp: less_eq_block_id_def less_block_id_def intro: block_id.expand)

end

subsection \<open>Writers\<close>

definition put_len :: "bytes \<Rightarrow> nat \<Rightarrow> bytes" where
  "put_len out value = out @ u64_to_le_bytes (of_nat value)"

definition ids_width :: "block_id list \<Rightarrow> nat" where
  "ids_width ids = (case ids of [] \<Rightarrow> 0 | b # _ \<Rightarrow> block_id_len b)"

definition id_list_len :: "block_id list \<Rightarrow> nat" where
  "id_list_len ids = 1 + 8 + length ids * ids_width ids"

definition put_id_list :: "bytes \<Rightarrow> block_id list \<Rightarrow> bytes" where
  "put_id_list out ids =
    put_len (out @ [of_nat (ids_width ids)]) (length ids) @ concat (map as_slice ids)"

subsection \<open>The cursor\<close>

record reader =
  rd_record :: string
  rd_buf :: bytes
  rd_pos :: nat

type_synonym 'a reads = "(reader, fs_error, 'a) act"

definition reader_new :: "string \<Rightarrow> bytes \<Rightarrow> reader" where
  "reader_new name buf = \<lparr>rd_record = name, rd_buf = buf, rd_pos = 0\<rparr>"

definition reader_take :: "string \<Rightarrow> nat \<Rightarrow> bytes reads" where
  "reader_take field len r =
    (case checked_add (rd_pos r) len of
       None \<Rightarrow> (Inl (LengthOverflow (rd_record r) field), r)
     | Some end \<Rightarrow>
         if end > length (rd_buf r)
         then (Inl (Truncated (rd_record r) end (length (rd_buf r))), r)
         else (Inr (take (end - rd_pos r) (drop (rd_pos r) (rd_buf r))), r\<lparr>rd_pos := end\<rparr>))"

definition reader_u8 :: "string \<Rightarrow> u8 reads" where
  "reader_u8 field = bindM (reader_take field 1) (\<lambda>raw. ret (raw ! 0))"

definition reader_u16 :: "string \<Rightarrow> u16 reads" where
  "reader_u16 field = bindM (reader_take field 2) (\<lambda>raw. ret (u16_from_le_bytes raw))"

definition reader_u64 :: "string \<Rightarrow> u64 reads" where
  "reader_u64 field = bindM (reader_take field 8) (\<lambda>raw. ret (u64_from_le_bytes raw))"

definition reader_i64 :: "string \<Rightarrow> i64 reads" where
  "reader_i64 field = bindM (reader_take field 8) (\<lambda>raw. ret (u64_from_le_bytes raw))"

definition usize_try_from :: "u64 \<Rightarrow> nat option" where
  "usize_try_from w = (if unat w \<le> usize_max then Some (unat w) else None)"

definition reader_len :: "string \<Rightarrow> nat reads" where
  "reader_len field =
    bindM (reader_u64 field) (\<lambda>w r. (ok_or (LengthOverflow (rd_record r) field) (usize_try_from w), r))"

definition reader_array :: "nat \<Rightarrow> string \<Rightarrow> bytes reads" where
  "reader_array n field = reader_take field n"

definition reader_bytes :: "string \<Rightarrow> nat \<Rightarrow> bytes reads" where
  "reader_bytes field len = reader_take field len"

definition reader_utf8 :: "string \<Rightarrow> nat \<Rightarrow> string reads" where
  "reader_utf8 field len =
    bindM (reader_take field len)
      (\<lambda>raw r. (ok_or (InvalidUtf8 (rd_record r) field) (from_utf8 raw), r))"

text \<open>\<open>chunks_exact\<close> of the standard library, for a chunk size above zero.\<close>

fun chunks_exact :: "nat \<Rightarrow> bytes \<Rightarrow> bytes list" where
  "chunks_exact w bs = (if w = 0 \<or> length bs < w then [] else take w bs # chunks_exact w (drop w bs))"

declare chunks_exact.simps [simp del]

primrec ids_of_chunks :: "bytes list \<Rightarrow> fs_error + block_id list" where
  "ids_of_chunks [] = Inr []"
| "ids_of_chunks (c # cs) =
    bindE (block_id_from_slice c) (\<lambda>b. bindE (ids_of_chunks cs) (\<lambda>bs. Inr (b # bs)))"

definition reader_id_list :: "block_id list reads" where
  "reader_id_list =
    bindM (reader_u8 ''id_width'') (\<lambda>width.
    bindM (reader_len ''id_count'') (\<lambda>count.
      if width = 0 \<and> count = 0 then ret []
      else if unat width = BLOCKID_SIZE \<or> unat width = MAX_BLOCKID_SIZE then
        bindM (\<lambda>r. (ok_or (LengthOverflow (rd_record r) ''id_count'') (checked_mul count (unat width)), r)) (\<lambda>total.
        bindM (reader_take ''ids'' total) (\<lambda>raw.
          liftE (ids_of_chunks (chunks_exact (unat width) raw))))
      else raise (InvalidIdWidth width)))"

definition reader_finish :: "unit reads" where
  "reader_finish r =
    (if rd_pos r \<noteq> length (rd_buf r)
     then (Inl (TrailingBytes (rd_record r) (length (rd_buf r) - rd_pos r)), r)
     else (Inr (), r))"

subsection \<open>Block ids: invariant, slices, order\<close>

lemma block_id_from_slice_wf: "block_id_from_slice bs = Inr b \<Longrightarrow> wf_block_id b \<and> as_slice b = bs"
  by (auto simp: block_id_from_slice_def wf_block_id_def as_slice_def block_id_len_def
      BLOCKID_SIZE_def MAX_BLOCKID_SIZE_def split: if_splits)

lemma length_as_slice: "wf_block_id b \<Longrightarrow> length (as_slice b) = block_id_len b"
  by (auto simp: wf_block_id_def as_slice_def block_id_len_def BLOCKID_SIZE_def MAX_BLOCKID_SIZE_def)

lemma zeros_eq_replicate: "\<forall>x \<in> set xs. x = 0 \<Longrightarrow> xs = replicate (length xs) (0 :: u8)"
  by (simp add: replicate_eqI)

lemma block_id_from_as_slice:
  assumes "wf_block_id b"
  shows "block_id_from_slice (as_slice b) = Inr b"
proof -
  from assms have len: "length (as_slice b) = block_id_len b" by (rule length_as_slice)
  have pad: "drop (block_id_len b) (bid_bytes b) = replicate (MAX_BLOCKID_SIZE - block_id_len b) 0"
    using assms zeros_eq_replicate [of "drop (block_id_len b) (bid_bytes b)"]
    by (simp add: wf_block_id_def)
  then have "as_slice b @ replicate (MAX_BLOCKID_SIZE - block_id_len b) 0 = bid_bytes b"
    by (metis append_take_drop_id as_slice_def block_id_len_def)
  moreover have "of_nat (block_id_len b) = bid_len b"
    by (simp add: block_id_len_def)
  ultimately show ?thesis
    using assms len by (auto simp: block_id_from_slice_def wf_block_id_def)
qed

lemma as_slice_inject:
  "wf_block_id a \<Longrightarrow> wf_block_id b \<Longrightarrow> as_slice a = as_slice b \<longleftrightarrow> a = b"
  by (metis block_id_from_as_slice sum.inject(2))

text \<open>Padding with zeros does not change the order of two byte strings, and where it makes
  them equal the shorter one is first either way.\<close>

lemma not_less_zeros: "length xs = n \<Longrightarrow> \<not> xs < replicate n (0 :: u8)"
  by (induction xs arbitrary: n) auto

lemma pad_less_iff:
  fixes xs ys :: bytes
  assumes "length xs + m = length ys + n"
  shows "xs @ replicate m 0 < ys @ replicate n 0 \<or>
      xs @ replicate m 0 = ys @ replicate n 0 \<and> length xs < length ys \<longleftrightarrow> xs < ys"
  using assms
proof (induction xs arbitrary: ys)
  case Nil
  have zeros: "replicate m 0 < ys @ replicate n 0 \<or>
      replicate m 0 = ys @ replicate n 0 \<and> 0 < length ys \<longleftrightarrow> ys \<noteq> []"
    if "m = length ys + n" for m n and ys :: bytes
    using that
  proof (induction ys arbitrary: m)
    case (Cons y ys)
    show ?case
    proof (cases "y = 0")
      case True
      then show ?thesis using Cons by (cases "ys = []") auto
    next
      case False
      then have "0 < y" by (simp add: word_gt_0)
      with Cons.prems show ?thesis by simp
    qed
  qed simp
  have "[] < ys \<longleftrightarrow> ys \<noteq> []" by (cases ys) auto
  then show ?case using zeros [of m ys n] Nil by simp
next
  case (Cons x xs)
  have "\<not> (x # xs) @ replicate m 0 < replicate n 0" if "ys = []"
    using that Cons.prems by (intro not_less_zeros) simp
  then show ?case using Cons by (cases ys) auto
qed

lemma block_id_less_iff_as_slice:
  assumes "wf_block_id a" "wf_block_id b"
  shows "a < b \<longleftrightarrow> as_slice a < as_slice b"
proof -
  have split: "bid_bytes c = as_slice c @ replicate (MAX_BLOCKID_SIZE - block_id_len c) 0"
    if "wf_block_id c" for c
  proof -
    have "drop (block_id_len c) (bid_bytes c) = replicate (MAX_BLOCKID_SIZE - block_id_len c) 0"
      using that zeros_eq_replicate [of "drop (block_id_len c) (bid_bytes c)"]
      by (simp add: wf_block_id_def)
    then show ?thesis by (metis append_take_drop_id as_slice_def block_id_len_def)
  qed
  have "length (as_slice a) + (MAX_BLOCKID_SIZE - block_id_len a) =
      length (as_slice b) + (MAX_BLOCKID_SIZE - block_id_len b)"
    using assms by (auto simp: length_as_slice wf_block_id_def BLOCKID_SIZE_def MAX_BLOCKID_SIZE_def)
  from pad_less_iff [OF this] show ?thesis
    using assms length_as_slice split
    by (simp add: less_block_id_def block_id_len_def word_less_nat_alt)
qed

subsection \<open>The contract of a field reader\<close>

text \<open>\<open>reader_at R pre rest\<close> is the cursor of a record \<open>R\<close> that has consumed \<open>pre\<close> and has \<open>rest\<close>
  left.\<close>

definition reader_at :: "string \<Rightarrow> bytes \<Rightarrow> bytes \<Rightarrow> reader" where
  "reader_at R pre rest = \<lparr>rd_record = R, rd_buf = pre @ rest, rd_pos = length pre\<rparr>"

lemma reader_new_at: "reader_new R bs = reader_at R [] bs"
  by (simp add: reader_new_def reader_at_def)

lemma reader_at_sel [simp]:
  "rd_record (reader_at R pre rest) = R"
  by (simp add: reader_at_def)

lemma reader_finish_at [simp]:
  "reader_finish (reader_at R pre rest) =
    (if rest = [] then (Inr (), reader_at R pre rest)
     else (Inl (TrailingBytes R (length rest)), reader_at R pre rest))"
  by (simp add: reader_finish_def reader_at_def)

lemma reader_take_at:
  "length pre + length rest \<le> usize_max \<Longrightarrow> reader_take f n (reader_at R pre rest) =
    (if n \<le> length rest then (Inr (take n rest), reader_at R (pre @ take n rest) (drop n rest))
     else if length pre + n \<le> usize_max
       then (Inl (Truncated R (length pre + n) (length pre + length rest)), reader_at R pre rest)
       else (Inl (LengthOverflow R f), reader_at R pre rest))"
  by (auto simp: reader_take_def reader_at_def checked_add_def)

lemma bindM_eq_Inr:
  "bindM m k s = (Inr y, s'') \<longleftrightarrow> (\<exists>x s'. m s = (Inr x, s') \<and> k x s' = (Inr y, s''))"
  by (auto simp: bindM_def split: prod.splits sum.splits)

lemma bindM_Inr: "m s = (Inr x, s') \<Longrightarrow> bindM m k s = k x s'"
  by (simp add: bindM_def)

lemma bindM_Inl: "m s = (Inl e, s') \<Longrightarrow> bindM m k s = (Inl e, s')"
  by (simp add: bindM_def)

lemma bindM_assoc: "bindM (bindM m k) l = bindM m (\<lambda>x. bindM (k x) l)"
  by (auto simp: bindM_def fun_eq_iff split: prod.splits sum.splits)

lemma bindM_ret: "bindM (ret x) k = k x"
  by (simp add: bindM_def ret_def)

lemmas bindM_laws = bindM_assoc bindM_ret

lemma ret_apply: "ret x s = (Inr x, s)"
  by (simp add: ret_def)

locale field_codec =
  fixes rd :: "'a reads"
    and enc :: "'a \<Rightarrow> bytes"
    and ok :: "'a \<Rightarrow> bool"
    and ex :: bool
  assumes read_back: "ok x \<Longrightarrow> length pre + length (enc x) + length rest \<le> usize_max \<Longrightarrow>
      rd (reader_at R pre (enc x @ rest)) = (Inr x, reader_at R (pre @ enc x) rest)"
    and read_exact: "length pre + length rest \<le> usize_max \<Longrightarrow>
      rd (reader_at R pre rest) = (Inr x, r') \<Longrightarrow>
      ok x \<and> (\<exists>used rest'. rest = used @ rest' \<and> r' = reader_at R (pre @ used) rest' \<and>
        length used = length (enc x) \<and> (ex \<longrightarrow> used = enc x))"
    and read_cut: "ok x \<Longrightarrow> length pre + length (enc x) \<le> usize_max \<Longrightarrow> n < length (enc x) \<Longrightarrow>
      \<exists>needed r'. rd (reader_at R pre (take n (enc x))) = (Inl (Truncated R needed (length pre + n)), r')"
begin

lemma prefix_free:
  assumes "ok x" "ok y" "enc x @ as = enc y @ bs" "length (enc x @ as) \<le> usize_max"
  shows "x = y" "as = bs"
proof -
  have len: "length (enc x) + length as \<le> usize_max" "length (enc y) + length bs \<le> usize_max"
    using assms(4) by (simp, metis assms(3) length_append)
  have "rd (reader_at [] [] (enc x @ as)) = (Inr x, reader_at [] (enc x) as)"
    using read_back [of x "[]" as "[]"] assms(1) len by auto
  moreover have "rd (reader_at [] [] (enc y @ bs)) = (Inr y, reader_at [] (enc y) bs)"
    using read_back [of y "[]" bs "[]"] assms(2) len by auto
  ultimately have "x = y" using assms(3) by simp
  then show "x = y" "as = bs" using assms(3) by simp_all
qed

end

text \<open>A record whose layout is one field after another, the second one possibly read in the
  light of the first, is again such a field.\<close>

lemma field_codec_bind:
  assumes "field_codec rd1 e1 ok1 ex1" and dep: "\<And>x. ok1 x \<Longrightarrow> field_codec (rd2 x) (e2 x) (ok2 x) ex2"
    and ex: "ex \<Longrightarrow> ex1 \<and> ex2"
  shows "field_codec (bindM rd1 (\<lambda>x. bindM (rd2 x) (\<lambda>y. ret (x, y))))
    (\<lambda>(x, y). e1 x @ e2 x y) (\<lambda>(x, y). ok1 x \<and> ok2 x y) ex"
proof
  fix p and pre rest :: bytes and R
  assume a: "case p of (x, y) \<Rightarrow> ok1 x \<and> ok2 x y"
    "length pre + length (case p of (x, y) \<Rightarrow> e1 x @ e2 x y) + length rest \<le> usize_max"
  obtain x y where p: "p = (x, y)" by (cases p)
  have "rd1 (reader_at R pre (e1 x @ e2 x y @ rest)) = (Inr x, reader_at R (pre @ e1 x) (e2 x y @ rest))"
    using a p by (intro field_codec.read_back [OF assms(1)]) auto
  moreover have "rd2 x (reader_at R (pre @ e1 x) (e2 x y @ rest)) =
      (Inr y, reader_at R ((pre @ e1 x) @ e2 x y) rest)"
    using a p by (intro field_codec.read_back [OF dep, of x]) auto
  ultimately show "bindM rd1 (\<lambda>x. bindM (rd2 x) (\<lambda>y. ret (x, y)))
      (reader_at R pre ((case p of (x, y) \<Rightarrow> e1 x @ e2 x y) @ rest)) =
    (Inr p, reader_at R (pre @ (case p of (x, y) \<Rightarrow> e1 x @ e2 x y)) rest)"
    using p by (simp add: bindM_Inr ret_apply)
next
  fix pre rest :: bytes and R p r'
  assume len: "length pre + length rest \<le> usize_max"
    and run: "bindM rd1 (\<lambda>x. bindM (rd2 x) (\<lambda>y. ret (x, y))) (reader_at R pre rest) = (Inr p, r')"
  from run obtain x r1 y where
    1: "rd1 (reader_at R pre rest) = (Inr x, r1)" and 2: "rd2 x r1 = (Inr y, r')" and p: "p = (x, y)"
    by (auto simp: bindM_eq_Inr ret_apply)
  from field_codec.read_exact [OF assms(1) len 1] obtain u1 rest1 where
    x: "ok1 x" "rest = u1 @ rest1" "r1 = reader_at R (pre @ u1) rest1"
      "length u1 = length (e1 x)" "ex1 \<longrightarrow> u1 = e1 x" by auto
  have "ok2 x y \<and> (\<exists>u2 rest'. rest1 = u2 @ rest' \<and> r' = reader_at R ((pre @ u1) @ u2) rest' \<and>
      length u2 = length (e2 x y) \<and> (ex2 \<longrightarrow> u2 = e2 x y))"
    using 2 len x by (intro field_codec.read_exact [OF dep [OF x(1)]]) auto
  then obtain u2 rest' where y: "ok2 x y" "rest1 = u2 @ rest'" "r' = reader_at R ((pre @ u1) @ u2) rest'"
    "length u2 = length (e2 x y)" "ex2 \<longrightarrow> u2 = e2 x y" by auto
  then show "(case p of (x, y) \<Rightarrow> ok1 x \<and> ok2 x y) \<and>
      (\<exists>used rest'. rest = used @ rest' \<and> r' = reader_at R (pre @ used) rest' \<and>
        length used = length (case p of (x, y) \<Rightarrow> e1 x @ e2 x y) \<and>
        (ex \<longrightarrow> used = (case p of (x, y) \<Rightarrow> e1 x @ e2 x y)))"
    using x p ex by (intro conjI exI [of _ "u1 @ u2"] exI [of _ rest']) auto
next
  fix p and pre :: bytes and n R
  assume a: "case p of (x, y) \<Rightarrow> ok1 x \<and> ok2 x y"
    "length pre + length (case p of (x, y) \<Rightarrow> e1 x @ e2 x y) \<le> usize_max"
    "n < length (case p of (x, y) \<Rightarrow> e1 x @ e2 x y)"
  obtain x y where p: "p = (x, y)" by (cases p)
  show "\<exists>needed r'. bindM rd1 (\<lambda>x. bindM (rd2 x) (\<lambda>y. ret (x, y)))
      (reader_at R pre (take n (case p of (x, y) \<Rightarrow> e1 x @ e2 x y))) =
    (Inl (Truncated R needed (length pre + n)), r')"
  proof (cases "n < length (e1 x)")
    case True
    then obtain needed r' where
      "rd1 (reader_at R pre (take n (e1 x))) = (Inl (Truncated R needed (length pre + n)), r')"
      using field_codec.read_cut [OF assms(1), of x pre n R] a p by auto
    then show ?thesis using True p by (auto simp: bindM_def)
  next
    case False
    define m where "m = n - length (e1 x)"
    have cut: "take n (e1 x @ e2 x y) = e1 x @ take m (e2 x y)" and n: "n = length (e1 x) + m"
      using False by (simp_all add: m_def)
    have 1: "rd1 (reader_at R pre (e1 x @ take m (e2 x y))) =
        (Inr x, reader_at R (pre @ e1 x) (take m (e2 x y)))"
      using a p by (intro field_codec.read_back [OF assms(1)]) auto
    obtain needed r' where "rd2 x (reader_at R (pre @ e1 x) (take m (e2 x y))) =
        (Inl (Truncated R needed (length (pre @ e1 x) + m)), r')"
      using field_codec.read_cut [OF dep, of x y "pre @ e1 x" m R] a p n by auto
    with 1 show ?thesis using p cut n by (auto simp: bindM_def ac_simps)
  qed
qed

lemma TrueI_pair: "True \<and> True"
  by simp

lemma field_codec_map:
  assumes "field_codec rd enc ok ex" and "\<And>x. ok x \<Longrightarrow> g (f x) = x" and "\<And>y. ok' y \<Longrightarrow> f (g y) = y"
    and "\<And>x. ok x \<Longrightarrow> ok' (f x)" and "\<And>y. ok' y \<Longrightarrow> ok (g y)"
    and "\<And>y. ok' y \<Longrightarrow> enc' y = enc (g y)"
  shows "field_codec (bindM rd (\<lambda>x. ret (f x))) enc' ok' ex"
proof
  fix y and pre rest :: bytes and R
  assume "ok' y" "length pre + length (enc' y) + length rest \<le> usize_max"
  then show "bindM rd (\<lambda>x. ret (f x)) (reader_at R pre (enc' y @ rest)) =
      (Inr y, reader_at R (pre @ enc' y) rest)"
    using assms field_codec.read_back [OF assms(1), of "g y" pre rest R]
    by (simp add: bindM_Inr ret_apply)
next
  fix pre rest :: bytes and R y r'
  assume len: "length pre + length rest \<le> usize_max"
    and "bindM rd (\<lambda>x. ret (f x)) (reader_at R pre rest) = (Inr y, r')"
  then obtain x where "rd (reader_at R pre rest) = (Inr x, r')" and y: "y = f x"
    by (auto simp: bindM_eq_Inr ret_apply)
  from field_codec.read_exact [OF assms(1) len this(1)] y assms(2-6)
  show "ok' y \<and> (\<exists>used rest'. rest = used @ rest' \<and> r' = reader_at R (pre @ used) rest' \<and>
      length used = length (enc' y) \<and> (ex \<longrightarrow> used = enc' y))"
    by auto
next
  fix y and pre :: bytes and n R
  assume "ok' y" "length pre + length (enc' y) \<le> usize_max" "n < length (enc' y)"
  then show "\<exists>needed r'. bindM rd (\<lambda>x. ret (f x)) (reader_at R pre (take n (enc' y))) =
      (Inl (Truncated R needed (length pre + n)), r')"
    using assms field_codec.read_cut [OF assms(1), of "g y" pre n R]
    by (auto simp: bindM_def)
qed

subsection \<open>The field kinds of the on-disk formats\<close>

lemma reader_take_codec: "field_codec (reader_take f n) (\<lambda>bs. bs) (\<lambda>bs. length bs = n) True"
proof
  fix pre rest :: bytes and R x r'
  assume "length pre + length rest \<le> usize_max" "reader_take f n (reader_at R pre rest) = (Inr x, r')"
  then show "length x = n \<and> (\<exists>used rest'. rest = used @ rest' \<and> r' = reader_at R (pre @ used) rest' \<and>
      length used = length (x) \<and> (True \<longrightarrow> used = x))"
    by (auto simp: reader_take_at split: if_splits intro: exI [of _ "drop n rest"])
qed (auto simp: reader_take_at)

lemma nth_0_singleton: "length xs = 1 \<Longrightarrow> [xs ! 0] = xs"
  by (cases xs) auto

interpretation u8_field: field_codec "reader_u8 f" "\<lambda>b. [b]" "\<lambda>_. True" True for f
proof
  fix pre rest :: bytes and R x r'
  assume "length pre + length rest \<le> usize_max" "reader_u8 f (reader_at R pre rest) = (Inr x, r')"
  then show "True \<and> (\<exists>used rest'. rest = used @ rest' \<and> r' = reader_at R (pre @ used) rest' \<and>
      length used = length ([x]) \<and> (True \<longrightarrow> used = [x]))"
    by (cases rest) (auto simp: reader_u8_def bindM_eq_Inr ret_apply reader_take_at split: if_splits)
qed (auto simp: reader_u8_def bindM_def ret_apply reader_take_at)

interpretation u16_field: field_codec "reader_u16 f" u16_to_le_bytes "\<lambda>_. True" True for f
proof
  fix pre rest :: bytes and R x r'
  assume "length pre + length rest \<le> usize_max" "reader_u16 f (reader_at R pre rest) = (Inr x, r')"
  then show "True \<and> (\<exists>used rest'. rest = used @ rest' \<and> r' = reader_at R (pre @ used) rest' \<and>
      length used = length (u16_to_le_bytes x) \<and> (True \<longrightarrow> used = u16_to_le_bytes x))"
    by (auto simp: reader_u16_def bindM_eq_Inr ret_apply reader_take_at u16_to_from_le_bytes
        split: if_splits intro: exI [of _ "drop 2 rest"])
qed (auto simp: reader_u16_def bindM_def ret_apply reader_take_at)

interpretation u64_field: field_codec "reader_u64 f" u64_to_le_bytes "\<lambda>_. True" True for f
proof
  fix pre rest :: bytes and R x r'
  assume "length pre + length rest \<le> usize_max" "reader_u64 f (reader_at R pre rest) = (Inr x, r')"
  then show "True \<and> (\<exists>used rest'. rest = used @ rest' \<and> r' = reader_at R (pre @ used) rest' \<and>
      length used = length (u64_to_le_bytes x) \<and> (True \<longrightarrow> used = u64_to_le_bytes x))"
    by (auto simp: reader_u64_def bindM_eq_Inr ret_apply reader_take_at u64_to_from_le_bytes
        split: if_splits intro: exI [of _ "drop 8 rest"])
qed (auto simp: reader_u64_def bindM_def ret_apply reader_take_at)

interpretation i64_field: field_codec "reader_i64 f" u64_to_le_bytes "\<lambda>_. True" True for f
proof -
  have "reader_i64 f = reader_u64 f" by (simp add: reader_i64_def reader_u64_def)
  then show "field_codec (reader_i64 f) u64_to_le_bytes (\<lambda>_. True) True"
    by (simp add: u64_field.field_codec_axioms)
qed

lemma usize_try_from_u64 [simp]: "usize_try_from w = Some (unat w)"
  by (simp add: usize_try_from_def)

lemma reader_len_eq: "reader_len f = bindM (reader_u64 f) (\<lambda>w. ret (unat w))"
  by (simp add: reader_len_def ret_def)

interpretation len_field: field_codec "reader_len f" "\<lambda>n. u64_to_le_bytes (of_nat n)" "\<lambda>n. n \<le> usize_max" True for f
  unfolding reader_len_eq
proof
  fix n and pre rest :: bytes and R
  assume "n \<le> usize_max" "length pre + length (u64_to_le_bytes (of_nat n)) + length rest \<le> usize_max"
  then show "bindM (reader_u64 f) (\<lambda>w. ret (unat w)) (reader_at R pre (u64_to_le_bytes (of_nat n) @ rest)) =
      (Inr n, reader_at R (pre @ u64_to_le_bytes (of_nat n)) rest)"
    using u64_field.read_back [of pre "of_nat n" rest f R] by (simp add: bindM_Inr ret_apply)
next
  fix pre rest :: bytes and R n r'
  assume "length pre + length rest \<le> usize_max"
    "bindM (reader_u64 f) (\<lambda>w. ret (unat w)) (reader_at R pre rest) = (Inr n, r')"
  then show "n \<le> usize_max \<and> (\<exists>used rest'. rest = used @ rest' \<and> r' = reader_at R (pre @ used) rest' \<and>
      length used = length (u64_to_le_bytes (of_nat n)) \<and> (True \<longrightarrow> used = u64_to_le_bytes (of_nat n)))"
    using u64_field.read_exact [of pre rest f R] by (fastforce simp: bindM_eq_Inr ret_apply)
next
  fix n and pre :: bytes and m R
  assume "length pre + length (u64_to_le_bytes (of_nat n)) \<le> usize_max"
    "m < length (u64_to_le_bytes (of_nat n))"
  then show "\<exists>needed r'. bindM (reader_u64 f) (\<lambda>w. ret (unat w))
      (reader_at R pre (take m (u64_to_le_bytes (of_nat n)))) =
    (Inl (Truncated R needed (length pre + m)), r')"
    using u64_field.read_cut [of pre "of_nat n" m f R] by (auto simp: bindM_def)
qed

interpretation array_field: field_codec "reader_array n f" "\<lambda>bs. bs" "\<lambda>bs. length bs = n" True for n f
  unfolding reader_array_def by (rule reader_take_codec)

interpretation utf8_field: field_codec "reader_utf8 f n" as_bytes "\<lambda>s. utf8_string s \<and> length s = n" True for f n
proof
  fix s and pre rest :: bytes and R
  assume "utf8_string s \<and> length s = n" "length pre + length (as_bytes s) + length rest \<le> usize_max"
  then show "reader_utf8 f n (reader_at R pre (as_bytes s @ rest)) = (Inr s, reader_at R (pre @ as_bytes s) rest)"
    by (auto simp: reader_utf8_def bindM_def reader_take_at)
next
  fix pre rest :: bytes and R s r'
  assume "length pre + length rest \<le> usize_max" "reader_utf8 f n (reader_at R pre rest) = (Inr s, r')"
  then have "n \<le> length rest" "from_utf8 (take n rest) = Some s"
      "r' = reader_at R (pre @ take n rest) (drop n rest)"
    by (auto simp: reader_utf8_def bindM_eq_Inr reader_take_at split: if_splits)
  then have "utf8_string s" "take n rest = as_bytes s" "r' = reader_at R (pre @ as_bytes s) (drop n rest)"
    by (auto simp: from_utf8_eq_Some)
  moreover from this \<open>n \<le> length rest\<close> have "length s = n"
    by (metis length_as_bytes length_take min.absorb2)
  moreover have "rest = as_bytes s @ drop n rest"
    by (metis append_take_drop_id \<open>take n rest = as_bytes s\<close>)
  ultimately show "(utf8_string s \<and> length s = n) \<and>
      (\<exists>used rest'. rest = used @ rest' \<and> r' = reader_at R (pre @ used) rest' \<and>
        length used = length (as_bytes s) \<and> (True \<longrightarrow> used = as_bytes s))"
    by blast
next
  fix s and pre :: bytes and m R
  assume "utf8_string s \<and> length s = n" "length pre + length (as_bytes s) \<le> usize_max" "m < length (as_bytes s)"
  then show "\<exists>needed r'. reader_utf8 f n (reader_at R pre (take m (as_bytes s))) =
      (Inl (Truncated R needed (length pre + m)), r')"
    by (auto simp: reader_utf8_def bindM_def reader_take_at)
qed

lemma bindM_ret_right: "bindM m ret = m"
  by (auto simp: bindM_def ret_def fun_eq_iff split: prod.splits sum.splits)

text \<open>A length-prefixed string and a length-prefixed byte string.\<close>

definition enc_str :: "string \<Rightarrow> bytes" where
  "enc_str s = u64_to_le_bytes (of_nat (length s)) @ as_bytes s"

definition ok_str :: "string \<Rightarrow> bool" where
  "ok_str s \<longleftrightarrow> utf8_string s \<and> length s \<le> usize_max"

definition enc_blob :: "bytes \<Rightarrow> bytes" where
  "enc_blob bs = u64_to_le_bytes (of_nat (length bs)) @ bs"

interpretation str_field: field_codec "bindM (reader_len lf) (reader_utf8 f)" enc_str ok_str True for lf f
proof -
  have "field_codec (bindM (bindM (reader_len lf) (\<lambda>n. bindM (reader_utf8 f n) (\<lambda>s. ret (n, s))))
      (\<lambda>p. ret (snd p))) enc_str ok_str True"
    by (rule field_codec_map [where g = "\<lambda>s. (length s, s)",
          OF field_codec_bind [OF len_field.field_codec_axioms utf8_field.field_codec_axioms TrueI_pair]])
      (auto simp: enc_str_def ok_str_def)
  moreover have "bindM (bindM (reader_len lf) (\<lambda>n. bindM (reader_utf8 f n) (\<lambda>s. ret (n, s))))
      (\<lambda>p. ret (snd p)) = bindM (reader_len lf) (reader_utf8 f)"
    by (simp add: bindM_laws bindM_ret_right)
  ultimately show "field_codec (bindM (reader_len lf) (reader_utf8 f)) enc_str ok_str True" by simp
qed

interpretation blob_field: field_codec "bindM (reader_len lf) (reader_bytes f)" enc_blob
  "\<lambda>bs. length bs \<le> usize_max" True for lf f
proof -
  have take: "field_codec (reader_bytes f n) (\<lambda>bs. bs) (\<lambda>bs. length bs = n) True" for n
    unfolding reader_bytes_def by (rule reader_take_codec)
  have "field_codec (bindM (bindM (reader_len lf) (\<lambda>n. bindM (reader_bytes f n) (\<lambda>s. ret (n, s))))
      (\<lambda>p. ret (snd p))) enc_blob (\<lambda>bs. length bs \<le> usize_max) True"
    by (rule field_codec_map [where g = "\<lambda>s. (length s, s)",
          OF field_codec_bind [OF len_field.field_codec_axioms take TrueI_pair]])
      (auto simp: enc_blob_def)
  moreover have "bindM (bindM (reader_len lf) (\<lambda>n. bindM (reader_bytes f n) (\<lambda>s. ret (n, s))))
      (\<lambda>p. ret (snd p)) = bindM (reader_len lf) (reader_bytes f)"
    by (simp add: bindM_laws bindM_ret_right)
  ultimately show "field_codec (bindM (reader_len lf) (reader_bytes f)) enc_blob
      (\<lambda>bs. length bs \<le> usize_max) True" by simp
qed

text \<open>Block-id lists.\<close>

definition enc_ids :: "block_id list \<Rightarrow> bytes" where
  "enc_ids ids = put_id_list [] ids"

definition ok_ids :: "block_id list \<Rightarrow> bool" where
  "ok_ids ids \<longleftrightarrow> (\<forall>b \<in> set ids. wf_block_id b \<and> block_id_len b = ids_width ids)"

lemma put_id_list_eq: "put_id_list out ids = out @ enc_ids ids"
  by (simp add: enc_ids_def put_id_list_def put_len_def)

lemma ids_width_cases: "ok_ids ids \<Longrightarrow> ids \<noteq> [] \<Longrightarrow> ids_width ids = 16 \<or> ids_width ids = 32"
  by (cases ids) (auto simp: ok_ids_def ids_width_def wf_block_id_def BLOCKID_SIZE_def MAX_BLOCKID_SIZE_def)

lemma ids_width_le: "ok_ids ids \<Longrightarrow> ids_width ids \<le> 32"
  using ids_width_cases [of ids] by (cases "ids = []") (auto simp: ids_width_def)

lemma length_concat_slices:
  "\<forall>b \<in> set ids. wf_block_id b \<and> block_id_len b = w \<Longrightarrow> length (concat (map as_slice ids)) = length ids * w"
  by (induction ids) (auto simp: length_as_slice)

lemma length_enc_ids: "ok_ids ids \<Longrightarrow> length (enc_ids ids) = id_list_len ids"
  by (simp add: enc_ids_def put_id_list_def put_len_def id_list_len_def length_concat_slices ok_ids_def)

lemma chunks_exact_step:
  "0 < w \<Longrightarrow> w \<le> length bs \<Longrightarrow> chunks_exact w bs = take w bs # chunks_exact w (drop w bs)"
  by (subst chunks_exact.simps) simp

lemma chunks_exact_short: "length bs < w \<Longrightarrow> chunks_exact w bs = []"
  by (subst chunks_exact.simps) simp

lemma chunks_exact_concat:
  "\<forall>b \<in> set ids. wf_block_id b \<and> block_id_len b = w \<Longrightarrow> 0 < w \<Longrightarrow>
    chunks_exact w (concat (map as_slice ids)) = map as_slice ids"
  by (induction ids) (simp_all add: length_as_slice chunks_exact_step chunks_exact_short)

lemma ids_of_chunks_slices: "\<forall>b \<in> set ids. wf_block_id b \<Longrightarrow> ids_of_chunks (map as_slice ids) = Inr ids"
  by (induction ids) (auto simp: block_id_from_as_slice)

lemma ids_of_chunks_exact:
  "ids_of_chunks cs = Inr ids \<Longrightarrow> map as_slice ids = cs \<and> (\<forall>b \<in> set ids. wf_block_id b)"
  by (induction cs arbitrary: ids) (auto simp: bindE_eq_Inr dest: block_id_from_slice_wf)

lemma concat_chunks_exact:
  "0 < w \<Longrightarrow> length bs = n * w \<Longrightarrow>
    concat (chunks_exact w bs) = bs \<and> length (chunks_exact w bs) = n \<and> (\<forall>c \<in> set (chunks_exact w bs). length c = w)"
proof (induction n arbitrary: bs)
  case (Suc n)
  let ?cs = "chunks_exact w (drop w bs)"
  have "chunks_exact w bs = take w bs # ?cs" and "length (take w bs) = w"
    using Suc.prems by (simp_all only: chunks_exact_step mult_Suc le_add1 length_take min_absorb2)
  moreover have "concat ?cs = drop w bs \<and> length ?cs = n \<and> (\<forall>c \<in> set ?cs. length c = w)"
    using Suc.prems by (intro Suc.IH) simp_all
  ultimately show ?case by simp
qed (simp add: chunks_exact_short)

lemma enc_ids_eq:
  "enc_ids ids = [of_nat (ids_width ids)] @ u64_to_le_bytes (of_nat (length ids)) @ concat (map as_slice ids)"
  by (simp add: enc_ids_def put_id_list_def put_len_def)

text \<open>The part of the reader after the width byte and the count, and the two facts that make
  the list reader a dependent sequence of three fields.\<close>

definition reader_ids_body :: "u8 \<Rightarrow> nat \<Rightarrow> block_id list reads" where
  "reader_ids_body width count =
    (if width = 0 \<and> count = 0 then ret []
     else if unat width = BLOCKID_SIZE \<or> unat width = MAX_BLOCKID_SIZE then
       bindM (\<lambda>r. (ok_or (LengthOverflow (rd_record r) ''id_count'') (checked_mul count (unat width)), r)) (\<lambda>total.
       bindM (reader_take ''ids'' total) (\<lambda>raw.
         liftE (ids_of_chunks (chunks_exact (unat width) raw))))
     else raise (InvalidIdWidth width))"

definition ok_ids_body :: "u8 \<Rightarrow> nat \<Rightarrow> block_id list \<Rightarrow> bool" where
  "ok_ids_body width count ids \<longleftrightarrow>
     ok_ids ids \<and> length ids = count \<and> of_nat (ids_width ids) = width"

lemma ok_ids_unat_width: "ok_ids ids \<Longrightarrow> unat (of_nat (ids_width ids) :: u8) = ids_width ids"
  using ids_width_le [of ids] by (simp add: unat_of_nat_eq)

lemma ids_body_back:
  assumes ok: "ok_ids_body width count ids"
    and len: "length pre + length (concat (map as_slice ids)) + length rest \<le> usize_max"
  shows "reader_ids_body width count (reader_at R pre (concat (map as_slice ids) @ rest)) =
      (Inr ids, reader_at R (pre @ concat (map as_slice ids)) rest)"
proof (cases "ids = []")
  case True
  then have "width = 0 \<and> count = 0" using ok by (simp add: ok_ids_body_def ids_width_def)
  then show ?thesis using True by (simp add: reader_ids_body_def ret_apply)
next
  case False
  have w: "unat width = ids_width ids" using ok ok_ids_unat_width by (auto simp: ok_ids_body_def)
  have c: "count = length ids" and oks: "\<forall>b \<in> set ids. wf_block_id b \<and> block_id_len b = ids_width ids"
    using ok by (simp_all add: ok_ids_body_def ok_ids_def)
  have wd: "unat width = 16 \<or> unat width = 32"
    using ids_width_cases [OF _ False] ok w by (simp add: ok_ids_body_def)
  then have nz: "width \<noteq> 0" by auto
  have tot: "length (concat (map as_slice ids)) = count * unat width"
    using length_concat_slices [OF oks] w c by simp
  then have "checked_mul count (unat width) = Some (length (concat (map as_slice ids)))"
    using len by (simp add: checked_mul_def)
  moreover have "ids_of_chunks (chunks_exact (unat width) (concat (map as_slice ids))) = Inr ids"
    using chunks_exact_concat [OF oks] ids_of_chunks_slices oks wd w by auto
  ultimately show ?thesis
    using nz wd len
    by (auto simp: reader_ids_body_def BLOCKID_SIZE_def MAX_BLOCKID_SIZE_def bindM_def reader_take_at liftE_def)
qed

lemma ids_body_cut:
  assumes ok: "ok_ids_body width count ids"
    and len: "length pre + length (concat (map as_slice ids)) \<le> usize_max"
    and n: "n < length (concat (map as_slice ids))"
  shows "reader_ids_body width count (reader_at R pre (take n (concat (map as_slice ids)))) =
    (Inl (Truncated R (length pre + length (concat (map as_slice ids))) (length pre + n)),
     reader_at R pre (take n (concat (map as_slice ids))))"
proof -
  have ne: "ids \<noteq> []" using n by auto
  have w: "unat width = ids_width ids" using ok ok_ids_unat_width by (auto simp: ok_ids_body_def)
  have c: "count = length ids" and oks: "\<forall>b \<in> set ids. wf_block_id b \<and> block_id_len b = ids_width ids"
    using ok by (simp_all add: ok_ids_body_def ok_ids_def)
  have wd: "unat width = 16 \<or> unat width = 32"
    using ids_width_cases [OF _ ne] ok w by (simp add: ok_ids_body_def)
  then have nz: "width \<noteq> 0" by auto
  have tot: "count * unat width = length (concat (map as_slice ids))"
    using length_concat_slices [OF oks] w c by simp
  then have "checked_mul count (unat width) = Some (length (concat (map as_slice ids)))"
    using len by (simp add: checked_mul_def)
  then show ?thesis
    using nz wd len n
    by (auto simp: reader_ids_body_def BLOCKID_SIZE_def MAX_BLOCKID_SIZE_def bindM_def reader_take_at)
qed

text \<open>What the reader accepts: the ids it returns have one width and fill the bytes it consumed.
  (An empty list is also accepted under a non-zero width, which the writer never produces.)\<close>

lemma ids_body_accepts:
  assumes len: "length pre + length rest \<le> usize_max"
    and run: "reader_ids_body width count (reader_at R pre rest) = (Inr ids, r')"
  shows "ok_ids ids \<and> length ids = count \<and> (ids \<noteq> [] \<longrightarrow> of_nat (ids_width ids) = width) \<and>
    (\<exists>rest'. rest = concat (map as_slice ids) @ rest' \<and> r' = reader_at R (pre @ concat (map as_slice ids)) rest')"
proof (cases "width = 0 \<and> count = 0")
  case True
  then show ?thesis using run
    by (auto simp: reader_ids_body_def ret_apply ok_ids_def)
next
  case False
  then have wd: "unat width = 16 \<or> unat width = 32"
    using run by (auto simp: reader_ids_body_def raise_def BLOCKID_SIZE_def MAX_BLOCKID_SIZE_def split: if_splits)
  define total where "total = count * unat width"
  from False wd run have t: "total \<le> length rest"
    and chunks: "ids_of_chunks (chunks_exact (unat width) (take total rest)) = Inr ids"
    and r': "r' = reader_at R (pre @ take total rest) (drop total rest)"
    using len by (auto simp: reader_ids_body_def BLOCKID_SIZE_def MAX_BLOCKID_SIZE_def bindM_eq_Inr
        reader_take_at checked_mul_def liftE_def total_def split: if_splits)
  have lt: "length (take total rest) = count * unat width" using t by (simp add: total_def)
  have sl: "map as_slice ids = chunks_exact (unat width) (take total rest)"
    and wf: "\<forall>b \<in> set ids. wf_block_id b"
    using ids_of_chunks_exact [OF chunks] by simp_all
  have cc: "concat (map as_slice ids) = take total rest" and "length (map as_slice ids) = count"
    and "\<forall>c \<in> set (map as_slice ids). length c = unat width"
    unfolding sl using concat_chunks_exact [OF _ lt] wd by auto
  then have lens: "length ids = count" "\<forall>b \<in> set ids. block_id_len b = unat width"
    using wf length_as_slice by auto
  then have width: "ids_width ids = unat width" if "ids \<noteq> []"
    using that by (cases ids) (auto simp: ids_width_def)
  then have "ok_ids ids" using wf lens by (cases "ids = []") (auto simp: ok_ids_def)
  moreover have "ids \<noteq> [] \<longrightarrow> of_nat (ids_width ids) = width" using width by simp
  moreover have "rest = concat (map as_slice ids) @ drop total rest" by (simp add: cc)
  ultimately show ?thesis using lens(1) r' cc by (intro conjI exI [of _ "drop total rest"]) simp_all
qed

lemma reader_id_list_eq:
  "reader_id_list = bindM (reader_u8 ''id_width'') (\<lambda>w. bindM (reader_len ''id_count'') (reader_ids_body w))"
  unfolding reader_id_list_def reader_ids_body_def [abs_def] ..

text \<open>The width byte and the count, as the fields in front of the ids.\<close>

lemma ids_head_back:
  assumes "length pre + 9 + length rest \<le> usize_max" "count \<le> usize_max"
  shows "reader_id_list (reader_at R pre ([w] @ u64_to_le_bytes (of_nat count) @ rest)) =
    reader_ids_body w count (reader_at R (pre @ [w] @ u64_to_le_bytes (of_nat count)) rest)"
  using assms u8_field.read_back [of pre w "u64_to_le_bytes (of_nat count) @ rest" "''id_width''" R]
    len_field.read_back [of count "pre @ [w]" rest "''id_count''" R]
  by (simp add: reader_id_list_eq bindM_def)

lemma length_ids_le: "ok_ids ids \<Longrightarrow> length (concat (map as_slice ids)) \<le> usize_max \<Longrightarrow> length ids \<le> usize_max"
  using ids_width_cases [of ids] length_concat_slices [of ids "ids_width ids"]
  by (cases "ids = []") (auto simp: ok_ids_def)

interpretation ids_field: field_codec reader_id_list enc_ids ok_ids False
proof
  fix ids and pre rest :: bytes and R
  assume ok: "ok_ids ids" and len: "length pre + length (enc_ids ids) + length rest \<le> usize_max"
  then have "length ids \<le> usize_max" by (intro length_ids_le) (simp_all add: enc_ids_eq)
  with ok len show "reader_id_list (reader_at R pre (enc_ids ids @ rest)) = (Inr ids, reader_at R (pre @ enc_ids ids) rest)"
    using ids_head_back [of pre "concat (map as_slice ids) @ rest" "length ids" R "of_nat (ids_width ids)"]
      ids_body_back [of "of_nat (ids_width ids)" "length ids" ids]
    by (simp add: enc_ids_eq ok_ids_body_def)
next
  fix pre rest :: bytes and R ids r'
  assume len: "length pre + length rest \<le> usize_max"
    and run: "reader_id_list (reader_at R pre rest) = (Inr ids, r')"
  from run obtain w r1 count r2 where 1: "reader_u8 ''id_width'' (reader_at R pre rest) = (Inr w, r1)"
    and 2: "reader_len ''id_count'' r1 = (Inr count, r2)" and 3: "reader_ids_body w count r2 = (Inr ids, r')"
    by (auto simp: reader_id_list_eq bindM_eq_Inr)
  from u8_field.read_exact [OF len 1] obtain rest1 where
    w: "rest = [w] @ rest1" "r1 = reader_at R (pre @ [w]) rest1" by auto
  have "count \<le> usize_max \<and> (\<exists>used rest'. rest1 = used @ rest' \<and> r2 = reader_at R ((pre @ [w]) @ used) rest' \<and>
      length used = length (u64_to_le_bytes (of_nat count)) \<and> (True \<longrightarrow> used = u64_to_le_bytes (of_nat count)))"
    using 2 len w by (intro len_field.read_exact) auto
  then obtain rest2 where c: "rest1 = u64_to_le_bytes (of_nat count) @ rest2"
    "r2 = reader_at R (pre @ [w] @ u64_to_le_bytes (of_nat count)) rest2" by auto
  have "ok_ids ids \<and> length ids = count \<and> (ids \<noteq> [] \<longrightarrow> of_nat (ids_width ids) = w) \<and>
    (\<exists>rest'. rest2 = concat (map as_slice ids) @ rest' \<and>
      r' = reader_at R ((pre @ [w] @ u64_to_le_bytes (of_nat count)) @ concat (map as_slice ids)) rest')"
    using 3 len w c by (intro ids_body_accepts) auto
  then obtain rest' where ids: "ok_ids ids" "length ids = count"
    "rest2 = concat (map as_slice ids) @ rest'"
    "r' = reader_at R ((pre @ [w] @ u64_to_le_bytes (of_nat count)) @ concat (map as_slice ids)) rest'" by auto
  let ?used = "[w] @ u64_to_le_bytes (of_nat count) @ concat (map as_slice ids)"
  have "rest = ?used @ rest'" "r' = reader_at R (pre @ ?used) rest'" "length ?used = length (enc_ids ids)"
    using w c ids by (simp_all add: enc_ids_eq)
  with ids(1) show "ok_ids ids \<and> (\<exists>used rest'. rest = used @ rest' \<and> r' = reader_at R (pre @ used) rest' \<and>
      length used = length (enc_ids ids) \<and> (False \<longrightarrow> used = enc_ids ids))"
    by blast
next
  fix ids and pre :: bytes and n R
  assume ok: "ok_ids ids" and len: "length pre + length (enc_ids ids) \<le> usize_max" and n: "n < length (enc_ids ids)"
  have cnt: "length ids \<le> usize_max" using ok len by (intro length_ids_le) (simp_all add: enc_ids_eq)
  let ?w = "of_nat (ids_width ids) :: u8" and ?c = "u64_to_le_bytes (of_nat (length ids))"
  consider "n = 0" | "0 < n" "n < 9" | "9 \<le> n" by linarith
  then show "\<exists>needed r'. reader_id_list (reader_at R pre (take n (enc_ids ids))) =
      (Inl (Truncated R needed (length pre + n)), r')"
  proof cases
    case 1
    then show ?thesis using len by (simp add: reader_id_list_eq reader_u8_def bindM_def reader_take_at enc_ids_eq)
  next
    case 2
    have "take n (enc_ids ids) = [?w] @ take (n - 1) ?c" using 2 by (cases n) (auto simp: enc_ids_eq)
    moreover obtain needed r' where "reader_len ''id_count'' (reader_at R (pre @ [?w]) (take (n - 1) ?c)) =
        (Inl (Truncated R needed (length (pre @ [?w]) + (n - 1))), r')"
      using len_field.read_cut [of "length ids" "pre @ [?w]" "n - 1" "''id_count''" R, OF cnt] 2 len
      by (fastforce simp: enc_ids_eq)
    moreover have "reader_u8 ''id_width'' (reader_at R pre ([?w] @ take (n - 1) ?c)) =
        (Inr ?w, reader_at R (pre @ [?w]) (take (n - 1) ?c))"
      using u8_field.read_back [of pre ?w "take (n - 1) ?c" "''id_width''" R] 2 len by (simp add: enc_ids_eq)
    ultimately show ?thesis using 2 by (auto simp: reader_id_list_eq bindM_def)
  next
    case 3
    have "take n (enc_ids ids) = [?w] @ ?c @ take (n - 9) (concat (map as_slice ids))"
      using 3 by (auto simp: enc_ids_eq take_Cons')
    moreover have "reader_id_list (reader_at R pre ([?w] @ ?c @ take (n - 9) (concat (map as_slice ids)))) =
        reader_ids_body ?w (length ids) (reader_at R (pre @ [?w] @ ?c) (take (n - 9) (concat (map as_slice ids))))"
      using len n cnt 3 by (intro ids_head_back) (simp_all add: enc_ids_eq)
    moreover have "reader_ids_body ?w (length ids) (reader_at R (pre @ [?w] @ ?c) (take (n - 9) (concat (map as_slice ids)))) =
        (Inl (Truncated R (length (pre @ [?w] @ ?c) + length (concat (map as_slice ids))) (length (pre @ [?w] @ ?c) + (n - 9))),
         reader_at R (pre @ [?w] @ ?c) (take (n - 9) (concat (map as_slice ids))))"
      using ok len n 3 by (intro ids_body_cut) (simp_all add: enc_ids_eq ok_ids_body_def)
    moreover have "length (pre @ [?w] @ ?c) + (n - 9) = length pre + n" using 3 by simp
    ultimately show ?thesis by metis
  qed
qed

subsection \<open>The contract of a record format\<close>

text \<open>A record format reads back what it wrote, accepts only well-formed values, and refuses
  both a record that ends early and one that goes on. Formats without a block-id list are also
  canonical: the bytes they accept are the bytes they write.\<close>

definition decode_record :: "string \<Rightarrow> 'a reads \<Rightarrow> bytes \<Rightarrow> fs_error + 'a" where
  "decode_record R rd bs = fst (bindM rd (\<lambda>x. bindM reader_finish (\<lambda>_. ret x)) (reader_new R bs))"

locale record_codec =
  fixes R :: string
    and enc :: "'a \<Rightarrow> bytes"
    and dec :: "bytes \<Rightarrow> fs_error + 'a"
    and ok :: "'a \<Rightarrow> bool"
    and ex :: bool
  assumes dec_enc: "ok x \<Longrightarrow> length (enc x) \<le> usize_max \<Longrightarrow> dec (enc x) = Inr x"
    and dec_exact: "length bs \<le> usize_max \<Longrightarrow> dec bs = Inr x \<Longrightarrow>
      ok x \<and> length bs = length (enc x) \<and> (ex \<longrightarrow> bs = enc x)"
    and dec_cut: "ok x \<Longrightarrow> length (enc x) \<le> usize_max \<Longrightarrow> n < length (enc x) \<Longrightarrow>
      \<exists>needed. dec (take n (enc x)) = Inl (Truncated R needed n)"
    and dec_extra: "ok x \<Longrightarrow> length (enc x @ t) \<le> usize_max \<Longrightarrow> t \<noteq> [] \<Longrightarrow>
      dec (enc x @ t) = Inl (TrailingBytes R (length t))"
begin

lemma enc_inject:
  assumes "ok x" "ok y" "length (enc x) \<le> usize_max" "enc x = enc y"
  shows "x = y"
proof -
  have x: "dec (enc x) = Inr x" by (rule dec_enc [OF assms(1,3)])
  have y: "dec (enc y) = Inr y" by (rule dec_enc [OF assms(2) assms(3) [unfolded assms(4)]])
  from x [unfolded assms(4) y] show ?thesis by (rule sum.inject(2) [THEN iffD1, THEN sym])
qed

lemma ok_dec: "length bs \<le> usize_max \<Longrightarrow> dec bs = Inr x \<Longrightarrow> ok x"
  by (rule dec_exact [THEN conjunct1])

lemma dec_reenc:
  assumes "length bs \<le> usize_max" "dec bs = Inr x"
  shows "dec (enc x) = Inr x"
proof -
  from dec_exact [OF assms] have "ok x" "length (enc x) = length bs" by simp_all
  with assms(1) show ?thesis by (intro dec_enc) simp_all
qed

end

lemma decode_record_Inr:
  assumes "decode_record R rd bs = Inr x"
  obtains r' r'' where "rd (reader_at R [] bs) = (Inr x, r')" "reader_finish r' = (Inr (), r'')"
proof -
  from assms obtain s where "bindM rd (\<lambda>x. bindM reader_finish (\<lambda>_. ret x)) (reader_at R [] bs) = (Inr x, s)"
    unfolding decode_record_def reader_new_at by (metis prod.collapse)
  then show thesis using that by (auto simp: bindM_eq_Inr ret_apply)
qed

lemma record_codecI:
  assumes fc: "field_codec rd enc ok ex" and dec: "\<And>bs. dec bs = decode_record R rd bs"
  shows "record_codec R enc dec ok ex"
proof
  fix x assume "ok x" "length (enc x) \<le> usize_max"
  then show "dec (enc x) = Inr x"
    using field_codec.read_back [OF fc, of x "[]" "[]" R]
    by (simp add: dec decode_record_def reader_new_at bindM_def ret_apply)
next
  fix bs x
  assume len: "length bs \<le> usize_max" and "dec bs = Inr x"
  from this(2) obtain r' r'' where run: "rd (reader_at R [] bs) = (Inr x, r')" and fin: "reader_finish r' = (Inr (), r'')"
    unfolding dec by (rule decode_record_Inr)
  from len have "length ([] :: bytes) + length bs \<le> usize_max" by simp
  from field_codec.read_exact [OF fc this run] fin
  show "ok x \<and> length bs = length (enc x) \<and> (ex \<longrightarrow> bs = enc x)"
    by (auto split: if_splits)
next
  fix x n assume "ok x" "length (enc x) \<le> usize_max" "n < length (enc x)"
  then show "\<exists>needed. dec (take n (enc x)) = Inl (Truncated R needed n)"
    using field_codec.read_cut [OF fc, of x "[]" n R]
    by (auto simp: dec decode_record_def reader_new_at bindM_def)
next
  fix x and t :: bytes assume "ok x" "length (enc x @ t) \<le> usize_max" "t \<noteq> []"
  then show "dec (enc x @ t) = Inl (TrailingBytes R (length t))"
    using field_codec.read_back [OF fc, of x "[]" t R]
    by (simp add: dec decode_record_def reader_new_at bindM_def)
qed

end
