(* ===== verification/Records.thy ===== *)
theory Records
  imports Codec
begin

section \<open>The on-disk records\<close>

text \<open>
  The five records of the store and the two composite tree keys: \<open>Block\<close> (\<open>metastore/block.rs\<close>),
  \<open>Object\<close> (\<open>metastore/object.rs\<close>), \<open>BucketMeta\<close> (\<open>metastore/bucket_meta.rs\<close>), \<open>UploadRecord\<close>
  (\<open>metastore/upload_record.rs\<close>), \<open>MultiPart\<close>, \<open>part_key\<close> and \<open>part_prefix\<close> (\<open>cas/multipart.rs\<close>) and
  \<open>upload_key\<close> (\<open>cas/uploads.rs\<close>). Each record has its serializer, its parser written
  field by field as in the code, and its instance of the \<open>record_codec\<close> contract.

  The current time is an argument (\<open>chrono\<close> is not part of the repository), and so is the hex
  printer of the \<open>faster_hex\<close> package; what is used of the latter is \<open>hex_ok\<close>.
\<close>

unbundle bit_operations_syntax

subsection \<open>Block records\<close>

record block =
  blk_size :: usize
  blk_depth :: u8
  blk_rc :: usize
  blk_flags :: u8

definition FLAG_DEGRADED :: u8 where
  "FLAG_DEGRADED = 1"

definition block_to_vec :: "block \<Rightarrow> bytes" where
  "block_to_vec b = put_len (put_len [] (unat (blk_size b)) @ [blk_depth b]) (unat (blk_rc b)) @ [blk_flags b]"

definition block_try_from :: "bytes \<Rightarrow> fs_error + block" where
  "block_try_from value = fst (
    bindM (reader_len ''size'') (\<lambda>size.
    bindM (reader_u8 ''depth'') (\<lambda>depth.
    bindM (reader_len ''rc'') (\<lambda>rc.
    bindM (reader_u8 ''flags'') (\<lambda>flags.
    bindM reader_finish (\<lambda>_.
      ret \<lparr>blk_size = of_nat size, blk_depth = depth, blk_rc = of_nat rc, blk_flags = flags\<rparr>)))))
    (reader_new ''Block'' value))"

definition block_new :: "usize \<Rightarrow> u8 \<Rightarrow> block" where
  "block_new sz depth = \<lparr>blk_size = sz, blk_depth = depth, blk_rc = 1, blk_flags = 0\<rparr>"

definition block_from_parts :: "usize \<Rightarrow> u8 \<Rightarrow> usize \<Rightarrow> u8 \<Rightarrow> block" where
  "block_from_parts sz depth rc flags =
    \<lparr>blk_size = sz, blk_depth = depth, blk_rc = rc, blk_flags = flags\<rparr>"

definition is_degraded :: "block \<Rightarrow> bool" where
  "is_degraded b \<longleftrightarrow> blk_flags b AND FLAG_DEGRADED \<noteq> 0"

definition set_degraded :: "bool \<Rightarrow> block \<Rightarrow> block" where
  "set_degraded degraded b =
    (if degraded then b\<lparr>blk_flags := blk_flags b OR FLAG_DEGRADED\<rparr>
     else b\<lparr>blk_flags := blk_flags b AND NOT FLAG_DEGRADED\<rparr>)"

definition increment_refcount :: "block \<Rightarrow> block" where
  "increment_refcount b = b\<lparr>blk_rc := blk_rc b + 1\<rparr>"

definition decrement_refcount :: "block \<Rightarrow> block" where
  "decrement_refcount b = b\<lparr>blk_rc := blk_rc b - 1\<rparr>"

subsection \<open>Paths of block files\<close>

type_synonym path = "string list"

definition block_disk_path :: "(bytes \<Rightarrow> string) \<Rightarrow> block_id \<Rightarrow> u8 \<Rightarrow> path \<Rightarrow> path" where
  "block_disk_path hex_string i depth root =
    (let d = max 1 (min (unat depth) (block_id_len i)) in
     root @ map (\<lambda>byte. hex_string [byte]) (take d (as_slice i)) @ [hex_string (as_slice i)])"

definition block_path :: "(bytes \<Rightarrow> string) \<Rightarrow> block \<Rightarrow> block_id \<Rightarrow> path \<Rightarrow> path" where
  "block_path hex_string b i root = block_disk_path hex_string i (blk_depth b) root"

definition hex_ok :: "(bytes \<Rightarrow> string) \<Rightarrow> bool" where
  "hex_ok h \<longleftrightarrow> inj h \<and> (\<forall>bs. length (h bs) = 2 * length bs) \<and> (\<forall>bs. CHR ''-'' \<notin> set (h bs))"

subsection \<open>Object records\<close>

definition CONTENT_HASH_SIZE :: nat where
  "CONTENT_HASH_SIZE = 16"

datatype object_data =
    Inline bytes
  | SinglePart "block_id list"
  | MultiPart "block_id list" usize

datatype object_type = ObjSingle | ObjMultipart | ObjInline

record object =
  obj_type :: object_type
  obj_size :: u64
  obj_ctime :: i64
  obj_hash :: bytes
  obj_data :: object_data

primrec object_type_as_u8 :: "object_type \<Rightarrow> u8" where
  "object_type_as_u8 ObjSingle = 0"
| "object_type_as_u8 ObjMultipart = 1"
| "object_type_as_u8 ObjInline = 2"

primrec type_of_data :: "object_data \<Rightarrow> object_type" where
  "type_of_data (Inline d) = ObjInline"
| "type_of_data (SinglePart bs) = ObjSingle"
| "type_of_data (MultiPart bs n) = ObjMultipart"

definition object_new :: "i64 \<Rightarrow> u64 \<Rightarrow> bytes \<Rightarrow> object_data \<Rightarrow> object" where
  "object_new now sz hash data =
    \<lparr>obj_type = type_of_data data, obj_size = sz, obj_ctime = now, obj_hash = hash, obj_data = data\<rparr>"

definition OBJECT_HEADER_SIZE :: nat where
  "OBJECT_HEADER_SIZE = 1 + 8 + 8 + CONTENT_HASH_SIZE"

definition minimum_inline_metadata_size :: nat where
  "minimum_inline_metadata_size = OBJECT_HEADER_SIZE + 8"

definition minimum_raw_object_size :: nat where
  "minimum_raw_object_size = OBJECT_HEADER_SIZE + 8"

primrec data_blocks :: "object_data \<Rightarrow> block_id list" where
  "data_blocks (Inline d) = []"
| "data_blocks (SinglePart bs) = bs"
| "data_blocks (MultiPart bs n) = bs"

definition object_blocks :: "object \<Rightarrow> block_id list" where
  "object_blocks ob = data_blocks (obj_data ob)"

definition has_block :: "object \<Rightarrow> block_id \<Rightarrow> bool" where
  "has_block ob b = (case obj_data ob of
     SinglePart bs \<Rightarrow> b \<in> set bs | MultiPart bs _ \<Rightarrow> b \<in> set bs | Inline _ \<Rightarrow> False)"

definition object_num_bytes :: "object \<Rightarrow> nat" where
  "object_num_bytes ob = OBJECT_HEADER_SIZE +
    (case obj_data ob of
       SinglePart bs \<Rightarrow> id_list_len bs
     | MultiPart bs _ \<Rightarrow> 8 + id_list_len bs
     | Inline d \<Rightarrow> 8 + length d)"

definition is_inlined :: "object \<Rightarrow> bool" where
  "is_inlined ob = (case obj_data ob of Inline _ \<Rightarrow> True | _ \<Rightarrow> False)"

definition inlined :: "object \<Rightarrow> bytes option" where
  "inlined ob = (case obj_data ob of Inline d \<Rightarrow> Some d | _ \<Rightarrow> None)"

definition object_to_vec :: "object \<Rightarrow> bytes" where
  "object_to_vec ob =
    (let raw = [object_type_as_u8 (obj_type ob)] @ u64_to_le_bytes (obj_size ob) @
       u64_to_le_bytes (obj_ctime ob) @ obj_hash ob in
     case obj_data ob of
       SinglePart bs \<Rightarrow> put_id_list raw bs
     | MultiPart bs parts \<Rightarrow> put_id_list (put_len raw (unat parts)) bs
     | Inline d \<Rightarrow> put_len raw (length d) @ d)"

definition reader_object_type :: "object_type reads" where
  "reader_object_type = bindM (reader_u8 ''object_type'') (\<lambda>t.
     if t = 0 then ret ObjSingle
     else if t = 1 then ret ObjMultipart
     else if t = 2 then ret ObjInline
     else raise (UnknownObjectType t))"

primrec reader_object_data :: "object_type \<Rightarrow> object_data reads" where
  "reader_object_data ObjSingle = bindM reader_id_list (\<lambda>bs. ret (SinglePart bs))"
| "reader_object_data ObjMultipart =
    bindM (reader_len ''parts'') (\<lambda>parts.
    bindM reader_id_list (\<lambda>bs. ret (MultiPart bs (of_nat parts))))"
| "reader_object_data ObjInline =
    bindM (reader_len ''data_len'') (\<lambda>n. bindM (reader_bytes ''data'' n) (\<lambda>d. ret (Inline d)))"

definition object_try_from :: "bytes \<Rightarrow> fs_error + object" where
  "object_try_from value =
    (if length value < minimum_raw_object_size
     then Inl (Truncated ''Object'' minimum_raw_object_size (length value))
     else fst (
       bindM reader_object_type (\<lambda>ty.
       bindM (reader_u64 ''size'') (\<lambda>size.
       bindM (reader_i64 ''ctime'') (\<lambda>ctime.
       bindM (reader_array CONTENT_HASH_SIZE ''hash'') (\<lambda>hash.
       bindM (reader_object_data ty) (\<lambda>data.
       bindM reader_finish (\<lambda>_.
         ret \<lparr>obj_type = ty, obj_size = size, obj_ctime = ctime, obj_hash = hash, obj_data = data\<rparr>))))))
       (reader_new ''Object'' value)))"

subsection \<open>Bucket records\<close>

record bucket_meta =
  bm_ctime :: i64
  bm_name :: string

definition bucket_meta_new :: "i64 \<Rightarrow> string \<Rightarrow> bucket_meta" where
  "bucket_meta_new now name = \<lparr>bm_ctime = now, bm_name = name\<rparr>"

definition bucket_meta_to_vec :: "bucket_meta \<Rightarrow> bytes" where
  "bucket_meta_to_vec b =
    put_len (u64_to_le_bytes (bm_ctime b)) (length (bm_name b)) @ as_bytes (bm_name b)"

definition bucket_meta_try_from :: "bytes \<Rightarrow> fs_error + bucket_meta" where
  "bucket_meta_try_from value = fst (
    bindM (reader_i64 ''ctime'') (\<lambda>ctime.
    bindM (reader_len ''name_len'') (\<lambda>name_len.
    bindM (reader_utf8 ''name'' name_len) (\<lambda>name.
    bindM reader_finish (\<lambda>_. ret \<lparr>bm_ctime = ctime, bm_name = name\<rparr>))))
    (reader_new ''BucketMeta'' value))"

subsection \<open>Upload records\<close>

record upload_record =
  up_created_at :: i64
  up_bucket :: string
  up_key :: string
  up_upload_id :: string

definition upload_record_with_created_at :: "i64 \<Rightarrow> string \<Rightarrow> string \<Rightarrow> string \<Rightarrow> upload_record" where
  "upload_record_with_created_at created_at bucket key upload_id =
    \<lparr>up_created_at = created_at, up_bucket = bucket, up_key = key, up_upload_id = upload_id\<rparr>"

definition upload_record_new :: "i64 \<Rightarrow> string \<Rightarrow> string \<Rightarrow> string \<Rightarrow> upload_record" where
  "upload_record_new now bucket key upload_id = upload_record_with_created_at now bucket key upload_id"

definition upload_record_to_vec :: "upload_record \<Rightarrow> bytes" where
  "upload_record_to_vec u =
    (let out = put_len (u64_to_le_bytes (up_created_at u)) (length (up_bucket u)) @ as_bytes (up_bucket u);
         out = put_len out (length (up_key u)) @ as_bytes (up_key u) in
     put_len out (length (up_upload_id u)) @ as_bytes (up_upload_id u))"

definition upload_record_try_from :: "bytes \<Rightarrow> fs_error + upload_record" where
  "upload_record_try_from value = fst (
    bindM (reader_i64 ''created_at'') (\<lambda>created_at.
    bindM (reader_len ''bucket_len'') (\<lambda>bucket_len.
    bindM (reader_utf8 ''bucket'' bucket_len) (\<lambda>bucket.
    bindM (reader_len ''key_len'') (\<lambda>key_len.
    bindM (reader_utf8 ''key'' key_len) (\<lambda>key.
    bindM (reader_len ''upload_id_len'') (\<lambda>upload_id_len.
    bindM (reader_utf8 ''upload_id'' upload_id_len) (\<lambda>upload_id.
    bindM reader_finish (\<lambda>_.
      ret \<lparr>up_created_at = created_at, up_bucket = bucket, up_key = key, up_upload_id = upload_id\<rparr>))))))))
    (reader_new ''UploadRecord'' value))"

subsection \<open>Part records\<close>

record multipart =
  mp_size :: usize
  mp_part_number :: i64
  mp_bucket :: string
  mp_key :: string
  mp_upload_id :: string
  mp_hash :: bytes
  mp_blocks :: "block_id list"

definition multipart_new ::
  "usize \<Rightarrow> i64 \<Rightarrow> string \<Rightarrow> string \<Rightarrow> string \<Rightarrow> bytes \<Rightarrow> block_id list \<Rightarrow> multipart" where
  "multipart_new sz part_number bucket key upload_id hash blocks =
    \<lparr>mp_size = sz, mp_part_number = part_number, mp_bucket = bucket, mp_key = key,
     mp_upload_id = upload_id, mp_hash = hash, mp_blocks = blocks\<rparr>"

definition multipart_to_vec :: "multipart \<Rightarrow> bytes" where
  "multipart_to_vec mp =
    (let out = put_len [] (unat (mp_size mp)) @ u64_to_le_bytes (mp_part_number mp);
         out = put_len out (length (mp_bucket mp)) @ as_bytes (mp_bucket mp);
         out = put_len out (length (mp_key mp)) @ as_bytes (mp_key mp);
         out = put_len out (length (mp_upload_id mp)) @ as_bytes (mp_upload_id mp);
         out = out @ mp_hash mp in
     put_id_list out (mp_blocks mp))"

definition multipart_try_from :: "bytes \<Rightarrow> fs_error + multipart" where
  "multipart_try_from value = fst (
    bindM (reader_len ''size'') (\<lambda>size.
    bindM (reader_i64 ''part_number'') (\<lambda>part_number.
    bindM (reader_len ''bucket_len'') (\<lambda>bucket_len.
    bindM (reader_utf8 ''bucket'' bucket_len) (\<lambda>bucket.
    bindM (reader_len ''key_len'') (\<lambda>key_len.
    bindM (reader_utf8 ''key'' key_len) (\<lambda>key.
    bindM (reader_len ''upload_len'') (\<lambda>upload_len.
    bindM (reader_utf8 ''upload_id'' upload_len) (\<lambda>upload_id.
    bindM (reader_array CONTENT_HASH_SIZE ''hash'') (\<lambda>hash.
    bindM reader_id_list (\<lambda>blocks.
    bindM reader_finish (\<lambda>_.
      ret \<lparr>mp_size = of_nat size, mp_part_number = part_number, mp_bucket = bucket, mp_key = key,
           mp_upload_id = upload_id, mp_hash = hash, mp_blocks = blocks\<rparr>)))))))))))
    (reader_new ''MultiPart'' value))"

subsection \<open>Tree keys\<close>

definition part_prefix :: "string \<Rightarrow> string \<Rightarrow> string \<Rightarrow> bytes" where
  "part_prefix bucket key upload_id =
    (let out = put_len [] (length bucket) @ as_bytes bucket;
         out = put_len out (length key) @ as_bytes key in
     put_len out (length upload_id) @ as_bytes upload_id)"

definition part_key :: "string \<Rightarrow> string \<Rightarrow> string \<Rightarrow> i64 \<Rightarrow> bytes" where
  "part_key bucket key upload_id part_number =
    part_prefix bucket key upload_id @ u64_to_be_bytes part_number"

definition upload_key :: "string \<Rightarrow> string \<Rightarrow> string \<Rightarrow> bytes" where
  "upload_key bucket key upload_id =
    (let out = put_len [] (length bucket) @ as_bytes bucket;
         out = put_len out (length key) @ as_bytes key in
     out @ as_bytes upload_id)"

subsection \<open>The formats meet the record contract\<close>

lemma bindM_len_utf8:
  "bindM (reader_len lf) (\<lambda>n. bindM (reader_utf8 f n) k) = bindM (bindM (reader_len lf) (reader_utf8 f)) k"
  by (simp add: bindM_assoc)

lemmas field_seq = field_codec_bind [OF _ _ TrueI_pair]

interpretation block_codec: record_codec "''Block''" block_to_vec block_try_from "\<lambda>_. True" True
proof (rule record_codecI)
  let ?rd = "bindM (bindM (reader_len ''size'') (\<lambda>a. bindM (bindM (reader_u8 ''depth'') (\<lambda>b.
      bindM (bindM (reader_len ''rc'') (\<lambda>c. bindM (reader_u8 ''flags'') (\<lambda>d. ret (c, d))))
        (\<lambda>y. ret (b, y)))) (\<lambda>z. ret (a, z))))
      (\<lambda>(a, b, c, d). ret \<lparr>blk_size = of_nat a, blk_depth = b, blk_rc = of_nat c, blk_flags = d\<rparr>)"
  have "field_codec ?rd block_to_vec (\<lambda>_. True) True"
    unfolding split_def
    by (rule field_codec_map [where g = "\<lambda>b. (unat (blk_size b), blk_depth b, unat (blk_rc b), blk_flags b)",
        OF field_seq [OF len_field.field_codec_axioms field_seq [OF u8_field.field_codec_axioms
          field_seq [OF len_field.field_codec_axioms u8_field.field_codec_axioms]]]])
      (auto simp: block_to_vec_def put_len_def)
  then show "field_codec (bindM (reader_len ''size'') (\<lambda>size.
    bindM (reader_u8 ''depth'') (\<lambda>depth.
    bindM (reader_len ''rc'') (\<lambda>rc.
    bindM (reader_u8 ''flags'') (\<lambda>flags.
      ret \<lparr>blk_size = of_nat size, blk_depth = depth, blk_rc = of_nat rc, blk_flags = flags\<rparr>))))) block_to_vec (\<lambda>_. True) True"
    by (simp add: bindM_laws)
qed (simp add: block_try_from_def decode_record_def bindM_laws)

definition wf_bucket_meta :: "bucket_meta \<Rightarrow> bool" where
  "wf_bucket_meta b \<longleftrightarrow> ok_str (bm_name b)"

interpretation bucket_meta_codec:
  record_codec "''BucketMeta''" bucket_meta_to_vec bucket_meta_try_from wf_bucket_meta True
proof (rule record_codecI)
  have "field_codec (bindM (bindM (reader_i64 ''ctime'') (\<lambda>a.
      bindM (bindM (reader_len ''name_len'') (reader_utf8 ''name'')) (\<lambda>b. ret (a, b))))
      (\<lambda>p. ret \<lparr>bm_ctime = fst p, bm_name = snd p\<rparr>)) bucket_meta_to_vec wf_bucket_meta True"
    by (rule field_codec_map [where g = "\<lambda>b. (bm_ctime b, bm_name b)",
        OF field_seq [OF i64_field.field_codec_axioms str_field.field_codec_axioms]])
      (auto simp: bucket_meta_to_vec_def put_len_def enc_str_def wf_bucket_meta_def)
  then show "field_codec (bindM (reader_i64 ''ctime'') (\<lambda>ctime.
    bindM (reader_len ''name_len'') (\<lambda>name_len.
    bindM (reader_utf8 ''name'' name_len) (\<lambda>name. ret \<lparr>bm_ctime = ctime, bm_name = name\<rparr>))))
    bucket_meta_to_vec wf_bucket_meta True"
    by (simp add: bindM_laws)
qed (simp add: bucket_meta_try_from_def decode_record_def bindM_laws)

definition wf_upload_record :: "upload_record \<Rightarrow> bool" where
  "wf_upload_record u \<longleftrightarrow> ok_str (up_bucket u) \<and> ok_str (up_key u) \<and> ok_str (up_upload_id u)"

interpretation upload_record_codec:
  record_codec "''UploadRecord''" upload_record_to_vec upload_record_try_from wf_upload_record True
proof (rule record_codecI)
  have "field_codec (bindM (bindM (reader_i64 ''created_at'') (\<lambda>a.
      bindM (bindM (bindM (reader_len ''bucket_len'') (reader_utf8 ''bucket'')) (\<lambda>b.
        bindM (bindM (bindM (reader_len ''key_len'') (reader_utf8 ''key'')) (\<lambda>c.
          bindM (bindM (reader_len ''upload_id_len'') (reader_utf8 ''upload_id'')) (\<lambda>d. ret (c, d))))
        (\<lambda>y. ret (b, y)))) (\<lambda>z. ret (a, z))))
      (\<lambda>p. ret \<lparr>up_created_at = fst p, up_bucket = fst (snd p), up_key = fst (snd (snd p)),
        up_upload_id = snd (snd (snd p))\<rparr>)) upload_record_to_vec wf_upload_record True"
    by (rule field_codec_map [where g = "\<lambda>u. (up_created_at u, up_bucket u, up_key u, up_upload_id u)",
        OF field_seq [OF i64_field.field_codec_axioms field_seq [OF str_field.field_codec_axioms
          field_seq [OF str_field.field_codec_axioms str_field.field_codec_axioms]]]])
      (auto simp: upload_record_to_vec_def put_len_def enc_str_def wf_upload_record_def Let_def)
  then show "field_codec (bindM (reader_i64 ''created_at'') (\<lambda>created_at.
    bindM (reader_len ''bucket_len'') (\<lambda>bucket_len.
    bindM (reader_utf8 ''bucket'' bucket_len) (\<lambda>bucket.
    bindM (reader_len ''key_len'') (\<lambda>key_len.
    bindM (reader_utf8 ''key'' key_len) (\<lambda>key.
    bindM (reader_len ''upload_id_len'') (\<lambda>upload_id_len.
    bindM (reader_utf8 ''upload_id'' upload_id_len) (\<lambda>upload_id.
      ret \<lparr>up_created_at = created_at, up_bucket = bucket, up_key = key, up_upload_id = upload_id\<rparr>))))))))
    upload_record_to_vec wf_upload_record True"
    by (simp add: bindM_laws)
qed (simp add: upload_record_try_from_def decode_record_def bindM_laws)

definition wf_multipart :: "multipart \<Rightarrow> bool" where
  "wf_multipart mp \<longleftrightarrow> ok_str (mp_bucket mp) \<and> ok_str (mp_key mp) \<and> ok_str (mp_upload_id mp) \<and>
     length (mp_hash mp) = CONTENT_HASH_SIZE \<and> ok_ids (mp_blocks mp)"

lemma field_codec_weaken: "field_codec rd enc ok ex \<Longrightarrow> field_codec rd enc ok False"
  unfolding field_codec_def by blast

lemmas field_seq_lax = field_codec_bind [where ex = False, simplified]

interpretation multipart_codec:
  record_codec "''MultiPart''" multipart_to_vec multipart_try_from wf_multipart False
proof (rule record_codecI)
  have "field_codec (bindM (bindM (reader_len ''size'') (\<lambda>a.
      bindM (bindM (reader_i64 ''part_number'') (\<lambda>b.
      bindM (bindM (bindM (reader_len ''bucket_len'') (reader_utf8 ''bucket'')) (\<lambda>c.
      bindM (bindM (bindM (reader_len ''key_len'') (reader_utf8 ''key'')) (\<lambda>d.
      bindM (bindM (bindM (reader_len ''upload_len'') (reader_utf8 ''upload_id'')) (\<lambda>e.
      bindM (bindM (reader_array CONTENT_HASH_SIZE ''hash'') (\<lambda>h.
        bindM reader_id_list (\<lambda>i. ret (h, i)))) (\<lambda>y. ret (e, y)))) (\<lambda>y. ret (d, y))))
        (\<lambda>y. ret (c, y)))) (\<lambda>y. ret (b, y)))) (\<lambda>y. ret (a, y))))
      (\<lambda>p. ret \<lparr>mp_size = of_nat (fst p), mp_part_number = fst (snd p), mp_bucket = fst (snd (snd p)),
        mp_key = fst (snd (snd (snd p))), mp_upload_id = fst (snd (snd (snd (snd p)))),
        mp_hash = fst (snd (snd (snd (snd (snd p))))), mp_blocks = snd (snd (snd (snd (snd (snd p)))))\<rparr>))
      multipart_to_vec wf_multipart False"
    by (rule field_codec_map [where g = "\<lambda>m. (unat (mp_size m), mp_part_number m, mp_bucket m, mp_key m,
          mp_upload_id m, mp_hash m, mp_blocks m)",
        OF field_seq_lax [OF len_field.field_codec_axioms field_seq_lax [OF i64_field.field_codec_axioms
          field_seq_lax [OF str_field.field_codec_axioms field_seq_lax [OF str_field.field_codec_axioms
          field_seq_lax [OF str_field.field_codec_axioms field_seq_lax [OF array_field.field_codec_axioms
            ids_field.field_codec_axioms]]]]]]])
      (auto simp: multipart_to_vec_def put_len_def put_id_list_eq enc_str_def wf_multipart_def Let_def)
  then show "field_codec (bindM (reader_len ''size'') (\<lambda>size.
    bindM (reader_i64 ''part_number'') (\<lambda>part_number.
    bindM (reader_len ''bucket_len'') (\<lambda>bucket_len.
    bindM (reader_utf8 ''bucket'' bucket_len) (\<lambda>bucket.
    bindM (reader_len ''key_len'') (\<lambda>key_len.
    bindM (reader_utf8 ''key'' key_len) (\<lambda>key.
    bindM (reader_len ''upload_len'') (\<lambda>upload_len.
    bindM (reader_utf8 ''upload_id'' upload_len) (\<lambda>upload_id.
    bindM (reader_array CONTENT_HASH_SIZE ''hash'') (\<lambda>hash.
    bindM reader_id_list (\<lambda>blocks.
      ret \<lparr>mp_size = of_nat size, mp_part_number = part_number, mp_bucket = bucket, mp_key = key,
           mp_upload_id = upload_id, mp_hash = hash, mp_blocks = blocks\<rparr>)))))))))))
    multipart_to_vec wf_multipart False"
    by (simp add: bindM_laws)
qed (simp add: multipart_try_from_def decode_record_def bindM_laws)

text \<open>The payload of an object record is read in the light of its type byte.\<close>

primrec enc_data :: "object_data \<Rightarrow> bytes" where
  "enc_data (Inline d) = enc_blob d"
| "enc_data (SinglePart bs) = enc_ids bs"
| "enc_data (MultiPart bs parts) = u64_to_le_bytes parts @ enc_ids bs"

primrec wf_data :: "object_data \<Rightarrow> bool" where
  "wf_data (Inline d) \<longleftrightarrow> length d \<le> usize_max"
| "wf_data (SinglePart bs) \<longleftrightarrow> ok_ids bs"
| "wf_data (MultiPart bs parts) \<longleftrightarrow> ok_ids bs"

definition wf_object :: "object \<Rightarrow> bool" where
  "wf_object ob \<longleftrightarrow> obj_type ob = type_of_data (obj_data ob) \<and>
     length (obj_hash ob) = CONTENT_HASH_SIZE \<and> wf_data (obj_data ob)"

lemma type_of_data_cases:
  "type_of_data d = ObjInline \<longleftrightarrow> (\<exists>bs. d = Inline bs)"
  "type_of_data d = ObjSingle \<longleftrightarrow> (\<exists>ids. d = SinglePart ids)"
  "type_of_data d = ObjMultipart \<longleftrightarrow> (\<exists>ids n. d = MultiPart ids n)"
  by (cases d; simp)+

lemma object_data_codec:
  "field_codec (reader_object_data ty) enc_data (\<lambda>d. type_of_data d = ty \<and> wf_data d) False"
proof (cases ty)
  case ObjSingle
  have "field_codec (bindM reader_id_list (\<lambda>x. ret (SinglePart x))) enc_data
      (\<lambda>d. type_of_data d = ObjSingle \<and> wf_data d) False"
    by (rule field_codec_map [where g = data_blocks, OF ids_field.field_codec_axioms])
      (auto simp: type_of_data_cases)
  then show ?thesis using ObjSingle by simp
next
  case ObjMultipart
  have "field_codec (bindM (bindM (reader_len ''parts'') (\<lambda>a. bindM reader_id_list (\<lambda>b. ret (a, b))))
      (\<lambda>p. ret (MultiPart (snd p) (of_nat (fst p))))) enc_data
      (\<lambda>d. type_of_data d = ObjMultipart \<and> wf_data d) False"
    by (rule field_codec_map [where g = "\<lambda>d. (case d of MultiPart bs n \<Rightarrow> unat n | _ \<Rightarrow> 0, data_blocks d)",
        OF field_seq_lax [OF len_field.field_codec_axioms ids_field.field_codec_axioms]])
      (auto simp: type_of_data_cases)
  then show ?thesis using ObjMultipart by (simp add: bindM_laws)
next
  case ObjInline
  have "field_codec (bindM (bindM (reader_len ''data_len'') (reader_bytes ''data'')) (\<lambda>x. ret (Inline x))) enc_data
      (\<lambda>d. type_of_data d = ObjInline \<and> wf_data d) False"
    by (rule field_codec_map [where g = "\<lambda>d. (case d of Inline bs \<Rightarrow> bs | _ \<Rightarrow> [])",
        OF field_codec_weaken [OF blob_field.field_codec_axioms]])
      (auto simp: type_of_data_cases)
  then show ?thesis using ObjInline by (simp add: bindM_laws)
qed

lemma object_type_codec:
  "field_codec reader_object_type (\<lambda>t. [object_type_as_u8 t]) (\<lambda>_. True) True"
proof
  fix t and pre rest :: bytes and R
  assume "length pre + length [object_type_as_u8 t] + length rest \<le> usize_max"
  then show "reader_object_type (reader_at R pre ([object_type_as_u8 t] @ rest)) =
      (Inr t, reader_at R (pre @ [object_type_as_u8 t]) rest)"
    using u8_field.read_back [of pre "object_type_as_u8 t" rest "''object_type''" R]
    by (cases t) (auto simp: reader_object_type_def bindM_def ret_apply)
next
  fix pre rest :: bytes and R t r'
  assume len: "length pre + length rest \<le> usize_max"
    and "reader_object_type (reader_at R pre rest) = (Inr t, r')"
  then obtain b where b: "reader_u8 ''object_type'' (reader_at R pre rest) = (Inr b, r')"
    and t: "b = object_type_as_u8 t"
    by (auto simp: reader_object_type_def bindM_eq_Inr ret_apply raise_def split: if_splits)
  from u8_field.read_exact [OF len b] t
  show "True \<and> (\<exists>used rest'. rest = used @ rest' \<and> r' = reader_at R (pre @ used) rest' \<and>
      length used = length [object_type_as_u8 t] \<and> (True \<longrightarrow> used = [object_type_as_u8 t]))"
    by simp
next
  fix t and pre :: bytes and n R
  assume "length pre + length [object_type_as_u8 t] \<le> usize_max" "n < length [object_type_as_u8 t]"
  then show "\<exists>needed r'. reader_object_type (reader_at R pre (take n [object_type_as_u8 t])) =
      (Inl (Truncated R needed (length pre + n)), r')"
    using u8_field.read_cut [of pre "object_type_as_u8 t" n "''object_type''" R]
    by (auto simp: reader_object_type_def bindM_def)
qed

definition reader_object :: "object reads" where
  "reader_object =
    bindM reader_object_type (\<lambda>ty.
    bindM (reader_u64 ''size'') (\<lambda>size.
    bindM (reader_i64 ''ctime'') (\<lambda>ctime.
    bindM (reader_array CONTENT_HASH_SIZE ''hash'') (\<lambda>hash.
    bindM (reader_object_data ty) (\<lambda>data.
      ret \<lparr>obj_type = ty, obj_size = size, obj_ctime = ctime, obj_hash = hash, obj_data = data\<rparr>)))))"

lemma object_to_vec_eq:
  "object_to_vec ob = [object_type_as_u8 (obj_type ob)] @ u64_to_le_bytes (obj_size ob) @
     u64_to_le_bytes (obj_ctime ob) @ obj_hash ob @ enc_data (obj_data ob)"
  by (cases "obj_data ob") (simp_all add: object_to_vec_def put_id_list_eq put_len_def enc_blob_def)

lemma object_fields_codec: "field_codec reader_object object_to_vec wf_object False"
proof -
  have "field_codec (bindM (bindM reader_object_type (\<lambda>a.
      bindM (bindM (reader_u64 ''size'') (\<lambda>b. bindM (bindM (reader_i64 ''ctime'') (\<lambda>c.
      bindM (bindM (reader_array CONTENT_HASH_SIZE ''hash'') (\<lambda>d.
        bindM (reader_object_data a) (\<lambda>e. ret (d, e)))) (\<lambda>y. ret (c, y)))) (\<lambda>y. ret (b, y)))) (\<lambda>y. ret (a, y))))
      (\<lambda>p. ret \<lparr>obj_type = fst p, obj_size = fst (snd p), obj_ctime = fst (snd (snd p)),
        obj_hash = fst (snd (snd (snd p))), obj_data = snd (snd (snd (snd p)))\<rparr>)) object_to_vec wf_object False"
    by (rule field_codec_map [where g = "\<lambda>ob. (obj_type ob, obj_size ob, obj_ctime ob, obj_hash ob, obj_data ob)",
        OF field_seq_lax [OF object_type_codec field_seq_lax [OF u64_field.field_codec_axioms
          field_seq_lax [OF i64_field.field_codec_axioms field_seq_lax [OF array_field.field_codec_axioms
            object_data_codec]]]]])
      (auto simp: object_to_vec_eq wf_object_def)
  then show ?thesis by (simp add: bindM_laws reader_object_def)
qed

lemma length_object_to_vec: "wf_object ob \<Longrightarrow> length (object_to_vec ob) = object_num_bytes ob"
  by (cases "obj_data ob")
    (auto simp: object_to_vec_eq object_num_bytes_def wf_object_def length_enc_ids enc_blob_def OBJECT_HEADER_SIZE_def)

lemma minimum_le_object_num_bytes: "minimum_raw_object_size \<le> object_num_bytes ob"
  by (cases "obj_data ob")
    (auto simp: minimum_raw_object_size_def object_num_bytes_def id_list_len_def)

interpretation object_codec: record_codec "''Object''" object_to_vec object_try_from wf_object False
proof -
  let ?dec = "decode_record ''Object'' reader_object"
  have dec_eq: "object_try_from bs = (if length bs < minimum_raw_object_size
      then Inl (Truncated ''Object'' minimum_raw_object_size (length bs)) else ?dec bs)" for bs
    by (simp add: object_try_from_def decode_record_def reader_object_def bindM_laws)
  have base: "record_codec ''Object'' object_to_vec ?dec wf_object False"
    by (rule record_codecI [OF object_fields_codec]) simp
  have min: "\<not> length (object_to_vec ob @ t) < minimum_raw_object_size" if "wf_object ob" for ob t
    using minimum_le_object_num_bytes [of ob] length_object_to_vec [OF that] by simp
  show "record_codec ''Object'' object_to_vec object_try_from wf_object False"
  proof
    fix ob assume "wf_object ob" "length (object_to_vec ob) \<le> usize_max"
    then show "object_try_from (object_to_vec ob) = Inr ob"
      using record_codec.dec_enc [OF base] min [of ob "[]"] by (simp add: dec_eq)
  next
    fix bs ob assume "length bs \<le> usize_max" "object_try_from bs = Inr ob"
    then show "wf_object ob \<and> length bs = length (object_to_vec ob) \<and> (False \<longrightarrow> bs = object_to_vec ob)"
      using record_codec.dec_exact [OF base, of bs ob] by (auto simp: dec_eq split: if_splits)
  next
    fix ob n assume "wf_object ob" "length (object_to_vec ob) \<le> usize_max" "n < length (object_to_vec ob)"
    then show "\<exists>needed. object_try_from (take n (object_to_vec ob)) = Inl (Truncated ''Object'' needed n)"
      using record_codec.dec_cut [OF base, of ob n] by (auto simp: dec_eq)
  next
    fix ob and t :: bytes assume "wf_object ob" "length (object_to_vec ob @ t) \<le> usize_max" "t \<noteq> []"
    then show "object_try_from (object_to_vec ob @ t) = Inl (TrailingBytes ''Object'' (length t))"
      using record_codec.dec_extra [OF base, of ob t] min [of ob t] by (simp add: dec_eq)
  qed
qed

subsection \<open>Keys\<close>

lemma part_prefix_eq: "part_prefix b k u = enc_str b @ enc_str k @ enc_str u"
  by (simp add: part_prefix_def put_len_def enc_str_def)

lemma upload_key_eq: "upload_key b k u = enc_str b @ enc_str k @ as_bytes u"
  by (simp add: upload_key_def put_len_def enc_str_def)

lemma str_prefix_free:
  assumes "enc_str x @ as = enc_str y @ bs" "ok_str x" "ok_str y" "length (enc_str x @ as) \<le> usize_max"
  shows "x = y \<and> as = bs"
  using str_field.prefix_free [OF assms(2,3,1,4)] by simp

lemma part_prefix_free:
  assumes eq: "part_prefix b k u @ as = part_prefix b' k' u' @ bs"
    and ok: "ok_str b" "ok_str k" "ok_str u" "ok_str b'" "ok_str k'" "ok_str u'"
    and len: "length (part_prefix b k u @ as) \<le> usize_max"
  shows "b = b' \<and> k = k' \<and> u = u' \<and> as = bs"
proof -
  have 1: "b = b' \<and> enc_str k @ enc_str u @ as = enc_str k' @ enc_str u' @ bs"
    using eq len ok by (intro str_prefix_free) (simp_all add: part_prefix_eq)
  then have 2: "k = k' \<and> enc_str u @ as = enc_str u' @ bs"
    using len ok by (intro str_prefix_free) (simp_all add: part_prefix_eq)
  then have "u = u' \<and> as = bs"
    using len ok by (intro str_prefix_free) (simp_all add: part_prefix_eq)
  with 1 2 show ?thesis by simp
qed

lemma upload_key_inject:
  assumes eq: "upload_key b k u = upload_key b' k' u'"
    and ok: "ok_str b" "ok_str k" "ok_str b'" "ok_str k'"
    and len: "length (upload_key b k u) \<le> usize_max"
  shows "b = b' \<and> k = k' \<and> u = u'"
proof -
  have 1: "b = b' \<and> enc_str k @ as_bytes u = enc_str k' @ as_bytes u'"
    using eq len ok by (intro str_prefix_free) (simp_all add: upload_key_eq)
  then have "k = k' \<and> as_bytes u = as_bytes u'"
    using len ok by (intro str_prefix_free) (simp_all add: upload_key_eq)
  with 1 show ?thesis by simp
qed

lemma block_disk_path_last: "last (block_disk_path h i d root) = h (as_slice i)"
  by (simp add: block_disk_path_def Let_def)

lemma block_disk_path_inject:
  assumes "hex_ok h" "wf_block_id a" "wf_block_id b"
    and eq: "block_disk_path h a d root = block_disk_path h b e root"
  shows "a = b \<and> max 1 (min (unat d) (block_id_len a)) = max 1 (min (unat e) (block_id_len b))"
proof -
  have "h (as_slice a) = h (as_slice b)" using arg_cong [OF eq, of last] by (simp add: block_disk_path_last)
  then have ab: "a = b" using assms by (simp add: hex_ok_def inj_eq as_slice_inject)
  have len: "length (block_disk_path h a d root) =
      length root + max 1 (min (unat d) (block_id_len a)) + 1" for d
    using length_as_slice [OF assms(2)] assms(2)
    by (auto simp: block_disk_path_def Let_def wf_block_id_def BLOCKID_SIZE_def MAX_BLOCKID_SIZE_def)
  with arg_cong [OF eq, of length] ab show ?thesis by simp
qed

text \<open>A hex printer of the kind the parameter stands for.\<close>

definition hex_digit :: "u8 \<Rightarrow> char" where
  "hex_digit n = (if unat n < 10 then char_of (48 + unat n) else char_of (87 + unat n))"

definition hex_lower :: "bytes \<Rightarrow> string" where
  "hex_lower bs = concat (map (\<lambda>b. [hex_digit (b div 16), hex_digit (b mod 16)]) bs)"

lemma hex_digit_inject:
  assumes "unat m < 16" "unat n < 16" "hex_digit m = hex_digit n"
  shows "m = n"
proof -
  have inj: "(char_of a :: char) = char_of b \<longleftrightarrow> a = b" if "a < 256" "b < 256" for a b :: nat
    using that by (simp add: char_of_eq_iff take_bit_nat_eq_self)
  have "(if unat m < 10 then 48 + unat m else 87 + unat m) = (if unat n < 10 then 48 + unat n else 87 + unat n)"
    using assms inj unfolding hex_digit_def by (auto split: if_splits)
  then have "unat m = unat n" using assms(1,2) by (auto split: if_splits)
  then show ?thesis by (simp add: word_unat_eq_iff)
qed

lemma hex_digit_dash: "unat n < 16 \<Longrightarrow> CHR ''-'' \<noteq> hex_digit n"
proof
  assume "unat n < 16" "CHR ''-'' = hex_digit n"
  then have "of_char (CHR ''-'') = (of_char (hex_digit n) :: nat)" by simp
  then have "45 = (if unat n < 10 then 48 + unat n else 87 + unat n)"
    using \<open>unat n < 16\<close> by (auto simp: hex_digit_def take_bit_nat_eq_self split: if_splits)
  then show False by (auto split: if_splits)
qed

lemma hex_lower_simps [simp]:
  "hex_lower [] = []" "hex_lower (b # bs) = hex_digit (b div 16) # hex_digit (b mod 16) # hex_lower bs"
  by (simp_all add: hex_lower_def)

lemma hex_lower_ok: "hex_ok hex_lower"
proof -
  have nib: "unat (b div 16) < 16" "unat (b mod 16) < 16" for b :: u8
    using unat_lt2p [of b] by (simp_all add: unat_div unat_mod less_mult_imp_div_less)
  have "as = bs" if "hex_lower as = hex_lower bs" for as bs
    using that
  proof (induction as arbitrary: bs)
    case Nil
    then show ?case by (cases bs) simp_all
  next
    case (Cons a as)
    then obtain b cs where bs: "bs = b # cs" by (cases bs) simp_all
    from Cons.prems have "a div 16 = b div 16" "a mod 16 = b mod 16" "hex_lower as = hex_lower cs"
      unfolding bs by (auto intro: hex_digit_inject [OF nib(1) nib(1)] hex_digit_inject [OF nib(2) nib(2)])
    moreover from this have "a = b" by (metis div_mult_mod_eq)
    ultimately show ?case using Cons.IH bs by simp
  qed
  moreover have "length (hex_lower bs) = 2 * length bs" for bs by (induction bs) simp_all
  moreover have "CHR ''-'' \<notin> set (hex_lower bs)" for bs by (induction bs) (simp_all add: hex_digit_dash nib)
  ultimately show ?thesis unfolding hex_ok_def inj_def by blast
qed

subsection \<open>Properties of the formats\<close>

text \<open>C10: The object record format round-trips and is strict: a well-formed object decodes back from its
  bytes, its encoding has the length computed in advance, every proper prefix is refused as truncated
  and every extension as trailing bytes.\<close>
theorem object_format:
  assumes "wf_object ob" "length (object_to_vec ob) \<le> usize_max"
  shows "object_try_from (object_to_vec ob) = Inr ob \<and>
    length (object_to_vec ob) = object_num_bytes ob \<and>
    (\<forall>n < length (object_to_vec ob). \<exists>needed.
       object_try_from (take n (object_to_vec ob)) = Inl (Truncated ''Object'' needed n)) \<and>
    (\<forall>t. t \<noteq> [] \<longrightarrow> length (object_to_vec ob @ t) \<le> usize_max \<longrightarrow>
       object_try_from (object_to_vec ob @ t) = Inl (TrailingBytes ''Object'' (length t)))"
  using object_codec.dec_enc [OF assms] object_codec.dec_cut [OF assms] object_codec.dec_extra [OF assms(1)]
    length_object_to_vec [OF assms(1)] by blast

definition sample_object :: object where
  "sample_object = \<lparr>obj_type = ObjSingle, obj_size = 3, obj_ctime = 7, obj_hash = replicate 16 0,
     obj_data = SinglePart [BlockId (replicate 32 1) 32]\<rparr>"

lemma sample_object_wf: "wf_object sample_object \<and> length (object_to_vec sample_object) \<le> usize_max"
  by (simp add: sample_object_def wf_object_def CONTENT_HASH_SIZE_def ok_ids_def ids_width_def wf_block_id_def
      block_id_len_def BLOCKID_SIZE_def MAX_BLOCKID_SIZE_def object_to_vec_def put_id_list_def put_len_def
      as_slice_def usize_max_eq)

theorem object_format_witness: "object_try_from (object_to_vec sample_object) = Inr sample_object"
  using object_format [of sample_object] sample_object_wf by simp

text \<open>C11: The part record format of multipart uploads round-trips and is strict in the same sense.\<close>
theorem multipart_format:
  assumes "wf_multipart mp" "length (multipart_to_vec mp) \<le> usize_max"
  shows "multipart_try_from (multipart_to_vec mp) = Inr mp \<and>
    (\<forall>n < length (multipart_to_vec mp). \<exists>needed.
       multipart_try_from (take n (multipart_to_vec mp)) = Inl (Truncated ''MultiPart'' needed n)) \<and>
    (\<forall>t. t \<noteq> [] \<longrightarrow> length (multipart_to_vec mp @ t) \<le> usize_max \<longrightarrow>
       multipart_try_from (multipart_to_vec mp @ t) = Inl (TrailingBytes ''MultiPart'' (length t)))"
  using multipart_codec.dec_enc [OF assms] multipart_codec.dec_cut [OF assms]
    multipart_codec.dec_extra [OF assms(1)] by blast

definition sample_part :: multipart where
  "sample_part = multipart_new 3 1 ''b'' ''k'' ''u'' (replicate 16 0) [BlockId (replicate 32 1) 32]"

lemma sample_part_wf: "wf_multipart sample_part \<and> length (multipart_to_vec sample_part) \<le> usize_max"
  by (simp add: sample_part_def multipart_new_def wf_multipart_def CONTENT_HASH_SIZE_def ok_ids_def ids_width_def wf_block_id_def
      block_id_len_def BLOCKID_SIZE_def MAX_BLOCKID_SIZE_def multipart_to_vec_def put_id_list_def put_len_def
      as_slice_def usize_max_eq ok_str_def utf8_string_def as_bytes_def byte_of_char_def)

theorem multipart_format_witness: "multipart_try_from (multipart_to_vec sample_part) = Inr sample_part"
  using multipart_format [of sample_part] sample_part_wf by simp

text \<open>C12: A block record is decoded exactly from the eighteen bytes written for it, and from no others.\<close>
theorem block_format:
  assumes "length bs \<le> usize_max"
  shows "block_try_from bs = Inr b \<longleftrightarrow> bs = block_to_vec b"
  using block_codec.dec_enc [of b] block_codec.dec_exact [OF assms, of b] assms by auto

theorem block_format_witness:
  "block_try_from (block_to_vec (block_new 5 1)) = Inr (block_new 5 1)"
  using block_format [of "block_to_vec (block_new 5 1)" "block_new 5 1"]
  by (simp add: block_to_vec_def put_len_def usize_max_eq)

text \<open>C13: The keys of part records: a key lies under an upload's prefix exactly when it belongs to that
  upload, two parts share a key only when they are the same part, and the keys of one upload are in
  the order of their part numbers.\<close>
theorem part_keys:
  assumes "ok_str b" "ok_str k" "ok_str u" "ok_str b'" "ok_str k'" "ok_str u'"
    and "length (part_key b k u m) \<le> usize_max"
  shows "((\<exists>rest. part_key b k u m = part_prefix b' k' u' @ rest) \<longleftrightarrow> b = b' \<and> k = k' \<and> u = u') \<and>
    (part_key b k u m = part_key b' k' u' n \<longleftrightarrow> b = b' \<and> k = k' \<and> u = u' \<and> m = n) \<and>
    (part_key b k u m < part_key b k u n \<longleftrightarrow> m < n)"
proof -
  have pre: "b = b' \<and> k = k' \<and> u = u' \<and> u64_to_be_bytes m = rest"
    if "part_prefix b k u @ u64_to_be_bytes m = part_prefix b' k' u' @ rest" for rest
    using part_prefix_free [OF that assms(1-6)] assms(7) by (simp add: part_key_def)
  then show ?thesis by (auto simp: part_key_def u64_to_be_bytes_less)
qed

theorem part_keys_witness:
  "part_key ''b'' ''k'' ''u'' 1 < part_key ''b'' ''k'' ''u'' 2 \<and>
   \<not> (\<exists>rest. part_key ''b'' ''k'' ''u'' 1 = part_prefix ''b'' ''k'' ''v'' @ rest)"
  using part_keys [of "''b''" "''k''" "''u''" "''b''" "''k''" "''v''" 1 2]
  by (simp add: ok_str_def utf8_string_def as_bytes_def byte_of_char_def usize_max_eq part_key_def
      part_prefix_def put_len_def)

text \<open>C14: Two uploads with different bucket, key or id never share a record key, whatever separators
  the names contain.\<close>
theorem upload_keys:
  assumes "ok_str b" "ok_str k" "ok_str b'" "ok_str k'" "length (upload_key b k u) \<le> usize_max"
  shows "upload_key b k u = upload_key b' k' u' \<longleftrightarrow> b = b' \<and> k = k' \<and> u = u'"
  using upload_key_inject [OF _ assms] by auto

theorem upload_keys_witness: "upload_key ''a'' ''b-c'' ''d'' \<noteq> upload_key ''a-b'' ''c'' ''d''"
  using upload_keys [of "''a''" "''b-c''" "''a-b''" "''c''" "''d''" "''d''"]
  by (simp add: ok_str_def utf8_string_def as_bytes_def byte_of_char_def usize_max_eq upload_key_def put_len_def)

text \<open>C15: Block files never collide: two ids have a path in common under a blocks root only if they are
  the same id at the same effective depth, and that path lies at least one directory below the root.\<close>
theorem block_paths:
  assumes "hex_ok hex" "wf_block_id a" "wf_block_id b"
  shows "(block_disk_path hex a d root = block_disk_path hex b e root \<longleftrightarrow>
      a = b \<and> max 1 (min (unat d) (block_id_len a)) = max 1 (min (unat e) (block_id_len a))) \<and>
    length root + 2 \<le> length (block_disk_path hex a d root)"
proof -
  have "length root + 2 \<le> length (block_disk_path hex a d root)"
    using length_as_slice [OF assms(2)] assms(2)
    by (auto simp: block_disk_path_def Let_def wf_block_id_def BLOCKID_SIZE_def MAX_BLOCKID_SIZE_def)
  then show ?thesis
    using block_disk_path_inject [OF assms, of d root e] by (auto simp: block_disk_path_def)
qed

theorem block_paths_witness:
  "block_disk_path hex_lower (BlockId (replicate 32 1) 32) 1 [''blocks''] \<noteq>
   block_disk_path hex_lower (BlockId (replicate 32 2) 32) 1 [''blocks'']"
  using block_paths [OF hex_lower_ok, of "BlockId (replicate 32 1) 32" "BlockId (replicate 32 2) 32" 1 "[''blocks'']" 1]
  by (simp add: wf_block_id_def block_id_len_def BLOCKID_SIZE_def MAX_BLOCKID_SIZE_def replicate_eq_replicate)

end
