(* ===== verification/StoreHeader.thy ===== *)
theory StoreHeader
  imports Codec
begin

section \<open>The store header\<close>

text \<open>
  The block hash selector (\<open>hasher.rs\<close>) and the 32-byte store header with its pairing
  identity (\<open>metastore/store_header.rs\<close>). BLAKE3 is a parameter (the \<open>blake3\<close> package is not
  part of the repository): a function from byte strings to 32-byte digests. The clock and
  the freshly minted UUID are arguments of the constructors that read them.
\<close>

subsection \<open>Hasher\<close>

definition ALGO_BLAKE3 :: u8 where
  "ALGO_BLAKE3 = 1"

definition WIDTH_16 :: u8 where
  "WIDTH_16 = 16"

definition WIDTH_32 :: u8 where
  "WIDTH_32 = 32"

datatype hasher = Blake3W16 | Blake3W32

datatype hasher_error = UnknownAlgo u8 | UnsupportedWidth u8

primrec algo_id :: "hasher \<Rightarrow> u8" where
  "algo_id Blake3W16 = ALGO_BLAKE3"
| "algo_id Blake3W32 = ALGO_BLAKE3"

primrec hasher_width :: "hasher \<Rightarrow> u8" where
  "hasher_width Blake3W16 = WIDTH_16"
| "hasher_width Blake3W32 = WIDTH_32"

definition hasher_hash :: "(bytes \<Rightarrow> bytes) \<Rightarrow> hasher \<Rightarrow> bytes \<Rightarrow> block_id" where
  "hasher_hash blake3 h data =
    (let full = blake3 data in
     case h of
       Blake3W16 \<Rightarrow> block_id_from_16 (take (unat WIDTH_16) full)
     | Blake3W32 \<Rightarrow> block_id_from_32 full)"

definition hasher_from_header :: "u8 \<Rightarrow> u8 \<Rightarrow> hasher_error + hasher" where
  "hasher_from_header algo width =
    (if algo = ALGO_BLAKE3 then
       if width = WIDTH_16 then Inr Blake3W16
       else if width = WIDTH_32 then Inr Blake3W32
       else Inl (UnsupportedWidth width)
     else Inl (UnknownAlgo algo))"

text \<open>What the code relies on of BLAKE3: the digest is 32 bytes.\<close>

definition blake3_ok :: "(bytes \<Rightarrow> bytes) \<Rightarrow> bool" where
  "blake3_ok blake3 \<longleftrightarrow> (\<forall>bs. length (blake3 bs) = 32)"

subsection \<open>Header constants\<close>

definition STORE_HEADER_TREE :: string where
  "STORE_HEADER_TREE = ''_STORE_HEADER''"

definition STORE_HEADER_KEY :: bytes where
  "STORE_HEADER_KEY = as_bytes ''header''"

definition STORE_HEADER_SIZE :: nat where
  "STORE_HEADER_SIZE = 32"

definition STORE_HEADER_MAGIC :: bytes where
  "STORE_HEADER_MAGIC = as_bytes ''QSST''"

definition STORE_HEADER_VERSION :: u16 where
  "STORE_HEADER_VERSION = 3"

definition STORE_HEADER_VERSION_CAS_NAMESPACE :: u16 where
  "STORE_HEADER_VERSION_CAS_NAMESPACE = 4"

definition SUPPORTED_STORE_HEADER_VERSIONS :: "u16 list" where
  "SUPPORTED_STORE_HEADER_VERSIONS = [STORE_HEADER_VERSION, STORE_HEADER_VERSION_CAS_NAMESPACE]"

definition STORE_HEADER_SIDECAR :: string where
  "STORE_HEADER_SIDECAR = ''store_header.bin''"

definition STORE_ID_SIZE :: nat where
  "STORE_ID_SIZE = STORE_HEADER_SIZE - 4 - 2 - 1 - 1 - 8"

subsection \<open>Store ids\<close>

datatype store_id = StoreId bytes

primrec store_id_as_bytes :: "store_id \<Rightarrow> bytes" where
  "store_id_as_bytes (StoreId bs) = bs"

definition store_id_generate :: "bytes \<Rightarrow> store_id" where
  "store_id_generate uuid = StoreId uuid"

definition store_id_from_bytes :: "bytes \<Rightarrow> store_id option" where
  "store_id_from_bytes bs = (if bs = replicate STORE_ID_SIZE 0 then None else Some (StoreId bs))"

definition store_id_to_hex :: "(bytes \<Rightarrow> string) \<Rightarrow> store_id \<Rightarrow> string" where
  "store_id_to_hex hex_string i = hex_string (store_id_as_bytes i)"

definition wf_store_id :: "store_id \<Rightarrow> bool" where
  "wf_store_id i \<longleftrightarrow> length (store_id_as_bytes i) = STORE_ID_SIZE \<and>
     store_id_as_bytes i \<noteq> replicate STORE_ID_SIZE 0"

subsection \<open>Headers\<close>

record header_spec =
  hs_hash_algo :: u8
  hs_hash_width :: u8

definition header_spec_from_hasher :: "hasher \<Rightarrow> header_spec" where
  "header_spec_from_hasher h = \<lparr>hs_hash_algo = algo_id h, hs_hash_width = hasher_width h\<rparr>"

definition header_spec_default :: header_spec where
  "header_spec_default = header_spec_from_hasher Blake3W32"

record store_header =
  sh_version :: u16
  sh_hasher :: hasher
  sh_created_at :: u64
  sh_store_id :: bytes

datatype store_header_error =
    HeaderMissing
  | BadMagic bytes
  | UnsupportedVersion u16
  | Malformed fs_error
  | HeaderHash hasher_error

definition store_header_create_with ::
  "header_spec \<Rightarrow> u64 \<Rightarrow> store_id option \<Rightarrow> store_header_error + store_header" where
  "store_header_create_with spec created_at store_id =
    bindE (map_err HeaderHash (hasher_from_header (hs_hash_algo spec) (hs_hash_width spec))) (\<lambda>hasher.
    Inr \<lparr>sh_version = STORE_HEADER_VERSION, sh_hasher = hasher, sh_created_at = created_at,
         sh_store_id = (case store_id of None \<Rightarrow> replicate STORE_ID_SIZE 0 | Some i \<Rightarrow> store_id_as_bytes i)\<rparr>)"

definition store_header_create_at ::
  "bytes \<Rightarrow> header_spec \<Rightarrow> u64 \<Rightarrow> store_header_error + store_header" where
  "store_header_create_at uuid spec created_at =
    store_header_create_with spec created_at (Some (store_id_generate uuid))"

definition header_store_id :: "store_header \<Rightarrow> store_id option" where
  "header_store_id h = store_id_from_bytes (sh_store_id h)"

definition with_store_id :: "store_header \<Rightarrow> store_id \<Rightarrow> store_header" where
  "with_store_id h i = h\<lparr>sh_store_id := store_id_as_bytes i\<rparr>"

definition store_header_to_bytes :: "store_header \<Rightarrow> bytes" where
  "store_header_to_bytes h =
    STORE_HEADER_MAGIC @ u16_to_le_bytes (sh_version h) @ [algo_id (sh_hasher h)] @
    [hasher_width (sh_hasher h)] @ u64_to_le_bytes (sh_created_at h) @ sh_store_id h"

definition malformed :: "'a reads \<Rightarrow> (reader, store_header_error, 'a) act" where
  "malformed m r = (case m r of (v, r') \<Rightarrow> (map_err Malformed v, r'))"

definition store_header_from_bytes :: "bytes \<Rightarrow> store_header_error + store_header" where
  "store_header_from_bytes buf = fst (
    bindM (malformed (reader_array 4 ''magic'')) (\<lambda>magic.
      if magic \<noteq> STORE_HEADER_MAGIC then raise (BadMagic magic) else
    bindM (malformed (reader_u16 ''version'')) (\<lambda>version.
      if version \<notin> set SUPPORTED_STORE_HEADER_VERSIONS then raise (UnsupportedVersion version) else
    bindM (malformed (reader_u8 ''hash_algo'')) (\<lambda>hash_algo.
    bindM (malformed (reader_u8 ''hash_width'')) (\<lambda>hash_width.
    bindM (malformed (reader_u64 ''created_at'')) (\<lambda>created_at.
    bindM (malformed (reader_array STORE_ID_SIZE ''store_id'')) (\<lambda>store_id.
    bindM (malformed reader_finish) (\<lambda>_.
    bindM (liftE (map_err HeaderHash (hasher_from_header hash_algo hash_width))) (\<lambda>hasher.
      ret \<lparr>sh_version = version, sh_hasher = hasher, sh_created_at = created_at, sh_store_id = store_id\<rparr>))))))))
    (reader_new ''store header'' buf))"

definition wf_store_header :: "store_header \<Rightarrow> bool" where
  "wf_store_header h \<longleftrightarrow> sh_version h \<in> set SUPPORTED_STORE_HEADER_VERSIONS \<and>
     length (sh_store_id h) = STORE_ID_SIZE"

subsection \<open>Hasher and header lemmas\<close>

lemma hasher_from_header_iff:
  "hasher_from_header a w = Inr h \<longleftrightarrow> a = algo_id h \<and> w = hasher_width h"
  by (cases h) (auto simp: hasher_from_header_def WIDTH_16_def WIDTH_32_def)

lemma hasher_hash_wf:
  "blake3_ok b3 \<Longrightarrow> wf_block_id (hasher_hash b3 h data) \<and> block_id_len (hasher_hash b3 h data) = unat (hasher_width h)"
  by (cases h)
    (auto simp: hasher_hash_def blake3_ok_def wf_block_id_def block_id_len_def block_id_from_16_def
      block_id_from_32_def BLOCKID_SIZE_def MAX_BLOCKID_SIZE_def WIDTH_16_def WIDTH_32_def)

lemma store_header_size: "wf_store_header h \<Longrightarrow> length (store_header_to_bytes h) = STORE_HEADER_SIZE"
  by (simp add: store_header_to_bytes_def wf_store_header_def STORE_HEADER_MAGIC_def
      STORE_ID_SIZE_def STORE_HEADER_SIZE_def)

lemma malformed_Inr: "malformed m r = (Inr x, r') \<longleftrightarrow> m r = (Inr x, r')"
  by (cases "m r") (auto simp: malformed_def)

lemma bindM_malformed: "m r = (Inr x, r') \<Longrightarrow> bindM (malformed m) k r = k x r'"
  by (simp add: bindM_def malformed_def)

lemma store_header_dec_enc:
  assumes "wf_store_header h"
  shows "store_header_from_bytes (store_header_to_bytes h) = Inr h"
proof -
  let ?R = "''store header''" and ?v = "u16_to_le_bytes (sh_version h)" and ?a = "[algo_id (sh_hasher h)]"
    and ?w = "[hasher_width (sh_hasher h)]" and ?c = "u64_to_le_bytes (sh_created_at h)"
    and ?i = "sh_store_id h" and ?M = STORE_HEADER_MAGIC
  have len: "length ?M = 4" "length ?i = 16" "(16::nat) \<le> usize_max" "usize_max = 18446744073709551615"
    and v: "sh_version h \<in> set SUPPORTED_STORE_HEADER_VERSIONS"
    using assms by (simp_all add: wf_store_header_def STORE_HEADER_MAGIC_def STORE_ID_SIZE_def
        STORE_HEADER_SIZE_def usize_max_eq)
  note steps =
    array_field.read_back [of ?M 4 "[]" "?v @ ?a @ ?w @ ?c @ ?i" "''magic''" ?R]
    u16_field.read_back [of ?M "sh_version h" "?a @ ?w @ ?c @ ?i" "''version''" ?R]
    u8_field.read_back [of "?M @ ?v" "algo_id (sh_hasher h)" "?w @ ?c @ ?i" "''hash_algo''" ?R]
    u8_field.read_back [of "?M @ ?v @ ?a" "hasher_width (sh_hasher h)" "?c @ ?i" "''hash_width''" ?R]
    u64_field.read_back [of "?M @ ?v @ ?a @ ?w" "sh_created_at h" "?i" "''created_at''" ?R]
    array_field.read_back [of ?i 16 "?M @ ?v @ ?a @ ?w @ ?c" "[]" "''store_id''" ?R]
  have "hasher_from_header (algo_id (sh_hasher h)) (hasher_width (sh_hasher h)) = Inr (sh_hasher h)"
    by (simp add: hasher_from_header_iff)
  then show ?thesis
    using steps len v
    by (simp add: store_header_from_bytes_def store_header_to_bytes_def reader_new_at bindM_malformed
        STORE_ID_SIZE_def STORE_HEADER_SIZE_def liftE_def ret_apply bindM_def malformed_def)
qed

lemma fst_eqE: "fst p = x \<Longrightarrow> (\<And>s. p = (x, s) \<Longrightarrow> thesis) \<Longrightarrow> thesis"
  by (cases p) simp

lemma malformed_bindE:
  assumes "bindM (malformed m) k r = (Inr y, s)"
  obtains x r' where "m r = (Inr x, r')" "k x r' = (Inr y, s)"
  using assms by (auto simp: bindM_eq_Inr malformed_Inr)

lemma array_step:
  "reader_array n f (reader_at R pre rest) = (Inr x, r) \<Longrightarrow> length pre + length rest \<le> usize_max \<Longrightarrow>
    \<exists>rest'. rest = x @ rest' \<and> length x = n \<and> r = reader_at R (pre @ x) rest'"
  using array_field.read_exact [of pre rest n f R x r] by auto

lemma u16_step:
  "reader_u16 f (reader_at R pre rest) = (Inr x, r) \<Longrightarrow> length pre + length rest \<le> usize_max \<Longrightarrow>
    \<exists>rest'. rest = u16_to_le_bytes x @ rest' \<and> r = reader_at R (pre @ u16_to_le_bytes x) rest'"
  using u16_field.read_exact [of pre rest f R x r] by auto

lemma u8_step:
  "reader_u8 f (reader_at R pre rest) = (Inr x, r) \<Longrightarrow> length pre + length rest \<le> usize_max \<Longrightarrow>
    \<exists>rest'. rest = x # rest' \<and> r = reader_at R (pre @ [x]) rest'"
  using u8_field.read_exact [of pre rest f R x r] by auto

lemma u64_step:
  "reader_u64 f (reader_at R pre rest) = (Inr x, r) \<Longrightarrow> length pre + length rest \<le> usize_max \<Longrightarrow>
    \<exists>rest'. rest = u64_to_le_bytes x @ rest' \<and> r = reader_at R (pre @ u64_to_le_bytes x) rest'"
  using u64_field.read_exact [of pre rest f R x r] by auto

lemma store_header_dec_exact:
  assumes len: "length bs \<le> usize_max" and dec: "store_header_from_bytes bs = Inr h"
  shows "wf_store_header h \<and> bs = store_header_to_bytes h"
proof -
  let ?R = "''store header''"
  from dec obtain s where run:
    "bindM (malformed (reader_array 4 ''magic'')) (\<lambda>magic.
      if magic \<noteq> STORE_HEADER_MAGIC then raise (BadMagic magic) else
    bindM (malformed (reader_u16 ''version'')) (\<lambda>version.
      if version \<notin> set SUPPORTED_STORE_HEADER_VERSIONS then raise (UnsupportedVersion version) else
    bindM (malformed (reader_u8 ''hash_algo'')) (\<lambda>hash_algo.
    bindM (malformed (reader_u8 ''hash_width'')) (\<lambda>hash_width.
    bindM (malformed (reader_u64 ''created_at'')) (\<lambda>created_at.
    bindM (malformed (reader_array STORE_ID_SIZE ''store_id'')) (\<lambda>store_id.
    bindM (malformed reader_finish) (\<lambda>_.
    bindM (liftE (map_err HeaderHash (hasher_from_header hash_algo hash_width))) (\<lambda>hasher.
      ret \<lparr>sh_version = version, sh_hasher = hasher, sh_created_at = created_at, sh_store_id = store_id\<rparr>))))))))
    (reader_at ?R [] bs) = (Inr h, s)"
    unfolding store_header_from_bytes_def reader_new_at by (rule fst_eqE)
  then obtain r1 version r2 algo r3 width r4 created r5 sid r6 r7 hs where
    1: "reader_array 4 ''magic'' (reader_at ?R [] bs) = (Inr STORE_HEADER_MAGIC, r1)"
    and 2: "reader_u16 ''version'' r1 = (Inr version, r2)" "version \<in> set SUPPORTED_STORE_HEADER_VERSIONS"
    and 3: "reader_u8 ''hash_algo'' r2 = (Inr algo, r3)"
    and 4: "reader_u8 ''hash_width'' r3 = (Inr width, r4)"
    and 5: "reader_u64 ''created_at'' r4 = (Inr created, r5)"
    and 6: "reader_array STORE_ID_SIZE ''store_id'' r5 = (Inr sid, r6)"
    and 7: "reader_finish r6 = (Inr (), r7)"
    and 8: "hasher_from_header algo width = Inr hs"
      "\<lparr>sh_version = version, sh_hasher = hs, sh_created_at = created, sh_store_id = sid\<rparr> = h"
    apply (elim malformed_bindE)
    apply (simp only: raise_def prod.inject sum.distinct simp_thms split: if_split_asm)
    apply (elim malformed_bindE)
    apply (simp only: raise_def prod.inject sum.distinct simp_thms split: if_split_asm)
    apply (elim malformed_bindE)
    apply (simp only: bindM_eq_Inr liftE_def ret_apply prod.inject map_err_eq_Inr sum.inject)
    apply (elim exE conjE)
    apply (rule that, assumption+, simp_all)
    done
  from array_step [OF 1] len obtain b1 where s1: "bs = STORE_HEADER_MAGIC @ b1" "r1 = reader_at ?R STORE_HEADER_MAGIC b1" by auto
  from u16_step [OF 2(1) [unfolded s1]] len s1 obtain b2 where s2: "b1 = u16_to_le_bytes version @ b2"
    "r2 = reader_at ?R (STORE_HEADER_MAGIC @ u16_to_le_bytes version) b2" by auto
  from u8_step [OF 3 [unfolded s2]] len s1 s2 obtain b3 where s3: "b2 = algo # b3"
    "r3 = reader_at ?R (STORE_HEADER_MAGIC @ u16_to_le_bytes version @ [algo]) b3" by auto
  from u8_step [OF 4 [unfolded s3]] len s1 s2 s3 obtain b4 where s4: "b3 = width # b4"
    "r4 = reader_at ?R (STORE_HEADER_MAGIC @ u16_to_le_bytes version @ [algo, width]) b4" by auto
  from u64_step [OF 5 [unfolded s4]] len s1 s2 s3 s4 obtain b5 where s5: "b4 = u64_to_le_bytes created @ b5"
    "r5 = reader_at ?R (STORE_HEADER_MAGIC @ u16_to_le_bytes version @ [algo, width] @ u64_to_le_bytes created) b5" by auto
  from array_step [OF 6 [unfolded s5]] len s1 s2 s3 s4 s5 obtain b6 where s6: "b5 = sid @ b6" "length sid = STORE_ID_SIZE"
    "r6 = reader_at ?R (STORE_HEADER_MAGIC @ u16_to_le_bytes version @ [algo, width] @ u64_to_le_bytes created @ sid) b6"
    by auto
  have "b6 = []" using 7 s6 by (auto split: if_splits)
  with s1 s2 s3 s4 s5 s6 8 2 show ?thesis
    by (auto simp: wf_store_header_def store_header_to_bytes_def hasher_from_header_iff)
qed

end
