(* ===== verification/MetaTraits.thy ===== *)
theory MetaTraits
  imports Records StoreHeader
begin

section \<open>The store traits and what they promise\<close>

text \<open>
  The metadata errors (\<open>metastore/errors.rs\<close>) and the traits of \<open>metastore/traits.rs\<close> and
  \<open>metastore/meta_store.rs\<close> through which everything above the database reaches it: \<open>Store\<close>,
  \<open>BaseMetaTree\<close>, \<open>MetaTreeExt\<close> and \<open>TransactionBackend\<close>. A \<open>dyn Store\<close> is a record of its methods; a
  tree handle is the name of its tree, and the one open transaction of the single-writer
  database is part of the store's state.

  \<open>store_contract\<close> is the contract the callers rely on, over three ghost views of the state: the
  committed content, the content the open transaction sees, and the set of existing trees.
  Every method may fail; the contract says what a failure can have changed.
\<close>

subsection \<open>Errors\<close>

record store_pairing_mismatch =
  spm_db_path :: string
  spm_header_id :: store_id
  spm_blocks_root :: string
  spm_marker_id :: store_id

datatype meta_error =
    KeyNotFound
  | KeyAlreadyExists
  | CollectionNotFound
  | BucketNotFound
  | InsertError string
  | RemoveError string
  | NotMetaTree string
  | TransactionError string
  | PersistError string
  | BlockNotFound
  | OtherDBError string
  | Corruption fs_error
  | HeaderError string store_header_error
  | StorePairing store_pairing_mismatch
  | ReservedBucketName string
  | StoreLocked string

definition corrupt :: "fs_error + 'a \<Rightarrow> meta_error + 'a" where
  "corrupt = map_err Corruption"

lemma corrupt_simps [simp]: "corrupt (Inr x) = Inr x" "corrupt (Inl e) = Inl (Corruption e)"
  by (simp_all add: corrupt_def)

lemma corrupt_eq_Inr [simp]: "corrupt r = Inr x \<longleftrightarrow> r = Inr x"
  by (cases r) auto

subsection \<open>Durability levels\<close>

datatype durability = Buffer | Fsync

definition ascii_lower :: "char \<Rightarrow> char" where
  "ascii_lower c = (let n = of_char c :: nat in if 65 \<le> n \<and> n \<le> 90 then char_of (n + 32) else c)"

definition durability_from_str :: "string \<Rightarrow> string + durability" where
  "durability_from_str s =
    (let l = map ascii_lower s in
     if l = ''buffer'' then Inr Buffer
     else if l = ''fsync'' then Inr Fsync
     else if l = ''fdatasync'' then
       Inl (''the fdatasync durability level was removed (ADR 0010): the sync boundary is the request ack now, '' @
         ''which makes it indistinguishable from fsync in both speed and crash safety -- use fsync or buffer'')
     else Inl (''unknown durability option: '' @ s @ '' (expected buffer or fsync)''))"

primrec durability_display :: "durability \<Rightarrow> string" where
  "durability_display Buffer = ''buffer''"
| "durability_display Fsync = ''fsync''"

subsection \<open>The traits\<close>

type_synonym content = "string \<Rightarrow> (bytes, bytes) omap"

type_synonym kv_item = "meta_error + bytes \<times> bytes"

record 's store_ops =
  st_tree_open :: "string \<Rightarrow> ('s, meta_error, unit) act"
  st_tree_exists :: "string \<Rightarrow> ('s, meta_error, bool) act"
  st_list_trees :: "('s, meta_error, string list) act"
  st_tree_delete :: "string \<Rightarrow> ('s, meta_error, unit) act"
  st_num_keys :: "string \<Rightarrow> ('s, meta_error, nat) act"
  tr_insert :: "string \<Rightarrow> bytes \<Rightarrow> bytes \<Rightarrow> ('s, meta_error, unit) act"
  tr_remove :: "string \<Rightarrow> bytes \<Rightarrow> ('s, meta_error, bool) act"
  tr_contains_key :: "string \<Rightarrow> bytes \<Rightarrow> ('s, meta_error, bool) act"
  tr_get :: "string \<Rightarrow> bytes \<Rightarrow> ('s, meta_error, bytes option) act"
  tr_len :: "string \<Rightarrow> ('s, meta_error, nat) act"
  tr_iter_next :: "string \<Rightarrow> bytes option \<Rightarrow> 's \<Rightarrow> (kv_item option \<times> bytes option) \<times> 's"
  st_begin_transaction :: "'s \<Rightarrow> 's"
  tx_commit :: "('s, meta_error, unit) act"
  tx_rollback :: "'s \<Rightarrow> 's"
  tx_get :: "string \<Rightarrow> bytes \<Rightarrow> ('s, meta_error, bytes option) act"
  tx_insert :: "string \<Rightarrow> bytes \<Rightarrow> bytes \<Rightarrow> ('s, meta_error, unit) act"
  tx_remove :: "string \<Rightarrow> bytes \<Rightarrow> ('s, meta_error, unit) act"

definition cont_ins :: "string \<Rightarrow> bytes \<Rightarrow> bytes \<Rightarrow> content \<Rightarrow> content" where
  "cont_ins n k v c = c(n := omap_ins k v (c n))"

definition cont_del :: "string \<Rightarrow> bytes \<Rightarrow> content \<Rightarrow> content" where
  "cont_del n k c = c(n := omap_del k (c n))"

definition cont_ok :: "content \<Rightarrow> bool" where
  "cont_ok c \<longleftrightarrow> (\<forall>n. omap_ok (c n))"

lemma cont_ok_ins [simp]: "cont_ok c \<Longrightarrow> cont_ok (cont_ins n k v c)"
  by (simp add: cont_ok_def cont_ins_def)

lemma cont_ok_del [simp]: "cont_ok c \<Longrightarrow> cont_ok (cont_del n k c)"
  by (simp add: cont_ok_def cont_del_def)

lemma map_of_cont_ins [simp]:
  "map_of (cont_ins n k v c m) l = (if m = n \<and> l = k then Some v else map_of (c m) l)"
  by (simp add: cont_ins_def)

lemma map_of_cont_del [simp]:
  "cont_ok c \<Longrightarrow> map_of (cont_del n k c m) l = (if m = n \<and> l = k then None else map_of (c m) l)"
  by (simp add: cont_del_def cont_ok_def)

lemma cont_ins_other [simp]: "m \<noteq> n \<Longrightarrow> cont_ins n k v c m = c m"
  by (simp add: cont_ins_def)

lemma cont_del_other [simp]: "m \<noteq> n \<Longrightarrow> cont_del n k c m = c m"
  by (simp add: cont_del_def)

subsection \<open>The contract\<close>

text \<open>The errors that opening a tree or looking up a key answers.\<close>

definition read_fault :: "'s store_ops \<Rightarrow> meta_error \<Rightarrow> bool" where
  "read_fault S e \<longleftrightarrow> (\<exists>n s s'. st_tree_open S n s = (Inl e, s')) \<or> (\<exists>n k s s'. tr_get S n k s = (Inl e, s'))"

text \<open>\<open>keep\<close> are the trees a component opens once and holds on to.\<close>

locale store_contract =
  fixes S :: "'s store_ops"
    and inv :: "'s \<Rightarrow> bool"
    and in_tx :: "'s \<Rightarrow> bool"
    and cont :: "'s \<Rightarrow> content"
    and txv :: "'s \<Rightarrow> content"
    and names :: "'s \<Rightarrow> string set"
    and keep :: "string set"
  assumes inv_keep: "inv s \<Longrightarrow> keep \<subseteq> names s"
    and inv_cont: "inv s \<Longrightarrow> cont_ok (cont s)"
    and inv_txv: "inv s \<Longrightarrow> in_tx s \<Longrightarrow> cont_ok (txv s)"
    and inv_finite: "inv s \<Longrightarrow> finite (names s)"
    and inv_names: "inv s \<Longrightarrow> n \<notin> names s \<Longrightarrow> cont s n = []"
    and tree_open: "inv s \<Longrightarrow> st_tree_open S n s = (r, s') \<Longrightarrow>
      inv s' \<and> in_tx s' = in_tx s \<and> cont s' = cont s \<and> txv s' = txv s \<and>
      names s \<subseteq> names s' \<and> names s' \<subseteq> insert n (names s) \<and> (r = Inr () \<longrightarrow> n \<in> names s')"
    and tree_exists: "inv s \<Longrightarrow> st_tree_exists S n s = (rb, s') \<Longrightarrow>
      s' = s \<and> rb = Inr (n \<in> names s)"
    and list_trees: "inv s \<Longrightarrow> st_list_trees S s = (rl, s') \<Longrightarrow>
      s' = s \<and> (\<exists>ns. rl = Inr ns \<and> set ns = names s \<and> distinct ns)"
    and tree_delete: "inv s \<Longrightarrow> \<not> in_tx s \<Longrightarrow> n \<notin> keep \<Longrightarrow> st_tree_delete S n s = (r, s') \<Longrightarrow>
      inv s' \<and> \<not> in_tx s' \<and>
      (cont s' = (cont s)(n := []) \<and> names s' = names s - {n} \<or>
       (\<exists>e. r = Inl e) \<and> cont s' = cont s \<and> names s \<subseteq> names s' \<and> names s' \<subseteq> insert n (names s))"
    and insert: "inv s \<Longrightarrow> \<not> in_tx s \<Longrightarrow> n \<in> names s \<Longrightarrow> tr_insert S n k v s = (r, s') \<Longrightarrow>
      inv s' \<and> \<not> in_tx s' \<and> names s' = names s \<and>
      (cont s' = cont_ins n k v (cont s) \<or> (\<exists>e. r = Inl e) \<and> cont s' = cont s)"
    and remove: "inv s \<Longrightarrow> \<not> in_tx s \<Longrightarrow> n \<in> names s \<Longrightarrow> tr_remove S n k s = (rb, s') \<Longrightarrow>
      inv s' \<and> \<not> in_tx s' \<and> names s' = names s \<and>
      (cont s' = cont_del n k (cont s) \<or> (\<exists>e. rb = Inl e) \<and> cont s' = cont s) \<and>
      (\<forall>b. rb = Inr b \<longrightarrow> b = (map_of (cont s n) k \<noteq> None))"
    and contains_key: "inv s \<Longrightarrow> tr_contains_key S n k s = (rb, s') \<Longrightarrow>
      inv s' \<and> in_tx s' = in_tx s \<and> cont s' = cont s \<and> txv s' = txv s \<and> names s' = names s \<and>
      (\<forall>b. rb = Inr b \<longrightarrow> b = (map_of (cont s n) k \<noteq> None))"
    and get: "inv s \<Longrightarrow> tr_get S n k s = (rv, s') \<Longrightarrow>
      inv s' \<and> in_tx s' = in_tx s \<and> cont s' = cont s \<and> txv s' = txv s \<and> names s' = names s \<and>
      (\<forall>v. rv = Inr v \<longrightarrow> v = map_of (cont s n) k)"
    and len: "inv s \<Longrightarrow> tr_len S n s = (rn, s') \<Longrightarrow>
      inv s' \<and> in_tx s' = in_tx s \<and> cont s' = cont s \<and> txv s' = txv s \<and> names s' = names s \<and>
      (\<forall>m. rn = Inr m \<longrightarrow> m = length (cont s n))"
    and iter_next: "inv s \<Longrightarrow> tr_iter_next S n cur s = ((item, cur'), s') \<Longrightarrow>
      inv s' \<and> in_tx s' = in_tx s \<and> cont s' = cont s \<and> txv s' = txv s \<and> names s' = names s \<and>
      (let rest = filter (\<lambda>(k, v). case cur of None \<Rightarrow> True | Some c \<Rightarrow> c < k) (cont s n) in
       case item of
         None \<Rightarrow> rest = []
       | Some (Inr (k, v)) \<Rightarrow> rest \<noteq> [] \<and> hd rest = (k, v) \<and> cur' = Some k
       | Some (Inl e) \<Rightarrow> rest \<noteq> [] \<and> cur' = cur)"
    and begin_tx: "inv s \<Longrightarrow> \<not> in_tx s \<Longrightarrow>
      inv (st_begin_transaction S s) \<and> in_tx (st_begin_transaction S s) \<and>
      cont (st_begin_transaction S s) = cont s \<and> txv (st_begin_transaction S s) = cont s \<and>
      names (st_begin_transaction S s) = names s"
    and tx_get: "inv s \<Longrightarrow> in_tx s \<Longrightarrow> tx_get S n k s = (rv, s') \<Longrightarrow>
      inv s' \<and> in_tx s' \<and> cont s' = cont s \<and> txv s' = txv s \<and>
      names s \<subseteq> names s' \<and> names s' \<subseteq> insert n (names s) \<and> (\<forall>v. rv = Inr v \<longrightarrow> v = map_of (txv s n) k)"
    and tx_insert: "inv s \<Longrightarrow> in_tx s \<Longrightarrow> tx_insert S n k v s = (r, s') \<Longrightarrow>
      inv s' \<and> in_tx s' \<and> cont s' = cont s \<and> names s \<subseteq> names s' \<and> names s' \<subseteq> insert n (names s) \<and>
      txv s' = (if r = Inr () then cont_ins n k v (txv s) else txv s)"
    and tx_remove: "inv s \<Longrightarrow> in_tx s \<Longrightarrow> tx_remove S n k s = (r, s') \<Longrightarrow>
      inv s' \<and> in_tx s' \<and> cont s' = cont s \<and> names s \<subseteq> names s' \<and> names s' \<subseteq> insert n (names s) \<and>
      txv s' = (if r = Inr () then cont_del n k (txv s) else txv s)"
    and tx_commit: "inv s \<Longrightarrow> in_tx s \<Longrightarrow> tx_commit S s = (r, s') \<Longrightarrow>
      inv s' \<and> \<not> in_tx s' \<and> names s' = names s \<and>
      (cont s' = txv s \<or> (\<exists>e. r = Inl e) \<and> cont s' = cont s)"
    and tx_rollback: "inv s \<Longrightarrow> in_tx s \<Longrightarrow>
      inv (tx_rollback S s) \<and> \<not> in_tx (tx_rollback S s) \<and> cont (tx_rollback S s) = cont s \<and>
      names (tx_rollback S s) = names s"

end
