(* ===== verification/FjallStore.thy ===== *)
theory FjallStore
  imports MetaTraits
begin

section \<open>The fjall backend\<close>

text \<open>
  \<open>metastore/stores/fjall.rs\<close> and \<open>metastore/stores/fjall/tree.rs\<close>: the one implementation of the
  store traits. The \<open>fjall\<close> package is a parameter: a record of the calls the code makes, each
  threading a database state of an arbitrary type, so that it may fail at any call for any
  reason. \<open>fjall_ok\<close> collects what the code relies on: point reads and writes are those of an
  ordered map per keyspace, a transaction reads its own writes over the committed content, a
  commit is all or nothing, a rollback discards, iteration is in key order, and a failed call
  has either taken effect or not.
\<close>

subsection \<open>The package as a parameter\<close>

datatype persist_mode = PersistBuffer | PersistSyncAll

record 'd fjall =
  fj_keyspace :: "string \<Rightarrow> ('d, string, unit) act"
  fj_keyspace_exists :: "string \<Rightarrow> 'd \<Rightarrow> bool"
  fj_list_keyspace_names :: "'d \<Rightarrow> string list"
  fj_delete_keyspace :: "string \<Rightarrow> ('d, string, unit) act"
  fj_persist :: "persist_mode \<Rightarrow> ('d, string, unit) act"
  fj_insert :: "string \<Rightarrow> bytes \<Rightarrow> bytes \<Rightarrow> ('d, string, unit) act"
  fj_remove :: "string \<Rightarrow> bytes \<Rightarrow> ('d, string, unit) act"
  fj_contains_key :: "string \<Rightarrow> bytes \<Rightarrow> ('d, string, bool) act"
  fj_get :: "string \<Rightarrow> bytes \<Rightarrow> ('d, string, bytes option) act"
  fj_len :: "string \<Rightarrow> ('d, string, nat) act"
  fj_range :: "string \<Rightarrow> bytes option \<Rightarrow> bytes option \<Rightarrow> 'd \<Rightarrow> (string + bytes \<times> bytes) list \<times> 'd"
  fj_prefix :: "string \<Rightarrow> bytes \<Rightarrow> 'd \<Rightarrow> (string + bytes \<times> bytes) list \<times> 'd"
  fj_write_tx :: "'d \<Rightarrow> 'd"
  fj_tx_get :: "string \<Rightarrow> bytes \<Rightarrow> ('d, string, bytes option) act"
  fj_tx_insert :: "string \<Rightarrow> bytes \<Rightarrow> bytes \<Rightarrow> 'd \<Rightarrow> 'd"
  fj_tx_remove :: "string \<Rightarrow> bytes \<Rightarrow> 'd \<Rightarrow> 'd"
  fj_tx_commit :: "('d, string, unit) act"
  fj_tx_rollback :: "'d \<Rightarrow> 'd"

text \<open>The views in which the package's behaviour is described.\<close>

record 'd fjall_view =
  fv_cont :: "'d \<Rightarrow> content"
  fv_tx :: "'d \<Rightarrow> content"
  fv_names :: "'d \<Rightarrow> string set"

definition fv_same :: "'d fjall_view \<Rightarrow> 'd \<Rightarrow> 'd \<Rightarrow> bool" where
  "fv_same V d d' \<longleftrightarrow> fv_cont V d' = fv_cont V d \<and> fv_tx V d' = fv_tx V d \<and> fv_names V d' = fv_names V d"

definition in_range :: "bytes option \<Rightarrow> bytes option \<Rightarrow> bytes \<Rightarrow> bool" where
  "in_range lo hi k \<longleftrightarrow> (case lo of None \<Rightarrow> True | Some l \<Rightarrow> l \<le> k) \<and> (case hi of None \<Rightarrow> True | Some h \<Rightarrow> k < h)"

definition guards_of :: "(string + bytes \<times> bytes) list \<Rightarrow> (bytes \<times> bytes) list \<Rightarrow> bool" where
  "guards_of gs es \<longleftrightarrow> list_all2 (\<lambda>g e. \<forall>kv. g = Inr kv \<longrightarrow> kv = e) gs es"

definition fj_get_ok :: "'d fjall \<Rightarrow> 'd fjall_view \<Rightarrow> bool" where
  "fj_get_ok F V \<longleftrightarrow> (\<forall>d n k r d'. fj_get F n k d = (r, d') \<longrightarrow>
     fv_same V d d' \<and> (\<forall>v. r = Inr v \<longrightarrow> v = map_of (fv_cont V d n) k))"

definition fj_contains_ok :: "'d fjall \<Rightarrow> 'd fjall_view \<Rightarrow> bool" where
  "fj_contains_ok F V \<longleftrightarrow> (\<forall>d n k r d'. fj_contains_key F n k d = (r, d') \<longrightarrow>
     fv_same V d d' \<and> (\<forall>b. r = Inr b \<longrightarrow> b = (map_of (fv_cont V d n) k \<noteq> None)))"

definition fj_len_ok :: "'d fjall \<Rightarrow> 'd fjall_view \<Rightarrow> bool" where
  "fj_len_ok F V \<longleftrightarrow> (\<forall>d n r d'. fj_len F n d = (r, d') \<longrightarrow>
     fv_same V d d' \<and> (\<forall>m. r = Inr m \<longrightarrow> m = length (fv_cont V d n)))"

definition fj_range_ok :: "'d fjall \<Rightarrow> 'd fjall_view \<Rightarrow> bool" where
  "fj_range_ok F V \<longleftrightarrow> (\<forall>d n lo hi gs d'. fj_range F n lo hi d = (gs, d') \<longrightarrow>
     fv_same V d d' \<and> guards_of gs (filter (\<lambda>(k, v). in_range lo hi k) (fv_cont V d n)))"

definition fj_prefix_ok :: "'d fjall \<Rightarrow> 'd fjall_view \<Rightarrow> bool" where
  "fj_prefix_ok F V \<longleftrightarrow> (\<forall>d n p gs d'. fj_prefix F n p d = (gs, d') \<longrightarrow>
     fv_same V d d' \<and> guards_of gs (filter (\<lambda>(k, v). take (length p) k = p) (fv_cont V d n)))"

definition fj_names_ok :: "'d fjall \<Rightarrow> 'd fjall_view \<Rightarrow> bool" where
  "fj_names_ok F V \<longleftrightarrow> (\<forall>d n. (fj_keyspace_exists F n d \<longleftrightarrow> n \<in> fv_names V d) \<and>
     set (fj_list_keyspace_names F d) = fv_names V d \<and> distinct (fj_list_keyspace_names F d))"

definition fj_insert_ok :: "'d fjall \<Rightarrow> 'd fjall_view \<Rightarrow> bool" where
  "fj_insert_ok F V \<longleftrightarrow> (\<forall>d n k v r d'. n \<in> fv_names V d \<longrightarrow> fj_insert F n k v d = (r, d') \<longrightarrow>
     fv_names V d' = fv_names V d \<and>
     (fv_cont V d' = cont_ins n k v (fv_cont V d) \<or> (\<exists>e. r = Inl e) \<and> fv_cont V d' = fv_cont V d))"

definition fj_remove_ok :: "'d fjall \<Rightarrow> 'd fjall_view \<Rightarrow> bool" where
  "fj_remove_ok F V \<longleftrightarrow> (\<forall>d n k r d'. n \<in> fv_names V d \<longrightarrow> fj_remove F n k d = (r, d') \<longrightarrow>
     fv_names V d' = fv_names V d \<and>
     (fv_cont V d' = cont_del n k (fv_cont V d) \<or> (\<exists>e. r = Inl e) \<and> fv_cont V d' = fv_cont V d))"

definition fj_persist_ok :: "'d fjall \<Rightarrow> 'd fjall_view \<Rightarrow> bool" where
  "fj_persist_ok F V \<longleftrightarrow> (\<forall>d m r d'. fj_persist F m d = (r, d') \<longrightarrow> fv_same V d d')"

definition fj_keyspace_ok :: "'d fjall \<Rightarrow> 'd fjall_view \<Rightarrow> bool" where
  "fj_keyspace_ok F V \<longleftrightarrow> (\<forall>d n r d'. fj_keyspace F n d = (r, d') \<longrightarrow>
     fv_cont V d' = fv_cont V d \<and> fv_tx V d' = fv_tx V d \<and>
     (fv_names V d' = insert n (fv_names V d) \<or> (\<exists>e. r = Inl e) \<and> fv_names V d' = fv_names V d))"

definition fj_delete_ok :: "'d fjall \<Rightarrow> 'd fjall_view \<Rightarrow> bool" where
  "fj_delete_ok F V \<longleftrightarrow> (\<forall>d n r d'. n \<in> fv_names V d \<longrightarrow> fj_delete_keyspace F n d = (r, d') \<longrightarrow>
     fv_cont V d' = (fv_cont V d)(n := []) \<and> fv_names V d' = fv_names V d - {n} \<or>
     (\<exists>e. r = Inl e) \<and> fv_cont V d' = fv_cont V d \<and> fv_names V d' = fv_names V d)"

definition fj_begin_ok :: "'d fjall \<Rightarrow> 'd fjall_view \<Rightarrow> bool" where
  "fj_begin_ok F V \<longleftrightarrow> (\<forall>d. fv_cont V (fj_write_tx F d) = fv_cont V d \<and>
     fv_tx V (fj_write_tx F d) = fv_cont V d \<and> fv_names V (fj_write_tx F d) = fv_names V d)"

definition fj_tx_get_ok :: "'d fjall \<Rightarrow> 'd fjall_view \<Rightarrow> bool" where
  "fj_tx_get_ok F V \<longleftrightarrow> (\<forall>d n k r d'. fj_tx_get F n k d = (r, d') \<longrightarrow>
     fv_same V d d' \<and> (\<forall>v. r = Inr v \<longrightarrow> v = map_of (fv_tx V d n) k))"

definition fj_tx_insert_ok :: "'d fjall \<Rightarrow> 'd fjall_view \<Rightarrow> bool" where
  "fj_tx_insert_ok F V \<longleftrightarrow> (\<forall>d n k v. n \<in> fv_names V d \<longrightarrow>
     fv_cont V (fj_tx_insert F n k v d) = fv_cont V d \<and>
     fv_tx V (fj_tx_insert F n k v d) = cont_ins n k v (fv_tx V d) \<and>
     fv_names V (fj_tx_insert F n k v d) = fv_names V d)"

definition fj_tx_remove_ok :: "'d fjall \<Rightarrow> 'd fjall_view \<Rightarrow> bool" where
  "fj_tx_remove_ok F V \<longleftrightarrow> (\<forall>d n k. n \<in> fv_names V d \<longrightarrow>
     fv_cont V (fj_tx_remove F n k d) = fv_cont V d \<and>
     fv_tx V (fj_tx_remove F n k d) = cont_del n k (fv_tx V d) \<and>
     fv_names V (fj_tx_remove F n k d) = fv_names V d)"

definition fj_commit_ok :: "'d fjall \<Rightarrow> 'd fjall_view \<Rightarrow> bool" where
  "fj_commit_ok F V \<longleftrightarrow> (\<forall>d r d'. fj_tx_commit F d = (r, d') \<longrightarrow> fv_names V d' = fv_names V d \<and>
     (fv_cont V d' = fv_tx V d \<or> (\<exists>e. r = Inl e) \<and> fv_cont V d' = fv_cont V d))"

definition fj_rollback_ok :: "'d fjall \<Rightarrow> 'd fjall_view \<Rightarrow> bool" where
  "fj_rollback_ok F V \<longleftrightarrow> (\<forall>d. fv_cont V (fj_tx_rollback F d) = fv_cont V d \<and>
     fv_names V (fj_tx_rollback F d) = fv_names V d)"

definition fjall_ok :: "'d fjall \<Rightarrow> 'd fjall_view \<Rightarrow> bool" where
  "fjall_ok F V \<longleftrightarrow>
     fj_get_ok F V \<and> fj_contains_ok F V \<and> fj_len_ok F V \<and> fj_range_ok F V \<and> fj_prefix_ok F V \<and>
     fj_names_ok F V \<and> fj_insert_ok F V \<and> fj_remove_ok F V \<and> fj_persist_ok F V \<and> fj_keyspace_ok F V \<and>
     fj_delete_ok F V \<and> fj_begin_ok F V \<and> fj_tx_get_ok F V \<and> fj_tx_insert_ok F V \<and>
     fj_tx_remove_ok F V \<and> fj_commit_ok F V \<and> fj_rollback_ok F V"

subsection \<open>The store, its trees and its transaction\<close>

record 'd fjall_store =
  fst_db :: 'd
  fst_cache :: "string list"
  fst_tx :: bool

type_synonym ('d, 'a) fj_act = "('d fjall_store, meta_error, 'a) act"

definition on_db :: "('d \<Rightarrow> 'a \<times> 'd) \<Rightarrow> 'd fjall_store \<Rightarrow> 'a \<times> 'd fjall_store" where
  "on_db f s = (case f (fst_db s) of (r, d) \<Rightarrow> (r, s\<lparr>fst_db := d\<rparr>))"

definition db_err :: "(string \<Rightarrow> meta_error) \<Rightarrow> ('d, string, 'a) act \<Rightarrow> ('d, 'a) fj_act" where
  "db_err wrap f s = (case on_db f s of (r, s') \<Rightarrow> (map_err wrap r, s'))"

datatype ack_persist = AckContract | AckRecoverable

definition MULTIPART_PARTS_TREE :: string where
  "MULTIPART_PARTS_TREE = ''_MULTIPART_PARTS''"

definition UPLOADS_TREE :: string where
  "UPLOADS_TREE = ''_UPLOADS''"

definition ack_persist_for :: "string \<Rightarrow> ack_persist" where
  "ack_persist_for name =
    (if name = MULTIPART_PARTS_TREE \<or> name = UPLOADS_TREE then AckRecoverable else AckContract)"

definition txdb_persist :: "'d fjall \<Rightarrow> persist_mode \<Rightarrow> ('d, unit) fj_act" where
  "txdb_persist F mode = db_err PersistError (fj_persist F mode)"

definition commit_persist :: "'d fjall \<Rightarrow> persist_mode \<Rightarrow> ('d, unit) fj_act" where
  "commit_persist F mode =
    bindM (db_err TransactionError (fj_tx_commit F)) (\<lambda>_. txdb_persist F mode)"

definition get_partition :: "'d fjall \<Rightarrow> string \<Rightarrow> ('d, unit) fj_act" where
  "get_partition F name s =
    (if name \<in> set (fst_cache s) then (Inr (), s)
     else bindM (db_err OtherDBError (fj_keyspace F name))
            (\<lambda>_. modifyM (\<lambda>s. s\<lparr>fst_cache := name # fst_cache s\<rparr>)) s)"

definition fjall_tree_open :: "'d fjall \<Rightarrow> string \<Rightarrow> ('d, unit) fj_act" where
  "fjall_tree_open F name = get_partition F name"

definition fjall_tree_exists :: "'d fjall \<Rightarrow> string \<Rightarrow> ('d, bool) fj_act" where
  "fjall_tree_exists F name = getsM (\<lambda>s. fj_keyspace_exists F name (fst_db s))"

definition fjall_list_trees :: "'d fjall \<Rightarrow> ('d, string list) fj_act" where
  "fjall_list_trees F = getsM (\<lambda>s. fj_list_keyspace_names F (fst_db s))"

definition fjall_tree_delete :: "'d fjall \<Rightarrow> string \<Rightarrow> ('d, unit) fj_act" where
  "fjall_tree_delete F name =
    bindM (get_partition F name) (\<lambda>_.
    bindM (modifyM (\<lambda>s. s\<lparr>fst_cache := removeAll name (fst_cache s)\<rparr>)) (\<lambda>_.
      db_err OtherDBError (fj_delete_keyspace F name)))"

definition fjall_num_keys :: "'d fjall \<Rightarrow> string \<Rightarrow> ('d, nat) fj_act" where
  "fjall_num_keys F name =
    bindM (get_partition F name) (\<lambda>_. db_err OtherDBError (fj_len F name))"

definition persist_after :: "'d fjall \<Rightarrow> persist_mode \<Rightarrow> string \<Rightarrow> ('d, unit) fj_act" where
  "persist_after F mode name =
    (case ack_persist_for name of AckContract \<Rightarrow> txdb_persist F mode | AckRecoverable \<Rightarrow> ret ())"

definition fjall_insert :: "'d fjall \<Rightarrow> persist_mode \<Rightarrow> string \<Rightarrow> bytes \<Rightarrow> bytes \<Rightarrow> ('d, unit) fj_act" where
  "fjall_insert F mode name key value =
    bindM (db_err OtherDBError (fj_insert F name key value)) (\<lambda>_. persist_after F mode name)"

definition fjall_remove :: "'d fjall \<Rightarrow> persist_mode \<Rightarrow> string \<Rightarrow> bytes \<Rightarrow> ('d, bool) fj_act" where
  "fjall_remove F mode name key =
    bindM (db_err OtherDBError (fj_contains_key F name key)) (\<lambda>existed.
    bindM (db_err OtherDBError (fj_remove F name key)) (\<lambda>_.
    bindM (persist_after F mode name) (\<lambda>_. ret existed)))"

definition fjall_contains_key :: "'d fjall \<Rightarrow> string \<Rightarrow> bytes \<Rightarrow> ('d, bool) fj_act" where
  "fjall_contains_key F name key = db_err (\<lambda>_. KeyNotFound) (fj_contains_key F name key)"

definition fjall_get :: "'d fjall \<Rightarrow> string \<Rightarrow> bytes \<Rightarrow> ('d, bytes option) fj_act" where
  "fjall_get F name key = db_err OtherDBError (fj_get F name key)"

definition fjall_len :: "'d fjall \<Rightarrow> string \<Rightarrow> ('d, nat) fj_act" where
  "fjall_len F name = db_err OtherDBError (fj_len F name)"

subsection \<open>Iteration\<close>

definition advance :: "string + bytes \<times> bytes \<Rightarrow> bytes option \<Rightarrow> kv_item \<times> bytes option" where
  "advance guard cursor =
    (case guard of
       Inr (k, v) \<Rightarrow> (Inr (k, v), Some k)
     | Inl e \<Rightarrow> (Inl (OtherDBError e), cursor))"

text \<open>One call of the iterator \<open>iter_kv\<close> returns: a fresh range read, its first item, and the cursor moved
  by \<open>advance\<close>. \<open>iter_kv_backward\<close> is its mirror.\<close>

definition fjall_iter_next ::
  "'d fjall \<Rightarrow> string \<Rightarrow> bytes option \<Rightarrow> 'd fjall_store \<Rightarrow> (kv_item option \<times> bytes option) \<times> 'd fjall_store" where
  "fjall_iter_next F name last_key s =
    (let lo = (case last_key of Some k \<Rightarrow> k @ [0] | None \<Rightarrow> []) in
     case on_db (fj_range F name (Some lo) None) s of
       ([], s') \<Rightarrow> ((None, last_key), s')
     | (g # _, s') \<Rightarrow> (case advance g last_key of (item, cur) \<Rightarrow> ((Some item, cur), s')))"

definition fjall_iter_next_back ::
  "'d fjall \<Rightarrow> string \<Rightarrow> bytes option \<Rightarrow> 'd fjall_store \<Rightarrow> (kv_item option \<times> bytes option) \<times> 'd fjall_store" where
  "fjall_iter_next_back F name last_key s =
    (case on_db (fj_range F name None last_key) s of
       ([], s') \<Rightarrow> ((None, last_key), s')
     | (gs, s') \<Rightarrow> (case advance (last gs) last_key of (item, cur) \<Rightarrow> ((Some item, cur), s')))"

definition starts_with :: "'a list \<Rightarrow> 'a list \<Rightarrow> bool" where
  "starts_with xs p \<longleftrightarrow> take (length p) xs = p"

definition ok_pairs :: "(string + bytes \<times> bytes) list \<Rightarrow> (bytes \<times> bytes) list" where
  "ok_pairs gs = List.map_filter (\<lambda>g. case g of Inl _ \<Rightarrow> None | Inr kv \<Rightarrow> Some kv) gs"

definition decode_listed :: "bytes \<times> bytes \<Rightarrow> (string \<times> object) option" where
  "decode_listed kv =
    (case from_utf8 (fst kv) of
       None \<Rightarrow> None
     | Some key \<Rightarrow> (case object_try_from (snd kv) of Inl _ \<Rightarrow> None | Inr ob \<Rightarrow> Some (key, ob)))"

definition fjall_range_filter ::
  "'d fjall \<Rightarrow> string \<Rightarrow> string option \<Rightarrow> string option \<Rightarrow> string option \<Rightarrow>
   'd fjall_store \<Rightarrow> (string \<times> object) list \<times> 'd fjall_store" where
  "fjall_range_filter F name start_after prefix token s =
    (let ctsa = (case (token, start_after) of
         (Some t, Some st) \<Rightarrow> Some (max t st)
       | (Some t, None) \<Rightarrow> Some t
       | (None, st) \<Rightarrow> st);
       (guards, ctsa', s') = (case (prefix, ctsa) of
         (Some p, Some c) \<Rightarrow>
           if p < c \<and> \<not> starts_with c p then ([], Some c, s)
           else if c < p then (case on_db (fj_prefix F name (as_bytes p)) s of (gs, s') \<Rightarrow> (gs, None, s'))
           else (case on_db (fj_prefix F name (as_bytes p)) s of (gs, s') \<Rightarrow> (gs, Some c, s'))
       | (Some p, None) \<Rightarrow> (case on_db (fj_prefix F name (as_bytes p)) s of (gs, s') \<Rightarrow> (gs, None, s'))
       | (None, Some c) \<Rightarrow>
           (case on_db (fj_range F name (Some (as_bytes c @ [0])) None) s of (gs, s') \<Rightarrow> (gs, Some c, s'))
       | (None, None) \<Rightarrow> (case on_db (fj_range F name None None) s of (gs, s') \<Rightarrow> (gs, None, s')));
       pairs = ok_pairs guards;
       skipped = (case (prefix, ctsa') of
         (Some _, Some c) \<Rightarrow> dropWhile (\<lambda>(k, v). k \<le> as_bytes c) pairs
       | _ \<Rightarrow> pairs)
     in (List.map_filter decode_listed skipped, s'))"

subsection \<open>Transactions\<close>

definition ROLLED_BACK :: meta_error where
  "ROLLED_BACK = TransactionError ''Transaction already rolled back''"

definition fjall_begin_transaction :: "'d fjall \<Rightarrow> 'd fjall_store \<Rightarrow> 'd fjall_store" where
  "fjall_begin_transaction F s = s\<lparr>fst_db := fj_write_tx F (fst_db s), fst_tx := True\<rparr>"

definition fjall_tx_commit :: "'d fjall \<Rightarrow> persist_mode \<Rightarrow> ('d, unit) fj_act" where
  "fjall_tx_commit F mode s =
    (if fst_tx s then commit_persist F mode (s\<lparr>fst_tx := False\<rparr>) else (Inl ROLLED_BACK, s))"

definition fjall_tx_rollback :: "'d fjall \<Rightarrow> 'd fjall_store \<Rightarrow> 'd fjall_store" where
  "fjall_tx_rollback F s =
    (if fst_tx s then s\<lparr>fst_db := fj_tx_rollback F (fst_db s), fst_tx := False\<rparr> else s)"

definition fjall_tx_get :: "'d fjall \<Rightarrow> string \<Rightarrow> bytes \<Rightarrow> ('d, bytes option) fj_act" where
  "fjall_tx_get F name key =
    bindM (get_partition F name) (\<lambda>_ s.
      if fst_tx s then db_err OtherDBError (fj_tx_get F name key) s else (Inl ROLLED_BACK, s))"

definition fjall_tx_insert :: "'d fjall \<Rightarrow> string \<Rightarrow> bytes \<Rightarrow> bytes \<Rightarrow> ('d, unit) fj_act" where
  "fjall_tx_insert F name key value =
    bindM (get_partition F name) (\<lambda>_ s.
      if fst_tx s then (Inr (), s\<lparr>fst_db := fj_tx_insert F name key value (fst_db s)\<rparr>)
      else (Inl ROLLED_BACK, s))"

definition fjall_tx_remove :: "'d fjall \<Rightarrow> string \<Rightarrow> bytes \<Rightarrow> ('d, unit) fj_act" where
  "fjall_tx_remove F name key =
    bindM (get_partition F name) (\<lambda>_ s.
      if fst_tx s then (Inr (), s\<lparr>fst_db := fj_tx_remove F name key (fst_db s)\<rparr>)
      else (Inl ROLLED_BACK, s))"

definition fjall_store_ops :: "'d fjall \<Rightarrow> persist_mode \<Rightarrow> 'd fjall_store store_ops" where
  "fjall_store_ops F mode = \<lparr>
     st_tree_open = fjall_tree_open F,
     st_tree_exists = fjall_tree_exists F,
     st_list_trees = fjall_list_trees F,
     st_tree_delete = fjall_tree_delete F,
     st_num_keys = fjall_num_keys F,
     tr_insert = fjall_insert F mode,
     tr_remove = fjall_remove F mode,
     tr_contains_key = fjall_contains_key F,
     tr_get = fjall_get F,
     tr_len = fjall_len F,
     tr_iter_next = fjall_iter_next F,
     st_begin_transaction = fjall_begin_transaction F,
     tx_commit = fjall_tx_commit F mode,
     tx_rollback = fjall_tx_rollback F,
     tx_get = fjall_tx_get F,
     tx_insert = fjall_tx_insert F,
     tx_remove = fjall_tx_remove F\<rparr>"

subsection \<open>An in-memory instance of the package\<close>

text \<open>A database held in memory, with no failures: it satisfies everything that is relied on.\<close>

record mem_db =
  mem_cont :: content
  mem_tx :: content
  mem_names :: "string list"

definition mem_fjall :: "mem_db fjall" where
  "mem_fjall =
    \<lparr>fj_keyspace = (\<lambda>n. modifyM (\<lambda>d. d\<lparr>mem_names := List.insert n (mem_names d)\<rparr>)),
     fj_keyspace_exists = (\<lambda>n d. n \<in> set (mem_names d)),
     fj_list_keyspace_names = (\<lambda>d. remdups (mem_names d)),
     fj_delete_keyspace = (\<lambda>n. modifyM (\<lambda>d. d\<lparr>mem_cont := (mem_cont d)(n := []), mem_names := removeAll n (mem_names d)\<rparr>)),
     fj_persist = (\<lambda>m. ret ()),
     fj_insert = (\<lambda>n k v. modifyM (\<lambda>d. d\<lparr>mem_cont := cont_ins n k v (mem_cont d)\<rparr>)),
     fj_remove = (\<lambda>n k. modifyM (\<lambda>d. d\<lparr>mem_cont := cont_del n k (mem_cont d)\<rparr>)),
     fj_contains_key = (\<lambda>n k. getsM (\<lambda>d. map_of (mem_cont d n) k \<noteq> None)),
     fj_get = (\<lambda>n k. getsM (\<lambda>d. map_of (mem_cont d n) k)),
     fj_len = (\<lambda>n. getsM (\<lambda>d. length (mem_cont d n))),
     fj_range = (\<lambda>n lo hi d. (map Inr (filter (\<lambda>(k, v). in_range lo hi k) (mem_cont d n)), d)),
     fj_prefix = (\<lambda>n p d. (map Inr (filter (\<lambda>(k, v). take (length p) k = p) (mem_cont d n)), d)),
     fj_write_tx = (\<lambda>d. d\<lparr>mem_tx := mem_cont d\<rparr>),
     fj_tx_get = (\<lambda>n k. getsM (\<lambda>d. map_of (mem_tx d n) k)),
     fj_tx_insert = (\<lambda>n k v d. d\<lparr>mem_tx := cont_ins n k v (mem_tx d)\<rparr>),
     fj_tx_remove = (\<lambda>n k d. d\<lparr>mem_tx := cont_del n k (mem_tx d)\<rparr>),
     fj_tx_commit = modifyM (\<lambda>d. d\<lparr>mem_cont := mem_tx d\<rparr>),
     fj_tx_rollback = (\<lambda>d. d)\<rparr>"

definition mem_view :: "mem_db fjall_view" where
  "mem_view = \<lparr>fv_cont = mem_cont, fv_tx = mem_tx, fv_names = (\<lambda>d. set (mem_names d))\<rparr>"

definition mem_empty :: "mem_db fjall_store" where
  "mem_empty = \<lparr>fst_db = \<lparr>mem_cont = (\<lambda>_. []), mem_tx = (\<lambda>_. []), mem_names = []\<rparr>, fst_cache = [], fst_tx = False\<rparr>"

definition mem_ops :: "mem_db fjall_store store_ops" where
  "mem_ops = fjall_store_ops mem_fjall PersistSyncAll"

subsection \<open>The backend meets the contract\<close>

text \<open>The invariant of a store handle: the package behaves as documented, trees that do not exist
  are empty, and every cached keyspace handle names a keyspace that exists.\<close>

definition fjall_inv :: "'d fjall \<Rightarrow> 'd fjall_view \<Rightarrow> 'd fjall_store \<Rightarrow> bool" where
  "fjall_inv F V s \<longleftrightarrow> fjall_ok F V \<and> cont_ok (fv_cont V (fst_db s)) \<and>
     (fst_tx s \<longrightarrow> cont_ok (fv_tx V (fst_db s))) \<and>
     finite (fv_names V (fst_db s)) \<and> set (fst_cache s) \<subseteq> fv_names V (fst_db s) \<and>
     (\<forall>n. n \<notin> fv_names V (fst_db s) \<longrightarrow> fv_cont V (fst_db s) n = []) \<and>
     (fst_tx s \<longrightarrow> (\<forall>n. n \<notin> fv_names V (fst_db s) \<longrightarrow> fv_tx V (fst_db s) n = []))"

definition fjall_cont :: "'d fjall_view \<Rightarrow> 'd fjall_store \<Rightarrow> content" where
  "fjall_cont V s = fv_cont V (fst_db s)"

definition fjall_txv :: "'d fjall_view \<Rightarrow> 'd fjall_store \<Rightarrow> content" where
  "fjall_txv V s = fv_tx V (fst_db s)"

definition fjall_names :: "'d fjall_view \<Rightarrow> 'd fjall_store \<Rightarrow> string set" where
  "fjall_names V s = fv_names V (fst_db s)"

lemma fjall_inv_okD: "fjall_inv F V s \<Longrightarrow> fjall_ok F V"
  by (simp add: fjall_inv_def)

lemma fjall_inv_same:
  "fjall_inv F V s \<Longrightarrow> fv_same V (fst_db s) d \<Longrightarrow> fjall_inv F V (s\<lparr>fst_db := d\<rparr>)"
  by (auto simp: fjall_inv_def fv_same_def)

lemma fjall_get_law:
  "fjall_ok F V \<Longrightarrow> fj_get F n k d = (r, d') \<Longrightarrow>
    fv_same V d d' \<and> (\<forall>v. r = Inr v \<longrightarrow> v = map_of (fv_cont V d n) k)"
  by (simp add: fjall_ok_def fj_get_ok_def)

lemma fjall_contains_law:
  "fjall_ok F V \<Longrightarrow> fj_contains_key F n k d = (r, d') \<Longrightarrow>
    fv_same V d d' \<and> (\<forall>b. r = Inr b \<longrightarrow> b = (map_of (fv_cont V d n) k \<noteq> None))"
  by (simp add: fjall_ok_def fj_contains_ok_def)

lemma fjall_len_law:
  "fjall_ok F V \<Longrightarrow> fj_len F n d = (r, d') \<Longrightarrow>
    fv_same V d d' \<and> (\<forall>m. r = Inr m \<longrightarrow> m = length (fv_cont V d n))"
  by (simp add: fjall_ok_def fj_len_ok_def)

lemma fjall_range_law:
  "fjall_ok F V \<Longrightarrow> fj_range F n lo hi d = (gs, d') \<Longrightarrow>
    fv_same V d d' \<and> guards_of gs (filter (\<lambda>(k, v). in_range lo hi k) (fv_cont V d n))"
  by (simp add: fjall_ok_def fj_range_ok_def)

lemma fjall_prefix_law:
  "fjall_ok F V \<Longrightarrow> fj_prefix F n p d = (gs, d') \<Longrightarrow>
    fv_same V d d' \<and> guards_of gs (filter (\<lambda>(k, v). take (length p) k = p) (fv_cont V d n))"
  by (simp add: fjall_ok_def fj_prefix_ok_def)

lemma fjall_names_law:
  "fjall_ok F V \<Longrightarrow> fj_keyspace_exists F n d \<longleftrightarrow> n \<in> fv_names V d"
  "fjall_ok F V \<Longrightarrow> set (fj_list_keyspace_names F d) = fv_names V d"
  "fjall_ok F V \<Longrightarrow> distinct (fj_list_keyspace_names F d)"
  by (simp_all add: fjall_ok_def fj_names_ok_def)

lemma fjall_insert_law:
  "fjall_ok F V \<Longrightarrow> n \<in> fv_names V d \<Longrightarrow> fj_insert F n k v d = (r, d') \<Longrightarrow>
    fv_names V d' = fv_names V d \<and>
    (fv_cont V d' = cont_ins n k v (fv_cont V d) \<or> (\<exists>e. r = Inl e) \<and> fv_cont V d' = fv_cont V d)"
  by (simp add: fjall_ok_def fj_insert_ok_def)

lemma fjall_remove_law:
  "fjall_ok F V \<Longrightarrow> n \<in> fv_names V d \<Longrightarrow> fj_remove F n k d = (r, d') \<Longrightarrow>
    fv_names V d' = fv_names V d \<and>
    (fv_cont V d' = cont_del n k (fv_cont V d) \<or> (\<exists>e. r = Inl e) \<and> fv_cont V d' = fv_cont V d)"
  by (simp add: fjall_ok_def fj_remove_ok_def)

lemma fjall_persist_law: "fjall_ok F V \<Longrightarrow> fj_persist F m d = (r, d') \<Longrightarrow> fv_same V d d'"
  by (simp add: fjall_ok_def fj_persist_ok_def)

lemma fjall_keyspace_law:
  "fjall_ok F V \<Longrightarrow> fj_keyspace F n d = (r, d') \<Longrightarrow>
    fv_cont V d' = fv_cont V d \<and> fv_tx V d' = fv_tx V d \<and>
    (fv_names V d' = insert n (fv_names V d) \<or> (\<exists>e. r = Inl e) \<and> fv_names V d' = fv_names V d)"
  by (simp add: fjall_ok_def fj_keyspace_ok_def)

lemma fjall_delete_law:
  "fjall_ok F V \<Longrightarrow> n \<in> fv_names V d \<Longrightarrow> fj_delete_keyspace F n d = (r, d') \<Longrightarrow>
    fv_cont V d' = (fv_cont V d)(n := []) \<and> fv_names V d' = fv_names V d - {n} \<or>
    (\<exists>e. r = Inl e) \<and> fv_cont V d' = fv_cont V d \<and> fv_names V d' = fv_names V d"
  by (simp add: fjall_ok_def fj_delete_ok_def)

lemma fjall_tx_get_law:
  "fjall_ok F V \<Longrightarrow> fj_tx_get F n k d = (r, d') \<Longrightarrow>
    fv_same V d d' \<and> (\<forall>v. r = Inr v \<longrightarrow> v = map_of (fv_tx V d n) k)"
  by (simp add: fjall_ok_def fj_tx_get_ok_def)

lemma fjall_tx_commit_law:
  "fjall_ok F V \<Longrightarrow> fj_tx_commit F d = (r, d') \<Longrightarrow> fv_names V d' = fv_names V d \<and>
    (fv_cont V d' = fv_tx V d \<or> (\<exists>e. r = Inl e) \<and> fv_cont V d' = fv_cont V d)"
  by (simp add: fjall_ok_def fj_commit_ok_def)

lemma fjall_tx_steps_law:
  assumes "fjall_ok F V"
  shows "fv_cont V (fj_write_tx F d) = fv_cont V d" "fv_tx V (fj_write_tx F d) = fv_cont V d"
    "fv_names V (fj_write_tx F d) = fv_names V d"
    "n \<in> fv_names V d \<Longrightarrow> fv_cont V (fj_tx_insert F n k v d) = fv_cont V d"
    "n \<in> fv_names V d \<Longrightarrow> fv_tx V (fj_tx_insert F n k v d) = cont_ins n k v (fv_tx V d)"
    "n \<in> fv_names V d \<Longrightarrow> fv_names V (fj_tx_insert F n k v d) = fv_names V d"
    "n \<in> fv_names V d \<Longrightarrow> fv_cont V (fj_tx_remove F n k d) = fv_cont V d"
    "n \<in> fv_names V d \<Longrightarrow> fv_tx V (fj_tx_remove F n k d) = cont_del n k (fv_tx V d)"
    "n \<in> fv_names V d \<Longrightarrow> fv_names V (fj_tx_remove F n k d) = fv_names V d"
    "fv_cont V (fj_tx_rollback F d) = fv_cont V d" "fv_names V (fj_tx_rollback F d) = fv_names V d"
  using assms by (simp_all add: fjall_ok_def fj_begin_ok_def fj_tx_insert_ok_def fj_tx_remove_ok_def fj_rollback_ok_def)

lemma db_err_eq:
  "db_err w f s = (r, s') \<longleftrightarrow> (\<exists>q d. f (fst_db s) = (q, d) \<and> r = map_err w q \<and> s' = s\<lparr>fst_db := d\<rparr>)"
  by (auto simp: db_err_def on_db_def split: prod.splits)

lemma get_partition_law:
  assumes inv: "fjall_inv F V s" and run: "get_partition F n s = (r, s')"
  shows "fjall_inv F V s' \<and> fst_tx s' = fst_tx s \<and> fjall_cont V s' = fjall_cont V s \<and> fjall_txv V s' = fjall_txv V s \<and>
    fjall_names V s \<subseteq> fjall_names V s' \<and> fjall_names V s' \<subseteq> insert n (fjall_names V s) \<and>
    (r = Inr () \<longrightarrow> n \<in> fjall_names V s')"
proof (cases "n \<in> set (fst_cache s)")
  case True
  then show ?thesis using assms by (auto simp: get_partition_def fjall_inv_def fjall_names_def)
next
  case False
  obtain q d where d: "fj_keyspace F n (fst_db s) = (q, d)" by (cases "fj_keyspace F n (fst_db s)")
  from fjall_keyspace_law [OF fjall_inv_okD [OF inv] d] False d run inv show ?thesis
    by (cases q) (auto simp: get_partition_def db_err_def on_db_def bindM_def modifyM_def fjall_inv_def
        fjall_cont_def fjall_txv_def fjall_names_def)
qed

text \<open>A lookup fails only when a call of fjall does: opening a keyspace or getting a key.\<close>

definition fjall_fault :: "'d fjall \<Rightarrow> meta_error \<Rightarrow> bool" where
  "fjall_fault F e \<longleftrightarrow> (\<exists>w. e = OtherDBError w \<and>
     ((\<exists>n d d'. fj_keyspace F n d = (Inl w, d')) \<or> (\<exists>n k d d'. fj_get F n k d = (Inl w, d'))))"

lemma db_err_fault:
  assumes "db_err wrap f s = (Inl e, s')"
  shows "\<exists>w d d'. e = wrap w \<and> f d = (Inl w, d')"
proof -
  from assms obtain q d where "f (fst_db s) = (q, d)" "Inl e = map_err wrap q" by (auto simp: db_err_eq)
  then show ?thesis by (cases q) auto
qed

lemma get_partition_fault:
  assumes "get_partition F n s = (Inl e, s')"
  shows "\<exists>s''. db_err OtherDBError (fj_keyspace F n) s = (Inl e, s'')"
proof -
  obtain q s1 where q: "db_err OtherDBError (fj_keyspace F n) s = (q, s1)" by (cases "db_err OtherDBError (fj_keyspace F n) s")
  have "q = Inl e" using assms q by (cases q) (auto simp: get_partition_def bindM_def modifyM_def split: if_splits)
  then show ?thesis using q by simp
qed

lemma read_fault_fjall: "read_fault (fjall_store_ops F mode) e \<Longrightarrow> fjall_fault F e"
  unfolding read_fault_def fjall_fault_def fjall_store_ops_def fjall_tree_open_def fjall_get_def
  by (auto dest!: get_partition_fault db_err_fault)

lemma txdb_persist_law:
  assumes "fjall_inv F V s" "txdb_persist F mode s = (r, s')"
  shows "fjall_inv F V s' \<and> fst_tx s' = fst_tx s \<and> fjall_cont V s' = fjall_cont V s \<and> fjall_txv V s' = fjall_txv V s \<and>
    fjall_names V s' = fjall_names V s"
  using assms fjall_persist_law [OF fjall_inv_okD [OF assms(1)]] fjall_inv_same [OF assms(1)]
  by (auto simp: txdb_persist_def db_err_eq fjall_cont_def fjall_txv_def fjall_names_def fv_same_def)

lemma persist_after_law:
  assumes "fjall_inv F V s" "persist_after F mode n s = (r, s')"
  shows "fjall_inv F V s' \<and> fst_tx s' = fst_tx s \<and> fjall_cont V s' = fjall_cont V s \<and> fjall_txv V s' = fjall_txv V s \<and>
    fjall_names V s' = fjall_names V s"
  using assms txdb_persist_law [OF assms(1)]
  by (auto simp: persist_after_def ret_def split: ack_persist.splits)

lemma fjall_inv_write:
  assumes "fjall_inv F V s" "\<not> fst_tx s" "fv_names V d = fv_names V (fst_db s)" "n \<in> fv_names V d"
    and "fv_cont V d = cont_ins n k v (fv_cont V (fst_db s)) \<or> fv_cont V d = cont_del n k (fv_cont V (fst_db s)) \<or>
      fv_cont V d = fv_cont V (fst_db s)"
  shows "fjall_inv F V (s\<lparr>fst_db := d\<rparr>)"
proof -
  have "cont_ok (fv_cont V d)" using assms(1,5) by (auto simp: fjall_inv_def)
  moreover have "fv_cont V d m = []" if "m \<notin> fv_names V d" for m
  proof -
    from that assms(4) have "m \<noteq> n" by auto
    then have "fv_cont V d m = fv_cont V (fst_db s) m" using assms(5) by auto
    then show ?thesis using that assms(1,3) by (simp add: fjall_inv_def)
  qed
  ultimately show ?thesis using assms(1-3) by (simp add: fjall_inv_def)
qed

lemma fjall_delete_step:
  assumes inv: "fjall_inv F V s" and tx: "\<not> fst_tx s" and run: "fjall_tree_delete F n s = (r, s')"
  shows "fjall_inv F V s' \<and> \<not> fst_tx s' \<and>
    (fjall_cont V s' = (fjall_cont V s)(n := []) \<and> fjall_names V s' = fjall_names V s - {n} \<or>
     (\<exists>e. r = Inl e) \<and> fjall_cont V s' = fjall_cont V s \<and>
       fjall_names V s \<subseteq> fjall_names V s' \<and> fjall_names V s' \<subseteq> insert n (fjall_names V s))"
proof -
  obtain q s1 where p: "get_partition F n s = (q, s1)" by (cases "get_partition F n s")
  note g = get_partition_law [OF inv p]
  show ?thesis
  proof (cases q)
    case (Inl e)
    then show ?thesis using g p run tx by (auto simp: fjall_tree_delete_def bindM_def)
  next
    case (Inr u)
    obtain q2 d where d: "fj_delete_keyspace F n (fst_db s1) = (q2, d)"
      by (cases "fj_delete_keyspace F n (fst_db s1)")
    have s': "s' = s1\<lparr>fst_cache := removeAll n (fst_cache s1), fst_db := d\<rparr>" and r: "r = map_err OtherDBError q2"
      using Inr p d run by (auto simp: fjall_tree_delete_def bindM_def modifyM_def db_err_def on_db_def)
    have n: "n \<in> fv_names V (fst_db s1)" using g Inr by (simp add: fjall_names_def)
    from fjall_delete_law [OF fjall_inv_okD [OF inv] n d] g s' r tx n show ?thesis
      by (auto simp: fjall_inv_def fjall_cont_def fjall_txv_def fjall_names_def cont_ok_def)
  qed
qed

lemma fjall_insert_step:
  assumes inv: "fjall_inv F V s" and tx: "\<not> fst_tx s" and n: "n \<in> fjall_names V s"
    and run: "fjall_insert F mode n k v s = (r, s')"
  shows "fjall_inv F V s' \<and> \<not> fst_tx s' \<and> fjall_names V s' = fjall_names V s \<and>
    (fjall_cont V s' = cont_ins n k v (fjall_cont V s) \<or> (\<exists>e. r = Inl e) \<and> fjall_cont V s' = fjall_cont V s)"
proof -
  obtain q d where d: "fj_insert F n k v (fst_db s) = (q, d)" by (cases "fj_insert F n k v (fst_db s)")
  let ?s1 = "s\<lparr>fst_db := d\<rparr>"
  note l = fjall_insert_law [OF fjall_inv_okD [OF inv] n [unfolded fjall_names_def] d]
  have inv1: "fjall_inv F V ?s1"
  proof (rule fjall_inv_write [OF inv tx])
    show "fv_names V d = fv_names V (fst_db s)" using l by (rule conjunct1)
    then show "n \<in> fv_names V d" using n by (simp add: fjall_names_def)
    show "fv_cont V d = cont_ins n k v (fv_cont V (fst_db s)) \<or>
        fv_cont V d = cont_del n k (fv_cont V (fst_db s)) \<or> fv_cont V d = fv_cont V (fst_db s)"
      using l by blast
  qed
  show ?thesis
  proof (cases q)
    case (Inl e)
    then have "s' = ?s1" "r = Inl (OtherDBError e)"
      using d run by (simp_all add: fjall_insert_def bindM_def db_err_def on_db_def)
    then show ?thesis using l inv1 tx unfolding fjall_cont_def fjall_names_def by simp blast
  next
    case (Inr u)
    then have "persist_after F mode n ?s1 = (r, s')"
      using d run by (simp add: fjall_insert_def bindM_def db_err_def on_db_def)
    from persist_after_law [OF inv1 this] l Inr tx show ?thesis
      by (simp add: fjall_cont_def fjall_names_def)
  qed
qed

lemma fjall_remove_step:
  assumes inv: "fjall_inv F V s" and tx: "\<not> fst_tx s" and n: "n \<in> fjall_names V s"
    and run: "fjall_remove F mode n k s = (r, s')"
  shows "fjall_inv F V s' \<and> \<not> fst_tx s' \<and> fjall_names V s' = fjall_names V s \<and>
    (fjall_cont V s' = cont_del n k (fjall_cont V s) \<or> (\<exists>e. r = Inl e) \<and> fjall_cont V s' = fjall_cont V s) \<and>
    (\<forall>b. r = Inr b \<longrightarrow> b = (map_of (fjall_cont V s n) k \<noteq> None))"
proof -
  obtain q0 d0 where d0: "fj_contains_key F n k (fst_db s) = (q0, d0)"
    by (cases "fj_contains_key F n k (fst_db s)")
  note c = fjall_contains_law [OF fjall_inv_okD [OF inv] d0]
  let ?s0 = "s\<lparr>fst_db := d0\<rparr>"
  have inv0: "fjall_inv F V ?s0" using fjall_inv_same [OF inv] c by blast
  have n0: "n \<in> fv_names V d0" using n c by (simp add: fv_same_def fjall_names_def)
  obtain q d where d: "fj_remove F n k d0 = (q, d)" by (cases "fj_remove F n k d0")
  let ?s1 = "s\<lparr>fst_db := d\<rparr>"
  note l = fjall_remove_law [OF fjall_inv_okD [OF inv] n0 d]
  have "fjall_inv F V (?s0\<lparr>fst_db := d\<rparr>)"
  proof (rule fjall_inv_write [OF inv0])
    show "\<not> fst_tx ?s0" using tx by simp
    show names: "fv_names V d = fv_names V (fst_db ?s0)" using l by simp
    then show "n \<in> fv_names V d" using n0 by simp
    show "fv_cont V d = cont_ins n k [] (fv_cont V (fst_db ?s0)) \<or>
        fv_cont V d = cont_del n k (fv_cont V (fst_db ?s0)) \<or> fv_cont V d = fv_cont V (fst_db ?s0)"
      using l by (simp, blast)
  qed
  then have inv1: "fjall_inv F V ?s1" by simp
  show ?thesis
  proof (cases q0)
    case (Inl e)
    then have "s' = ?s0" "r = Inl (OtherDBError e)"
      using d0 run by (simp_all add: fjall_remove_def bindM_def db_err_def on_db_def)
    then show ?thesis using inv0 tx c by (simp add: fjall_cont_def fjall_names_def fv_same_def)
  next
    case (Inr existed)
    note ex = this
    show ?thesis
    proof (cases q)
      case (Inl e)
      then have "s' = ?s1" "r = Inl (OtherDBError e)"
        using ex d0 d run by (simp_all add: fjall_remove_def bindM_def db_err_def on_db_def)
      then show ?thesis using inv1 tx c l
        unfolding fjall_cont_def fjall_names_def fv_same_def by simp blast
    next
      case (Inr u)
      obtain q2 s2 where p: "persist_after F mode n ?s1 = (q2, s2)" by (cases "persist_after F mode n ?s1")
      have "s' = s2 \<and> (r = Inr existed \<or> (\<exists>e. r = Inl e))"
        using ex Inr d0 d run p
        by (cases q2) (auto simp: fjall_remove_def bindM_def db_err_def on_db_def ret_def)
      then have s': "s' = s2" and r: "r = Inr existed \<or> (\<exists>e. r = Inl e)" by blast+
      have b: "existed = (map_of (fjall_cont V s n) k \<noteq> None)"
        using ex c unfolding fjall_cont_def by blast
      have same: "fv_cont V d0 = fv_cont V (fst_db s)" "fv_names V d0 = fv_names V (fst_db s)"
        using c unfolding fv_same_def by blast+
      have "fv_cont V d = cont_del n k (fv_cont V d0)" "fv_names V d = fv_names V d0"
        using l Inr by blast+
      then have "fjall_cont V ?s1 = cont_del n k (fjall_cont V s)" "fjall_names V ?s1 = fjall_names V s"
        by (simp_all add: fjall_cont_def fjall_names_def same)
      moreover note persist_after_law [OF inv1 p]
      ultimately have s2: "fjall_inv F V s2" "\<not> fst_tx s2" "fjall_names V s2 = fjall_names V s"
        "fjall_cont V s2 = cont_del n k (fjall_cont V s)"
        using tx by simp_all
      have "\<forall>b. r = Inr b \<longrightarrow> b = (map_of (fjall_cont V s n) k \<noteq> None)"
        using r b by blast
      with s2 show ?thesis unfolding s' by blast
    qed
  qed
qed

lemma filter_after_cursor:
  "filter (\<lambda>(k, v). in_range (Some (case cur of Some c \<Rightarrow> c @ [0] | None \<Rightarrow> [])) None k) m =
   filter (\<lambda>(k, v). case cur of None \<Rightarrow> True | Some c \<Rightarrow> c < k) m"
  by (rule filter_cong) (auto simp: in_range_def append_zero_le_iff split: option.splits)

lemma fjall_iter_step:
  assumes inv: "fjall_inv F V s" and run: "fjall_iter_next F n cur s = ((item, cur'), s')"
  shows "fjall_inv F V s' \<and> fst_tx s' = fst_tx s \<and> fjall_cont V s' = fjall_cont V s \<and> fjall_txv V s' = fjall_txv V s \<and>
    fjall_names V s' = fjall_names V s \<and>
    (let rest = filter (\<lambda>(k, v). case cur of None \<Rightarrow> True | Some c \<Rightarrow> c < k) (fjall_cont V s n) in
     case item of
       None \<Rightarrow> rest = []
     | Some (Inr (k, v)) \<Rightarrow> rest \<noteq> [] \<and> hd rest = (k, v) \<and> cur' = Some k
     | Some (Inl e) \<Rightarrow> rest \<noteq> [] \<and> cur' = cur)"
proof -
  let ?lo = "case cur of Some k \<Rightarrow> k @ [0] | None \<Rightarrow> []"
  obtain gs d where d: "fj_range F n (Some ?lo) None (fst_db s) = (gs, d)"
    by (cases "fj_range F n (Some ?lo) None (fst_db s)")
  from fjall_range_law [OF fjall_inv_okD [OF inv] d] have same: "fv_same V (fst_db s) d"
    and gs: "guards_of gs (filter (\<lambda>(k, v). case cur of None \<Rightarrow> True | Some c \<Rightarrow> c < k) (fv_cont V (fst_db s) n))"
    by (simp_all only: filter_after_cursor)
  let ?rest = "filter (\<lambda>(k, v). case cur of None \<Rightarrow> True | Some c \<Rightarrow> c < k) (fv_cont V (fst_db s) n)"
  have s': "s' = s\<lparr>fst_db := d\<rparr>"
    using run d by (auto simp: fjall_iter_next_def on_db_def Let_def split: list.splits prod.splits)
  have "case item of
       None \<Rightarrow> ?rest = []
     | Some (Inr (k, v)) \<Rightarrow> ?rest \<noteq> [] \<and> hd ?rest = (k, v) \<and> cur' = Some k
     | Some (Inl e) \<Rightarrow> ?rest \<noteq> [] \<and> cur' = cur"
  proof (cases gs)
    case Nil
    then show ?thesis using run d gs by (simp add: fjall_iter_next_def on_db_def guards_of_def)
  next
    case (Cons g gs')
    then obtain e es where rest: "?rest = e # es" "\<forall>kv. g = Inr kv \<longrightarrow> kv = e"
      using gs unfolding guards_of_def Cons list_all2_Cons1 by blast
    show ?thesis using run d Cons rest
      by (cases g) (auto simp: fjall_iter_next_def on_db_def advance_def split: prod.splits)
  qed
  then show ?thesis
    using s' same fjall_inv_same [OF inv same]
    by (simp add: fjall_cont_def fjall_txv_def fjall_names_def fv_same_def Let_def)
qed

lemma fjall_read_step:
  assumes inv: "fjall_inv F V s" and run: "db_err w f s = (r, s')"
    and law: "\<And>q d. f (fst_db s) = (q, d) \<Longrightarrow> fv_same V (fst_db s) d \<and> (\<forall>v. q = Inr v \<longrightarrow> v = x)"
  shows "fjall_inv F V s' \<and> fst_tx s' = fst_tx s \<and> fjall_cont V s' = fjall_cont V s \<and>
    fjall_txv V s' = fjall_txv V s \<and> fjall_names V s' = fjall_names V s \<and> (\<forall>v. r = Inr v \<longrightarrow> v = x)"
proof -
  from run obtain q d where d: "f (fst_db s) = (q, d)" "r = map_err w q" "s' = s\<lparr>fst_db := d\<rparr>"
    by (auto simp: db_err_eq)
  with law [OF d(1)] fjall_inv_same [OF inv, of d] show ?thesis
    by (simp add: fjall_cont_def fjall_txv_def fjall_names_def fv_same_def)
qed

lemma fjall_begin_step:
  assumes "fjall_inv F V s" "\<not> fst_tx s"
  shows "fjall_inv F V (fjall_begin_transaction F s)" "fst_tx (fjall_begin_transaction F s)"
    "fjall_cont V (fjall_begin_transaction F s) = fjall_cont V s"
    "fjall_txv V (fjall_begin_transaction F s) = fjall_cont V s"
    "fjall_names V (fjall_begin_transaction F s) = fjall_names V s"
  using assms fjall_tx_steps_law [OF fjall_inv_okD [OF assms(1)]]
  by (simp_all add: fjall_begin_transaction_def fjall_inv_def fjall_cont_def fjall_txv_def fjall_names_def)

lemma fjall_tx_get_step:
  assumes inv: "fjall_inv F V s" and tx: "fst_tx s" and run: "fjall_tx_get F n k s = (r, s')"
  shows "fjall_inv F V s' \<and> fst_tx s' \<and> fjall_cont V s' = fjall_cont V s \<and> fjall_txv V s' = fjall_txv V s \<and>
    fjall_names V s \<subseteq> fjall_names V s' \<and> fjall_names V s' \<subseteq> insert n (fjall_names V s) \<and>
    (\<forall>v. r = Inr v \<longrightarrow> v = map_of (fjall_txv V s n) k)"
proof -
  obtain q s1 where p: "get_partition F n s = (q, s1)" by (cases "get_partition F n s")
  note g = get_partition_law [OF inv p]
  show ?thesis
  proof (cases q)
    case (Inl e)
    then have "s' = s1" "r = Inl e" using p run by (simp_all add: fjall_tx_get_def bindM_def)
    then show ?thesis using g tx by simp
  next
    case (Inr u)
    then have "db_err OtherDBError (fj_tx_get F n k) s1 = (r, s')"
      using p run g tx by (simp add: fjall_tx_get_def bindM_def)
    from fjall_read_step [OF _ this, where V = V and F = F and x = "map_of (fjall_txv V s1 n) k"] g
    show ?thesis using fjall_tx_get_law [OF fjall_inv_okD [OF inv]] tx by (simp add: fjall_txv_def)
  qed
qed

lemma fjall_tx_insert_step:
  assumes inv: "fjall_inv F V s" and tx: "fst_tx s" and run: "fjall_tx_insert F n k v s = (r, s')"
  shows "fjall_inv F V s' \<and> fst_tx s' \<and> fjall_cont V s' = fjall_cont V s \<and>
    fjall_names V s \<subseteq> fjall_names V s' \<and> fjall_names V s' \<subseteq> insert n (fjall_names V s) \<and>
    fjall_txv V s' = (if r = Inr () then cont_ins n k v (fjall_txv V s) else fjall_txv V s)"
proof -
  obtain q s1 where p: "get_partition F n s = (q, s1)" by (cases "get_partition F n s")
  note g = get_partition_law [OF inv p]
  show ?thesis
  proof (cases q)
    case (Inl e)
    then have "s' = s1" "r = Inl e" using p run by (simp_all add: fjall_tx_insert_def bindM_def)
    then show ?thesis using g tx by simp
  next
    case (Inr u)
    then have s': "s' = s1\<lparr>fst_db := fj_tx_insert F n k v (fst_db s1)\<rparr>" and r: "r = Inr ()"
      using p run g tx by (simp_all add: fjall_tx_insert_def bindM_def)
    have n: "n \<in> fv_names V (fst_db s1)" using g Inr by (simp add: fjall_names_def)
    note l = fjall_tx_steps_law [OF fjall_inv_okD [OF inv]]
    have "fjall_inv F V s'"
      using g tx n by (auto simp: s' fjall_inv_def l cont_ins_def cont_ok_def)
    then show ?thesis using g tx n r by (simp add: s' l fjall_cont_def fjall_txv_def fjall_names_def)
  qed
qed

lemma fjall_tx_remove_step:
  assumes inv: "fjall_inv F V s" and tx: "fst_tx s" and run: "fjall_tx_remove F n k s = (r, s')"
  shows "fjall_inv F V s' \<and> fst_tx s' \<and> fjall_cont V s' = fjall_cont V s \<and>
    fjall_names V s \<subseteq> fjall_names V s' \<and> fjall_names V s' \<subseteq> insert n (fjall_names V s) \<and>
    fjall_txv V s' = (if r = Inr () then cont_del n k (fjall_txv V s) else fjall_txv V s)"
proof -
  obtain q s1 where p: "get_partition F n s = (q, s1)" by (cases "get_partition F n s")
  note g = get_partition_law [OF inv p]
  show ?thesis
  proof (cases q)
    case (Inl e)
    then have "s' = s1" "r = Inl e" using p run by (simp_all add: fjall_tx_remove_def bindM_def)
    then show ?thesis using g tx by simp
  next
    case (Inr u)
    then have s': "s' = s1\<lparr>fst_db := fj_tx_remove F n k (fst_db s1)\<rparr>" and r: "r = Inr ()"
      using p run g tx by (simp_all add: fjall_tx_remove_def bindM_def)
    have n: "n \<in> fv_names V (fst_db s1)" using g Inr by (simp add: fjall_names_def)
    note l = fjall_tx_steps_law [OF fjall_inv_okD [OF inv]]
    have "fjall_inv F V s'"
      using g tx n by (auto simp: s' fjall_inv_def l cont_del_def cont_ok_def)
    then show ?thesis using g tx n r by (simp add: s' l fjall_cont_def fjall_txv_def fjall_names_def)
  qed
qed

lemma fjall_commit_step:
  assumes inv: "fjall_inv F V s" and tx: "fst_tx s" and run: "fjall_tx_commit F mode s = (r, s')"
  shows "fjall_inv F V s' \<and> \<not> fst_tx s' \<and> fjall_names V s' = fjall_names V s \<and>
    (fjall_cont V s' = fjall_txv V s \<or> (\<exists>e. r = Inl e) \<and> fjall_cont V s' = fjall_cont V s)"
proof -
  obtain q d where d: "fj_tx_commit F (fst_db s) = (q, d)" by (cases "fj_tx_commit F (fst_db s)")
  note l = fjall_tx_commit_law [OF fjall_inv_okD [OF inv] d]
  let ?s1 = "s\<lparr>fst_tx := False, fst_db := d\<rparr>"
  have inv1: "fjall_inv F V ?s1"
    using l inv tx by (elim conjE disjE) (simp_all add: fjall_inv_def)
  show ?thesis
  proof (cases q)
    case (Inl e)
    then have "s' = ?s1" "r = Inl (TransactionError e)"
      using d run tx by (simp_all add: fjall_tx_commit_def commit_persist_def bindM_def db_err_def on_db_def)
    then show ?thesis using inv1 l by (simp add: fjall_names_def fjall_cont_def fjall_txv_def) blast
  next
    case (Inr u)
    then have "txdb_persist F mode ?s1 = (r, s')"
      using d run tx by (simp add: fjall_tx_commit_def commit_persist_def bindM_def db_err_def on_db_def)
    from txdb_persist_law [OF inv1 this] l Inr show ?thesis
      by (simp add: fjall_names_def fjall_cont_def fjall_txv_def)
  qed
qed

lemma fjall_rollback_step:
  assumes "fjall_inv F V s" "fst_tx s"
  shows "fjall_inv F V (fjall_tx_rollback F s)" "\<not> fst_tx (fjall_tx_rollback F s)"
    "fjall_cont V (fjall_tx_rollback F s) = fjall_cont V s"
    "fjall_names V (fjall_tx_rollback F s) = fjall_names V s"
  using assms fjall_tx_steps_law [OF fjall_inv_okD [OF assms(1)]]
  by (simp_all add: fjall_tx_rollback_def fjall_inv_def fjall_cont_def fjall_names_def)

definition fjall_holds :: "'d fjall \<Rightarrow> 'd fjall_view \<Rightarrow> string set \<Rightarrow> 'd fjall_store \<Rightarrow> bool" where
  "fjall_holds F V K s \<longleftrightarrow> fjall_inv F V s \<and> K \<subseteq> fjall_names V s"

interpretation fjs: store_contract "fjall_store_ops F mode" "fjall_holds F V K" fst_tx "fjall_cont V"
  "fjall_txv V" "fjall_names V" K for F mode V K
proof (unfold_locales, goal_cases)
  case (6 s n r s')
  then show ?case using get_partition_law [of F V s n r s']
    by (auto simp: fjall_store_ops_def fjall_tree_open_def fjall_holds_def)
next
  case (7 s n rb s')
  then have "fjall_inv F V s" by (simp add: fjall_holds_def)
  with 7 show ?case
    using fjall_names_law [OF fjall_inv_okD, of F V s]
    by (auto simp: fjall_store_ops_def fjall_tree_exists_def getsM_def fjall_names_def)
next
  case (8 s rl s')
  then have "fjall_inv F V s" by (simp add: fjall_holds_def)
  with 8 show ?case
    using fjall_names_law [OF fjall_inv_okD, of F V s]
    by (auto simp: fjall_store_ops_def fjall_list_trees_def getsM_def fjall_names_def)
next
  case (9 s n r s')
  then show ?case using fjall_delete_step [of F V s n r s'] by (auto simp: fjall_store_ops_def fjall_holds_def)
next
  case (10 s n k v r s')
  then show ?case using fjall_insert_step [of F V s n mode k v r s'] by (simp add: fjall_store_ops_def fjall_holds_def)
next
  case (11 s n k rb s')
  then show ?case using fjall_remove_step [of F V s n mode k rb s'] by (simp add: fjall_store_ops_def fjall_holds_def)
next
  case (12 s n k rb s')
  then have inv: "fjall_inv F V s" and "db_err (\<lambda>_. KeyNotFound) (fj_contains_key F n k) s = (rb, s')"
    by (simp_all add: fjall_store_ops_def fjall_contains_key_def fjall_holds_def)
  from fjall_read_step [OF this, where x = "map_of (fjall_cont V s n) k \<noteq> None"]
  show ?case using 12(1) fjall_contains_law [OF fjall_inv_okD [OF inv]] by (simp add: fjall_cont_def fjall_holds_def)
next
  case (13 s n k rv s')
  then have inv: "fjall_inv F V s" and "db_err OtherDBError (fj_get F n k) s = (rv, s')"
    by (simp_all add: fjall_store_ops_def fjall_get_def fjall_holds_def)
  from fjall_read_step [OF this, where x = "map_of (fjall_cont V s n) k"]
  show ?case using 13(1) fjall_get_law [OF fjall_inv_okD [OF inv]]
    by (simp add: fjall_cont_def fjall_holds_def)
next
  case (14 s n rn s')
  then have inv: "fjall_inv F V s" and "db_err OtherDBError (fj_len F n) s = (rn, s')"
    by (simp_all add: fjall_store_ops_def fjall_len_def fjall_holds_def)
  from fjall_read_step [OF this, where x = "length (fjall_cont V s n)"]
  show ?case using 14(1) fjall_len_law [OF fjall_inv_okD [OF inv]] by (simp add: fjall_cont_def fjall_holds_def)
next
  case (15 s n cur item cur' s')
  then show ?case using fjall_iter_step [of F V s n cur item cur' s'] by (simp add: fjall_store_ops_def fjall_holds_def)
next
  case (16 s)
  then show ?case using fjall_begin_step [of F V s] by (simp add: fjall_store_ops_def fjall_holds_def)
next
  case (17 s n k rv s')
  then show ?case using fjall_tx_get_step [of F V s n k rv s'] by (auto simp: fjall_store_ops_def fjall_holds_def)
next
  case (18 s n k v r s')
  then show ?case using fjall_tx_insert_step [of F V s n k v r s'] by (auto simp: fjall_store_ops_def fjall_holds_def)
next
  case (19 s n k r s')
  then show ?case using fjall_tx_remove_step [of F V s n k r s'] by (auto simp: fjall_store_ops_def fjall_holds_def)
next
  case (20 s r s')
  then show ?case using fjall_commit_step [of F V s mode r s'] by (simp add: fjall_store_ops_def fjall_holds_def)
next
  case (21 s)
  then show ?case using fjall_rollback_step [of F V s] by (simp add: fjall_store_ops_def fjall_holds_def)
qed (simp_all add: fjall_inv_def fjall_cont_def fjall_txv_def fjall_names_def fjall_holds_def)

lemma mem_guards: "guards_of (map Inr es) es"
  by (simp add: guards_of_def list_all2_conv_all_nth)

lemma mem_fjall_ok: "fjall_ok mem_fjall mem_view"
  unfolding fjall_ok_def
  by (intro conjI)
    (auto simp: fj_get_ok_def fj_contains_ok_def fj_len_ok_def fj_range_ok_def fj_prefix_ok_def fj_names_ok_def
      fj_insert_ok_def fj_remove_ok_def fj_persist_ok_def fj_keyspace_ok_def fj_delete_ok_def fj_begin_ok_def
      fj_tx_get_ok_def fj_tx_insert_ok_def fj_tx_remove_ok_def fj_commit_ok_def fj_rollback_ok_def
      fv_same_def mem_fjall_def mem_view_def getsM_def modifyM_def ret_def mem_guards)

lemma mem_empty_inv: "fjall_inv mem_fjall mem_view mem_empty"
  unfolding fjall_inv_def by (rule conjI [OF mem_fjall_ok]) (simp add: mem_empty_def mem_view_def cont_ok_def)

end
