(* ===== verification/MetaStore.thy ===== *)
theory MetaStore
  imports FjallStore
begin

section \<open>The metadata store and its transactions\<close>

text \<open>
  \<open>Transaction\<close> (\<open>metastore/meta_store/transaction.rs\<close>), \<open>BlockTree\<close> (\<open>meta_store/block_tree.rs\<close>) and
  \<open>MetaStore\<close> (\<open>meta_store/ops.rs\<close>), written against the store traits: each definition takes the
  store's methods as its first argument. The lemmas are proved once, from the contract of
  the traits; the last section instantiates them with the fjall backend.
\<close>

subsection \<open>Trees\<close>

definition DEFAULT_BUCKET_TREE :: string where
  "DEFAULT_BUCKET_TREE = ''_BUCKETS''"

definition DEFAULT_BLOCK_TREE :: string where
  "DEFAULT_BLOCK_TREE = ''_BLOCKS''"

definition DEFAULT_USAGE_TREE :: string where
  "DEFAULT_USAGE_TREE = ''_USAGE''"

definition decode_usage :: "string \<Rightarrow> bytes \<Rightarrow> meta_error + u64" where
  "decode_usage bucket raw =
    (if length raw = 8 then Inr (u64_from_le_bytes raw)
     else Inl (OtherDBError (''the usage counter of '' @ bucket @ '' is '' @
       show_nat (length raw) @ '' bytes, not 8'')))"

subsection \<open>Transactions\<close>

datatype block_decrement = Missing | Decremented block | Removed block

definition bump_block_rc :: "'s store_ops \<Rightarrow> block_id \<Rightarrow> ('s, meta_error, block option) act" where
  "bump_block_rc S block_hash =
    bindM (tx_get S DEFAULT_BLOCK_TREE (as_slice block_hash)) (\<lambda>r. case r of
      None \<Rightarrow> ret None
    | Some block_data \<Rightarrow>
        bindM (liftE (corrupt (block_try_from block_data))) (\<lambda>block.
          if is_degraded block then ret None
          else let block = increment_refcount block in
            bindM (tx_insert S DEFAULT_BLOCK_TREE (as_slice block_hash) (block_to_vec block)) (\<lambda>_.
              ret (Some block))))"

definition take_object :: "'s store_ops \<Rightarrow> string \<Rightarrow> bytes \<Rightarrow> ('s, meta_error, object option) act" where
  "take_object S bucket key =
    bindM (tx_get S bucket key) (\<lambda>r. case r of
      None \<Rightarrow> ret None
    | Some raw \<Rightarrow>
        bindM (liftE (corrupt (object_try_from raw))) (\<lambda>ob.
        bindM (tx_remove S bucket key) (\<lambda>_. ret (Some ob))))"

definition replace_object ::
  "'s store_ops \<Rightarrow> string \<Rightarrow> bytes \<Rightarrow> bytes \<Rightarrow> ('s, meta_error, object option) act" where
  "replace_object S bucket key raw_obj =
    bindM (tx_get S bucket key) (\<lambda>r.
    bindM (case r of
        Some raw \<Rightarrow> bindM (liftE (corrupt (object_try_from raw))) (\<lambda>ob. ret (Some ob))
      | None \<Rightarrow> ret None) (\<lambda>displaced.
    bindM (tx_insert S bucket key raw_obj) (\<lambda>_. ret displaced)))"

definition get_bucket_record :: "'s store_ops \<Rightarrow> string \<Rightarrow> ('s, meta_error, bytes option) act" where
  "get_bucket_record S bucket_name = tx_get S DEFAULT_BUCKET_TREE (as_bytes bucket_name)"

definition put_bucket_record :: "'s store_ops \<Rightarrow> string \<Rightarrow> bytes \<Rightarrow> ('s, meta_error, unit) act" where
  "put_bucket_record S bucket_name raw_bucket =
    tx_insert S DEFAULT_BUCKET_TREE (as_bytes bucket_name) raw_bucket"

definition unsigned_abs :: "i64 \<Rightarrow> u64" where
  "unsigned_abs d = (if sint d < 0 then - d else d)"

definition usage_after :: "u64 \<Rightarrow> i64 \<Rightarrow> u64" where
  "usage_after current delta =
    (if 0 \<le> sint delta then saturating_add_u64 current (unsigned_abs delta)
     else let down = unsigned_abs delta in if current < down then 0 else current - down)"

definition add_bucket_usage :: "'s store_ops \<Rightarrow> string \<Rightarrow> i64 \<Rightarrow> ('s, meta_error, u64) act" where
  "add_bucket_usage S bucket delta =
    bindM (tx_get S DEFAULT_USAGE_TREE (as_bytes bucket)) (\<lambda>r.
    bindM (liftE (case r of Some raw \<Rightarrow> decode_usage bucket raw | None \<Rightarrow> Inr 0)) (\<lambda>current.
      let updated = usage_after current delta in
      bindM (tx_insert S DEFAULT_USAGE_TREE (as_bytes bucket) (u64_to_le_bytes updated)) (\<lambda>_. ret updated)))"

definition reset_bucket_usage :: "'s store_ops \<Rightarrow> string \<Rightarrow> ('s, meta_error, unit) act" where
  "reset_bucket_usage S bucket =
    tx_insert S DEFAULT_USAGE_TREE (as_bytes bucket) (u64_to_le_bytes 0)"

definition take_upload :: "'s store_ops \<Rightarrow> bytes \<Rightarrow> ('s, meta_error, upload_record option) act" where
  "take_upload S key =
    bindM (tx_get S UPLOADS_TREE key) (\<lambda>r. case r of
      None \<Rightarrow> ret None
    | Some raw \<Rightarrow>
        bindM (liftE (corrupt (upload_record_try_from raw))) (\<lambda>rec.
        bindM (tx_remove S UPLOADS_TREE key) (\<lambda>_. ret (Some rec))))"

definition take_part :: "'s store_ops \<Rightarrow> bytes \<Rightarrow> ('s, meta_error, bytes option) act" where
  "take_part S key =
    bindM (tx_get S MULTIPART_PARTS_TREE key) (\<lambda>r. case r of
      None \<Rightarrow> ret None
    | Some raw \<Rightarrow> bindM (tx_remove S MULTIPART_PARTS_TREE key) (\<lambda>_. ret (Some raw)))"

definition decrement_block_rc :: "'s store_ops \<Rightarrow> block_id \<Rightarrow> ('s, meta_error, block_decrement) act" where
  "decrement_block_rc S block_hash =
    bindM (tx_get S DEFAULT_BLOCK_TREE (as_slice block_hash)) (\<lambda>r. case r of
      None \<Rightarrow> ret Missing
    | Some raw \<Rightarrow>
        bindM (liftE (corrupt (block_try_from raw))) (\<lambda>block.
          if blk_rc block = 1 then
            bindM (tx_remove S DEFAULT_BLOCK_TREE (as_slice block_hash)) (\<lambda>_. ret (Removed block))
          else let block = decrement_refcount block in
            bindM (tx_insert S DEFAULT_BLOCK_TREE (as_slice block_hash) (block_to_vec block)) (\<lambda>_.
              ret (Decremented block))))"

definition insert_new_block ::
  "'s store_ops \<Rightarrow> block_id \<Rightarrow> usize \<Rightarrow> u8 \<Rightarrow> ('s, meta_error, block) act" where
  "insert_new_block S block_hash data_len depth =
    bindM (tx_get S DEFAULT_BLOCK_TREE (as_slice block_hash)) (\<lambda>r.
    bindM (case r of
        Some raw \<Rightarrow> bindM (liftE (corrupt (block_try_from raw))) (\<lambda>b. ret (Some b))
      | None \<Rightarrow> ret None) (\<lambda>present.
      let block = (case present of
          None \<Rightarrow> block_new data_len depth
        | Some p \<Rightarrow> let p = set_degraded False p in
            block_from_parts data_len depth (blk_rc p + 1) (blk_flags p)) in
      bindM (tx_insert S DEFAULT_BLOCK_TREE (as_slice block_hash) (block_to_vec block)) (\<lambda>_. ret block)))"

definition put_block_record :: "'s store_ops \<Rightarrow> block_id \<Rightarrow> block \<Rightarrow> ('s, meta_error, unit) act" where
  "put_block_record S block_hash block =
    tx_insert S DEFAULT_BLOCK_TREE (as_slice block_hash) (block_to_vec block)"

definition remove_block_record :: "'s store_ops \<Rightarrow> block_id \<Rightarrow> ('s, meta_error, unit) act" where
  "remove_block_record S block_hash = tx_remove S DEFAULT_BLOCK_TREE (as_slice block_hash)"

text \<open>The two ways a transaction ends besides \<open>commit\<close>: an explicit \<open>rollback\<close>, and being dropped with
  the error of the step that failed.\<close>

definition rollback :: "'s store_ops \<Rightarrow> ('s, 'e, unit) act" where
  "rollback S = modifyM (tx_rollback S)"

definition begin_transaction :: "'s store_ops \<Rightarrow> ('s, 'e, unit) act" where
  "begin_transaction S = modifyM (st_begin_transaction S)"

definition or_rollback :: "'s store_ops \<Rightarrow> ('s, 'e, 'a) act \<Rightarrow> ('s, 'e, 'a) act" where
  "or_rollback S m =
    bindM (tryM m) (\<lambda>r. case r of Inr x \<Rightarrow> ret x | Inl e \<Rightarrow> bindM (rollback S) (\<lambda>_. raise e))"

subsection \<open>Block tree\<close>

definition get_block :: "'s store_ops \<Rightarrow> bytes \<Rightarrow> ('s, meta_error, block option) act" where
  "get_block S key =
    bindM (tr_get S DEFAULT_BLOCK_TREE key) (\<lambda>r. case r of
      Some data \<Rightarrow> bindM (liftE (corrupt (block_try_from data))) (\<lambda>block. ret (Some block))
    | None \<Rightarrow> ret None)"

subsection \<open>Store operations\<close>

definition max_inlined_data_length :: "nat \<Rightarrow> nat" where
  "max_inlined_data_length inlined_metadata_size =
    (if inlined_metadata_size < minimum_inline_metadata_size then 0
     else inlined_metadata_size - minimum_inline_metadata_size)"

definition bucket_exists :: "'s store_ops \<Rightarrow> string \<Rightarrow> ('s, meta_error, bool) act" where
  "bucket_exists S bucket_name = st_tree_exists S bucket_name"

definition drop_bucket :: "'s store_ops \<Rightarrow> string \<Rightarrow> ('s, meta_error, unit) act" where
  "drop_bucket S name =
    bindM (st_tree_open S DEFAULT_BUCKET_TREE) (\<lambda>_.
    bindM (tr_remove S DEFAULT_BUCKET_TREE (as_bytes name)) (\<lambda>_.
    bindM (st_tree_open S DEFAULT_USAGE_TREE) (\<lambda>_.
    bindM (tr_remove S DEFAULT_USAGE_TREE (as_bytes name)) (\<lambda>_.
    bindM (bucket_exists S name) (\<lambda>ex.
      if ex then st_tree_delete S name else ret ())))))"

definition bucket_usage :: "'s store_ops \<Rightarrow> string \<Rightarrow> ('s, meta_error, u64 option) act" where
  "bucket_usage S bucket =
    bindM (st_tree_open S DEFAULT_USAGE_TREE) (\<lambda>_.
    bindM (tr_get S DEFAULT_USAGE_TREE (as_bytes bucket)) (\<lambda>r. case r of
      Some raw \<Rightarrow> bindM (liftE (decode_usage bucket raw)) (\<lambda>u. ret (Some u))
    | None \<Rightarrow> ret None))"

definition set_bucket_usage :: "'s store_ops \<Rightarrow> string \<Rightarrow> u64 \<Rightarrow> ('s, meta_error, unit) act" where
  "set_bucket_usage S bucket n =
    bindM (st_tree_open S DEFAULT_USAGE_TREE) (\<lambda>_.
      tr_insert S DEFAULT_USAGE_TREE (as_bytes bucket) (u64_to_le_bytes n))"

definition reserved_name :: "string \<Rightarrow> bool" where
  "reserved_name name \<longleftrightarrow> starts_with name ''_''"

definition insert_bucket :: "'s store_ops \<Rightarrow> string \<Rightarrow> bytes \<Rightarrow> ('s, meta_error, unit) act" where
  "insert_bucket S bucket_name raw_bucket =
    (if reserved_name bucket_name then raise (ReservedBucketName bucket_name)
     else
       bindM (st_tree_open S DEFAULT_BUCKET_TREE) (\<lambda>_.
       bindM (tr_insert S DEFAULT_BUCKET_TREE (as_bytes bucket_name) raw_bucket) (\<lambda>_.
       bindM (st_tree_open S bucket_name) (\<lambda>_.
         set_bucket_usage S bucket_name 0))))"

definition insert_bucket_if_absent :: "'s store_ops \<Rightarrow> string \<Rightarrow> bytes \<Rightarrow> ('s, meta_error, bool) act" where
  "insert_bucket_if_absent S bucket_name raw_bucket =
    (if reserved_name bucket_name then raise (ReservedBucketName bucket_name)
     else
       bindM (begin_transaction S) (\<lambda>_.
       bindM (or_rollback S (get_bucket_record S bucket_name)) (\<lambda>record.
         if record \<noteq> None then bindM (rollback S) (\<lambda>_. ret False)
         else
           bindM (or_rollback S
             (bindM (put_bucket_record S bucket_name raw_bucket) (\<lambda>_. reset_bucket_usage S bucket_name))) (\<lambda>_.
           bindM (tx_commit S) (\<lambda>_.
           bindM (st_tree_open S bucket_name) (\<lambda>_. ret True))))))"

definition insert_meta :: "'s store_ops \<Rightarrow> string \<Rightarrow> string \<Rightarrow> bytes \<Rightarrow> ('s, meta_error, unit) act" where
  "insert_meta S bucket_name key raw_obj =
    bindM (st_tree_open S bucket_name) (\<lambda>_. tr_insert S bucket_name (as_bytes key) raw_obj)"

definition get_meta :: "'s store_ops \<Rightarrow> string \<Rightarrow> bytes \<Rightarrow> ('s, meta_error, object option) act" where
  "get_meta S bucket_name key =
    bindM (st_tree_open S bucket_name) (\<lambda>_.
    bindM (tr_get S bucket_name key) (\<lambda>r. case r of
      Some data \<Rightarrow> bindM (liftE (corrupt (object_try_from data))) (\<lambda>ob. ret (Some ob))
    | None \<Rightarrow> ret None))"

text \<open>Draining an iterator, as \<open>collect\<close> into a \<open>Result\<close> does: the first error ends it. The iterator asks
  the database for each item, so the loop carries fuel; \<open>None\<close> is running out of it.\<close>

fun iter_collect ::
  "nat \<Rightarrow> 's store_ops \<Rightarrow> string \<Rightarrow> (bytes \<Rightarrow> bytes \<Rightarrow> meta_error + 'a) \<Rightarrow> bytes option \<Rightarrow>
   ('s, meta_error, 'a list option) act" where
  "iter_collect 0 S n f cur = ret None"
| "iter_collect (Suc fuel) S n f cur =
    bindM (\<lambda>s. let (r, s') = tr_iter_next S n cur s in (Inr r, s')) (\<lambda>(item, cur'). case item of
      None \<Rightarrow> ret (Some [])
    | Some (Inl e) \<Rightarrow> raise e
    | Some (Inr (k, v)) \<Rightarrow>
        bindM (liftE (f k v)) (\<lambda>x.
        bindM (iter_collect fuel S n f cur') (\<lambda>rest.
          ret (map_option ((#) x) rest))))"

definition list_buckets :: "nat \<Rightarrow> 's store_ops \<Rightarrow> ('s, meta_error, bucket_meta list option) act" where
  "list_buckets fuel S =
    bindM (st_tree_open S DEFAULT_BUCKET_TREE) (\<lambda>_.
      iter_collect fuel S DEFAULT_BUCKET_TREE (\<lambda>_ raw. corrupt (bucket_meta_try_from raw)) None)"

definition list_bucket_names :: "nat \<Rightarrow> 's store_ops \<Rightarrow> ('s, meta_error, string list option) act" where
  "list_bucket_names fuel S =
    bindM (st_tree_open S DEFAULT_BUCKET_TREE) (\<lambda>_.
      iter_collect fuel S DEFAULT_BUCKET_TREE
        (\<lambda>key _. ok_or (OtherDBError ''bucket name is not valid utf-8'') (from_utf8 key)) None)"

subsection \<open>Block records in the content\<close>

text \<open>The block record of an id in a content of the store, the reference count it carries, and
  the two ways a transaction changes it.\<close>

definition blk_of :: "content \<Rightarrow> block_id \<Rightarrow> block option" where
  "blk_of c h = (case map_of (c DEFAULT_BLOCK_TREE) (as_slice h) of
     None \<Rightarrow> None
   | Some raw \<Rightarrow> (case block_try_from raw of Inr b \<Rightarrow> Some b | Inl _ \<Rightarrow> None))"

definition rc_of :: "content \<Rightarrow> block_id \<Rightarrow> nat" where
  "rc_of c h = (case blk_of c h of None \<Rightarrow> 0 | Some b \<Rightarrow> unat (blk_rc b))"

definition put_blk :: "block_id \<Rightarrow> block \<Rightarrow> content \<Rightarrow> content" where
  "put_blk h b c = cont_ins DEFAULT_BLOCK_TREE (as_slice h) (block_to_vec b) c"

definition del_blk :: "block_id \<Rightarrow> content \<Rightarrow> content" where
  "del_blk h c = cont_del DEFAULT_BLOCK_TREE (as_slice h) c"

lemmas tree_name_defs = DEFAULT_BUCKET_TREE_def DEFAULT_BLOCK_TREE_def DEFAULT_USAGE_TREE_def
  UPLOADS_TREE_def MULTIPART_PARTS_TREE_def

lemma length_block_to_vec: "length (block_to_vec b) = 18"
  by (simp add: block_to_vec_def put_len_def)

lemma block_try_from_to_vec [simp]: "block_try_from (block_to_vec b) = Inr b"
  by (rule block_codec.dec_enc) (simp_all add: length_block_to_vec usize_max_def)

lemma cont_ok_put_blk [simp]: "cont_ok c \<Longrightarrow> cont_ok (put_blk h b c)"
  by (simp add: put_blk_def)

lemma cont_ok_del_blk [simp]: "cont_ok c \<Longrightarrow> cont_ok (del_blk h c)"
  by (simp add: del_blk_def)

lemma blk_of_put_blk:
  "wf_block_id h \<Longrightarrow> wf_block_id h' \<Longrightarrow> blk_of (put_blk h b c) h' = (if h' = h then Some b else blk_of c h')"
  by (auto simp: blk_of_def put_blk_def dest: as_slice_inject)

lemma blk_of_del_blk:
  "cont_ok c \<Longrightarrow> wf_block_id h \<Longrightarrow> wf_block_id h' \<Longrightarrow>
   blk_of (del_blk h c) h' = (if h' = h then None else blk_of c h')"
  by (auto simp: blk_of_def del_blk_def dest: as_slice_inject)

lemma put_blk_other [simp]: "n \<noteq> DEFAULT_BLOCK_TREE \<Longrightarrow> put_blk h b c n = c n"
  by (simp add: put_blk_def)

lemma del_blk_other [simp]: "n \<noteq> DEFAULT_BLOCK_TREE \<Longrightarrow> del_blk h c n = c n"
  by (simp add: del_blk_def)

lemma unat_inc: "unat (w :: 'a::len word) + 1 < 2 ^ LENGTH('a) \<Longrightarrow> unat (w + 1) = unat w + 1"
  by (simp add: unat_word_ariths)

lemma unat_dec: "w \<noteq> 0 \<Longrightarrow> unat ((w :: 'a::len word) - 1) = unat w - 1"
  by (simp add: unat_minus_one)

subsection \<open>Specifications of the transaction operations\<close>

context store_contract
begin

abbreviation txf where
  "txf s s' \<equiv> inv s' \<and> in_tx s' \<and> cont s' = cont s \<and> names s \<subseteq> names s'"

lemma wp_tx_get:
  assumes "inv s" "in_tx s"
    and "\<And>s'. txf s s' \<Longrightarrow> txv s' = txv s \<Longrightarrow> Q (map_of (txv s n) k) s'"
    and "\<And>e s'. txf s s' \<Longrightarrow> txv s' = txv s \<Longrightarrow> E e s'"
  shows "wp (tx_get S n k) Q E s"
proof (rule wpI)
  fix x s' assume run: "tx_get S n k s = (Inr x, s')"
  from tx_get [OF assms(1,2) run] show "Q x s'" using assms(3) [of s'] by simp
next
  fix e s' assume run: "tx_get S n k s = (Inl e, s')"
  from tx_get [OF assms(1,2) run] show "E e s'" using assms(4) [of s'] by simp
qed

lemma wp_tx_insert:
  assumes "inv s" "in_tx s"
    and "\<And>s'. txf s s' \<Longrightarrow> txv s' = cont_ins n k v (txv s) \<Longrightarrow> Q () s'"
    and "\<And>e s'. txf s s' \<Longrightarrow> txv s' = txv s \<Longrightarrow> E e s'"
  shows "wp (tx_insert S n k v) Q E s"
proof (rule wpI)
  fix x s' assume run: "tx_insert S n k v s = (Inr x, s')"
  from tx_insert [OF assms(1,2) run] show "Q x s'" using assms(3) [of s'] by simp
next
  fix e s' assume run: "tx_insert S n k v s = (Inl e, s')"
  from tx_insert [OF assms(1,2) run] show "E e s'" using assms(4) [of s'] by simp
qed

lemma wp_tx_remove:
  assumes "inv s" "in_tx s"
    and "\<And>s'. txf s s' \<Longrightarrow> txv s' = cont_del n k (txv s) \<Longrightarrow> Q () s'"
    and "\<And>e s'. txf s s' \<Longrightarrow> txv s' = txv s \<Longrightarrow> E e s'"
  shows "wp (tx_remove S n k) Q E s"
proof (rule wpI)
  fix x s' assume run: "tx_remove S n k s = (Inr x, s')"
  from tx_remove [OF assms(1,2) run] show "Q x s'" using assms(3) [of s'] by simp
next
  fix e s' assume run: "tx_remove S n k s = (Inl e, s')"
  from tx_remove [OF assms(1,2) run] show "E e s'" using assms(4) [of s'] by simp
qed

lemma wp_tx_commit:
  assumes "inv s" "in_tx s"
    and "\<And>s'. inv s' \<Longrightarrow> \<not> in_tx s' \<Longrightarrow> names s' = names s \<Longrightarrow> cont s' = txv s \<Longrightarrow> Q () s'"
    and "\<And>e s'. inv s' \<Longrightarrow> \<not> in_tx s' \<Longrightarrow> names s' = names s \<Longrightarrow> cont s' = txv s \<or> cont s' = cont s \<Longrightarrow> E e s'"
  shows "wp (tx_commit S) Q E s"
proof (rule wpI)
  fix x s' assume run: "tx_commit S s = (Inr x, s')"
  from tx_commit [OF assms(1,2) run] show "Q x s'" using assms(3) [of s'] by simp
next
  fix e s' assume run: "tx_commit S s = (Inl e, s')"
  from tx_commit [OF assms(1,2) run] show "E e s'" using assms(4) [of s'] by blast
qed

lemma wp_begin:
  assumes "inv s" "\<not> in_tx s"
    and "\<And>s'. inv s' \<Longrightarrow> in_tx s' \<Longrightarrow> cont s' = cont s \<Longrightarrow> txv s' = cont s \<Longrightarrow> names s' = names s \<Longrightarrow> Q () s'"
  shows "wp (begin_transaction S) Q E s"
  using assms(3) begin_tx [OF assms(1,2)] by (simp add: begin_transaction_def)

lemma wp_rollback:
  assumes "inv s" "in_tx s"
    and "\<And>s'. inv s' \<Longrightarrow> \<not> in_tx s' \<Longrightarrow> cont s' = cont s \<Longrightarrow> names s' = names s \<Longrightarrow> Q () s'"
  shows "wp (rollback S) Q E s"
  using assms(3) tx_rollback [OF assms(1,2)] by (simp add: rollback_def)

lemma wp_or_rollback:
  assumes "wp m Q (\<lambda>e s'. inv s' \<and> in_tx s' \<and> cont s' = c \<and> N \<subseteq> names s') s"
    and "\<And>e s'. inv s' \<Longrightarrow> \<not> in_tx s' \<Longrightarrow> cont s' = c \<Longrightarrow> N \<subseteq> names s' \<Longrightarrow> E e s'"
  shows "wp (or_rollback S m) Q E s"
  unfolding or_rollback_def wp_bindM wp_tryM
proof (rule wp_mono [OF assms(1)])
  fix e s' assume "inv s' \<and> in_tx s' \<and> cont s' = c \<and> N \<subseteq> names s'"
  then show "wp (case Inl e of Inl e \<Rightarrow> bindM (rollback S) (\<lambda>_. raise e) | Inr x \<Rightarrow> ret x) Q E s'"
    using assms(2) by (auto intro!: wp_rollback)
qed simp

lemma bump_block_rc_spec:
  assumes "inv s" "in_tx s"
  shows "wp (bump_block_rc S h)
    (\<lambda>r s'. txf s s' \<and> (case r of
        None \<Rightarrow> txv s' = txv s \<and> (\<forall>b. blk_of (txv s) h = Some b \<longrightarrow> is_degraded b)
      | Some b' \<Rightarrow> \<exists>b. blk_of (txv s) h = Some b \<and> \<not> is_degraded b \<and> b' = increment_refcount b \<and>
          txv s' = put_blk h b' (txv s)))
    (\<lambda>e s'. txf s s' \<and> txv s' = txv s) s"
  unfolding bump_block_rc_def wp_bindM
  by (rule wp_tx_get [OF assms])
    (auto simp: blk_of_def put_blk_def Let_def split: option.split sum.split intro!: wp_tx_insert)

lemma take_object_spec:
  assumes "inv s" "in_tx s"
  shows "wp (take_object S n k)
    (\<lambda>r s'. txf s s' \<and> (case r of
        None \<Rightarrow> txv s' = txv s \<and> map_of (txv s n) k = None
      | Some ob \<Rightarrow> \<exists>raw. map_of (txv s n) k = Some raw \<and> object_try_from raw = Inr ob \<and>
          txv s' = cont_del n k (txv s)))
    (\<lambda>e s'. txf s s' \<and> txv s' = txv s) s"
  unfolding take_object_def wp_bindM
  by (rule wp_tx_get [OF assms]) (auto split: option.split sum.split intro!: wp_tx_remove)

lemma replace_object_spec:
  assumes "inv s" "in_tx s"
  shows "wp (replace_object S n k raw')
    (\<lambda>r s'. txf s s' \<and> txv s' = cont_ins n k raw' (txv s) \<and> (case r of
        None \<Rightarrow> map_of (txv s n) k = None
      | Some ob \<Rightarrow> \<exists>raw. map_of (txv s n) k = Some raw \<and> object_try_from raw = Inr ob))
    (\<lambda>e s'. txf s s' \<and> txv s' = txv s) s"
  unfolding replace_object_def wp_bindM
  by (rule wp_tx_get [OF assms]) (auto split: option.split sum.split intro!: wp_tx_insert)

lemma take_upload_spec:
  assumes "inv s" "in_tx s"
  shows "wp (take_upload S k)
    (\<lambda>r s'. txf s s' \<and> (case r of
        None \<Rightarrow> txv s' = txv s \<and> map_of (txv s UPLOADS_TREE) k = None
      | Some rec \<Rightarrow> \<exists>raw. map_of (txv s UPLOADS_TREE) k = Some raw \<and> upload_record_try_from raw = Inr rec \<and>
          txv s' = cont_del UPLOADS_TREE k (txv s)))
    (\<lambda>e s'. txf s s' \<and> txv s' = txv s) s"
  unfolding take_upload_def wp_bindM
  by (rule wp_tx_get [OF assms]) (auto split: option.split sum.split intro!: wp_tx_remove)

lemma take_part_spec:
  assumes "inv s" "in_tx s"
  shows "wp (take_part S k)
    (\<lambda>r s'. txf s s' \<and> r = map_of (txv s MULTIPART_PARTS_TREE) k \<and>
       txv s' = (if r = None then txv s else cont_del MULTIPART_PARTS_TREE k (txv s)))
    (\<lambda>e s'. txf s s' \<and> txv s' = txv s) s"
  unfolding take_part_def wp_bindM
  by (rule wp_tx_get [OF assms]) (auto split: option.split intro!: wp_tx_remove)

lemma decrement_block_rc_spec:
  assumes "inv s" "in_tx s"
  shows "wp (decrement_block_rc S h)
    (\<lambda>r s'. txf s s' \<and> (case r of
        Missing \<Rightarrow> txv s' = txv s \<and> blk_of (txv s) h = None
      | Removed b \<Rightarrow> blk_of (txv s) h = Some b \<and> blk_rc b = 1 \<and> txv s' = del_blk h (txv s)
      | Decremented b' \<Rightarrow> \<exists>b. blk_of (txv s) h = Some b \<and> blk_rc b \<noteq> 1 \<and> b' = decrement_refcount b \<and>
          txv s' = put_blk h b' (txv s)))
    (\<lambda>e s'. txf s s' \<and> txv s' = txv s) s"
  unfolding decrement_block_rc_def wp_bindM
  by (rule wp_tx_get [OF assms])
    (auto simp: blk_of_def put_blk_def del_blk_def Let_def split: option.split sum.split
      intro!: wp_tx_insert wp_tx_remove)

lemma insert_new_block_spec:
  assumes "inv s" "in_tx s"
  shows "wp (insert_new_block S h n d)
    (\<lambda>b s'. txf s s' \<and> txv s' = put_blk h b (txv s) \<and>
       b = (case blk_of (txv s) h of
           None \<Rightarrow> block_new n d
         | Some p \<Rightarrow> block_from_parts n d (blk_rc p + 1) (blk_flags (set_degraded False p))))
    (\<lambda>e s'. txf s s' \<and> txv s' = txv s) s"
  unfolding insert_new_block_def wp_bindM
  by (rule wp_tx_get [OF assms])
    (auto simp: blk_of_def put_blk_def set_degraded_def Let_def split: option.split sum.split intro!: wp_tx_insert)

lemma add_bucket_usage_spec:
  assumes "inv s" "in_tx s"
  shows "wp (add_bucket_usage S bucket delta)
    (\<lambda>u s'. txf s s' \<and> txv s' = cont_ins DEFAULT_USAGE_TREE (as_bytes bucket) (u64_to_le_bytes u) (txv s) \<and>
       (\<exists>current. u = usage_after current delta \<and>
         (case map_of (txv s DEFAULT_USAGE_TREE) (as_bytes bucket) of
            None \<Rightarrow> current = 0
          | Some raw \<Rightarrow> decode_usage bucket raw = Inr current)))
    (\<lambda>e s'. txf s s' \<and> txv s' = txv s) s"
  unfolding add_bucket_usage_def wp_bindM
  by (rule wp_tx_get [OF assms])
    (auto simp: Let_def split: option.split sum.split intro!: wp_tx_insert)

text \<open>Outside a transaction.\<close>

abbreviation same where
  "same s s' \<equiv> inv s' \<and> in_tx s' = in_tx s \<and> cont s' = cont s \<and> txv s' = txv s"

lemma wp_tree_open:
  assumes "inv s"
    and "\<And>s'. same s s' \<Longrightarrow> names s' = insert n (names s) \<Longrightarrow> Q () s'"
    and "\<And>e s'. same s s' \<Longrightarrow> names s \<subseteq> names s' \<Longrightarrow> names s' \<subseteq> insert n (names s) \<Longrightarrow> read_fault S e \<Longrightarrow> E e s'"
  shows "wp (st_tree_open S n) Q E s"
proof (rule wpI)
  fix x s' assume run: "st_tree_open S n s = (Inr x, s')"
  from tree_open [OF assms(1) run] have "same s s'" "names s' = insert n (names s)" by auto
  then show "Q x s'" using assms(2) [of s'] by simp
next
  fix e s' assume run: "st_tree_open S n s = (Inl e, s')"
  then have "read_fault S e" unfolding read_fault_def by blast
  with tree_open [OF assms(1) run] show "E e s'" using assms(3) [of s'] by simp
qed

lemma wp_tr_get:
  assumes "inv s"
    and "\<And>s'. same s s' \<Longrightarrow> names s' = names s \<Longrightarrow> Q (map_of (cont s n) k) s'"
    and "\<And>e s'. same s s' \<Longrightarrow> names s' = names s \<Longrightarrow> read_fault S e \<Longrightarrow> E e s'"
  shows "wp (tr_get S n k) Q E s"
proof (rule wpI)
  fix x s' assume run: "tr_get S n k s = (Inr x, s')"
  from get [OF assms(1) run] show "Q x s'" using assms(2) [of s'] by simp
next
  fix e s' assume run: "tr_get S n k s = (Inl e, s')"
  then have "read_fault S e" unfolding read_fault_def by blast
  with get [OF assms(1) run] show "E e s'" using assms(3) [of s'] by simp
qed

lemma wp_tr_contains_key:
  assumes "inv s"
    and "\<And>s'. same s s' \<Longrightarrow> names s' = names s \<Longrightarrow> Q (map_of (cont s n) k \<noteq> None) s'"
    and "\<And>e s'. same s s' \<Longrightarrow> names s' = names s \<Longrightarrow> E e s'"
  shows "wp (tr_contains_key S n k) Q E s"
proof (rule wpI)
  fix x s' assume run: "tr_contains_key S n k s = (Inr x, s')"
  from contains_key [OF assms(1) run] have "x = (map_of (cont s n) k \<noteq> None)" "same s s'" "names s' = names s"
    by auto
  then show "Q x s'" using assms(2) [of s'] by simp
next
  fix e s' assume run: "tr_contains_key S n k s = (Inl e, s')"
  from contains_key [OF assms(1) run] show "E e s'" using assms(3) [of s'] by simp
qed

lemma wp_tr_insert:
  assumes "inv s" "\<not> in_tx s" "n \<in> names s"
    and "\<And>s'. inv s' \<Longrightarrow> \<not> in_tx s' \<Longrightarrow> names s' = names s \<Longrightarrow> cont s' = cont_ins n k v (cont s) \<Longrightarrow> Q () s'"
    and "\<And>e s'. inv s' \<Longrightarrow> \<not> in_tx s' \<Longrightarrow> names s' = names s \<Longrightarrow>
      cont s' = cont_ins n k v (cont s) \<or> cont s' = cont s \<Longrightarrow> E e s'"
  shows "wp (tr_insert S n k v) Q E s"
proof (rule wpI)
  fix x s' assume run: "tr_insert S n k v s = (Inr x, s')"
  from insert [OF assms(1-3) run] show "Q x s'" using assms(4) [of s'] by simp
next
  fix e s' assume run: "tr_insert S n k v s = (Inl e, s')"
  from insert [OF assms(1-3) run] show "E e s'" using assms(5) [of s'] by blast
qed

lemma wp_tr_remove:
  assumes "inv s" "\<not> in_tx s" "n \<in> names s"
    and "\<And>s'. inv s' \<Longrightarrow> \<not> in_tx s' \<Longrightarrow> names s' = names s \<Longrightarrow> cont s' = cont_del n k (cont s) \<Longrightarrow>
      Q (map_of (cont s n) k \<noteq> None) s'"
    and "\<And>e s'. inv s' \<Longrightarrow> \<not> in_tx s' \<Longrightarrow> names s' = names s \<Longrightarrow>
      cont s' = cont_del n k (cont s) \<or> cont s' = cont s \<Longrightarrow> E e s'"
  shows "wp (tr_remove S n k) Q E s"
proof (rule wpI)
  fix x s' assume run: "tr_remove S n k s = (Inr x, s')"
  from remove [OF assms(1-3) run] have "x = (map_of (cont s n) k \<noteq> None)"
    and "inv s'" "\<not> in_tx s'" "names s' = names s" "cont s' = cont_del n k (cont s)" by simp_all
  then show "Q x s'" using assms(4) [of s'] by simp
next
  fix e s' assume run: "tr_remove S n k s = (Inl e, s')"
  from remove [OF assms(1-3) run] show "E e s'" using assms(5) [of s'] by blast
qed

lemma wp_tree_exists:
  assumes "inv s" and "Q (n \<in> names s) s"
  shows "wp (st_tree_exists S n) Q E s"
proof (rule wpI)
  fix x s' assume run: "st_tree_exists S n s = (Inr x, s')"
  from tree_exists [OF assms(1) run] assms(2) show "Q x s'" by simp
next
  fix e s' assume run: "st_tree_exists S n s = (Inl e, s')"
  from tree_exists [OF assms(1) run] show "E e s'" by simp
qed

lemma wp_tree_delete:
  assumes "inv s" "\<not> in_tx s" "n \<notin> keep"
    and "\<And>s'. inv s' \<Longrightarrow> \<not> in_tx s' \<Longrightarrow> cont s' = (cont s)(n := []) \<Longrightarrow> names s' = names s - {n} \<Longrightarrow> Q () s'"
    and "\<And>e s'. inv s' \<Longrightarrow> \<not> in_tx s' \<Longrightarrow>
      cont s' = (cont s)(n := []) \<and> names s' = names s - {n} \<or>
      cont s' = cont s \<and> names s \<subseteq> names s' \<and> names s' \<subseteq> insert n (names s) \<Longrightarrow> E e s'"
  shows "wp (st_tree_delete S n) Q E s"
proof (rule wpI)
  fix x s' assume run: "st_tree_delete S n s = (Inr x, s')"
  from tree_delete [OF assms(1-3) run] have "inv s'" "\<not> in_tx s'" "cont s' = (cont s)(n := [])"
    "names s' = names s - {n}" by simp_all
  then show "Q x s'" using assms(4) [of s'] by simp
next
  fix e s' assume run: "st_tree_delete S n s = (Inl e, s')"
  from tree_delete [OF assms(1-3) run] show "E e s'" using assms(5) [of s'] by blast
qed

lemma get_block_spec:
  assumes "inv s"
  shows "wp (get_block S (as_slice h))
    (\<lambda>r s'. same s s' \<and> names s' = names s \<and> r = blk_of (cont s) h)
    (\<lambda>e s'. same s s' \<and> names s' = names s \<and> (blk_of (cont s) h \<noteq> None \<longrightarrow> read_fault S e)) s"
  unfolding get_block_def wp_bindM
  by (rule wp_tr_get [OF assms]) (auto simp: blk_of_def split: option.split sum.split)

lemma get_meta_spec:
  assumes "inv s"
  shows "wp (get_meta S n k)
    (\<lambda>r s'. same s s' \<and> names s' = insert n (names s) \<and> (case r of
        None \<Rightarrow> map_of (cont s n) k = None
      | Some ob \<Rightarrow> \<exists>raw. map_of (cont s n) k = Some raw \<and> object_try_from raw = Inr ob))
    (\<lambda>e s'. same s s' \<and> names s \<subseteq> names s' \<and>
      (\<forall>raw ob. map_of (cont s n) k = Some raw \<longrightarrow> object_try_from raw = Inr ob \<longrightarrow> read_fault S e)) s"
  unfolding get_meta_def wp_bindM
  by (intro wp_tree_open [OF assms] wp_tr_get) (auto split: option.split sum.split)

lemma insert_bucket_if_absent_spec:
  assumes "inv s" "\<not> in_tx s" "\<not> reserved_name b"
  shows "wp (insert_bucket_if_absent S b raw)
    (\<lambda>r s'. inv s' \<and> \<not> in_tx s' \<and> names s \<subseteq> names s' \<and>
       r = (map_of (cont s DEFAULT_BUCKET_TREE) (as_bytes b) = None) \<and>
       cont s' = (if r then cont_ins DEFAULT_USAGE_TREE (as_bytes b) (u64_to_le_bytes 0)
         (cont_ins DEFAULT_BUCKET_TREE (as_bytes b) raw (cont s)) else cont s) \<and> (r \<longrightarrow> b \<in> names s'))
    (\<lambda>e s'. inv s' \<and> \<not> in_tx s' \<and> names s \<subseteq> names s' \<and>
       (cont s' = cont s \<or> map_of (cont s DEFAULT_BUCKET_TREE) (as_bytes b) = None \<and>
        cont s' = cont_ins DEFAULT_USAGE_TREE (as_bytes b) (u64_to_le_bytes 0)
         (cont_ins DEFAULT_BUCKET_TREE (as_bytes b) raw (cont s)))) s"
  using assms(3)
  unfolding insert_bucket_if_absent_def get_bucket_record_def put_bucket_record_def reset_bucket_usage_def
    if_not_P [OF assms(3)] wp_bindM
  apply (intro wp_begin [OF assms(1,2)] wp_or_rollback [where c = "cont s" and N = "names s"])
   apply (rule wp_tx_get; auto intro!: wp_rollback)
   apply (rule wp_or_rollback [where c = "cont s" and N = "names s"])
    apply (auto intro!: wp_tx_insert wp_tx_commit wp_tree_open)
     apply blast+
  done

abbreviation kept_but where
  "kept_but b c c' \<equiv> \<forall>n. n \<notin> {DEFAULT_USAGE_TREE, DEFAULT_BUCKET_TREE} \<longrightarrow> c' n = c n \<or> n = b \<and> c' n = []"

lemma drop_tree_spec:
  assumes "inv s" "\<not> in_tx s" "b \<notin> keep"
  shows "wp (if b \<in> names s then st_tree_delete S b else ret ())
    (\<lambda>_ s'. inv s' \<and> \<not> in_tx s' \<and> b \<notin> names s' \<and> cont s' = (cont s)(b := []))
    (\<lambda>e s'. inv s' \<and> \<not> in_tx s' \<and> (cont s' = cont s \<or> cont s' = (cont s)(b := []))) s"
proof (cases "b \<in> names s")
  case True
  then show ?thesis by (auto intro!: wp_tree_delete assms)
next
  case False
  then show ?thesis using inv_names [OF assms(1) False] assms by (simp add: fun_upd_idem)
qed

lemma drop_bucket_spec:
  assumes "inv s" "\<not> in_tx s" "b \<notin> keep"
  shows "wp (drop_bucket S b)
    (\<lambda>_ s'. inv s' \<and> \<not> in_tx s' \<and> b \<notin> names s' \<and>
       cont s' = (cont_del DEFAULT_USAGE_TREE (as_bytes b) (cont_del DEFAULT_BUCKET_TREE (as_bytes b) (cont s)))(b := []))
    (\<lambda>e s'. inv s' \<and> \<not> in_tx s' \<and> kept_but b (cont s) (cont s')) s"
    (is "wp _ ?Q ?R s")
proof -
  have drop: "wp (if b \<in> names s' then st_tree_delete S b else ret ()) ?Q ?R s'"
    if "inv s'" "\<not> in_tx s'"
      "cont s' = cont_del DEFAULT_USAGE_TREE (as_bytes b) (cont_del DEFAULT_BUCKET_TREE (as_bytes b) (cont s))" for s'
    by (rule wp_mono [OF drop_tree_spec [OF that(1,2) assms(3)]]) (auto simp: that(3) split: if_splits)
  show ?thesis
    unfolding drop_bucket_def bucket_exists_def wp_bindM
  proof (rule wp_tree_open [OF assms(1)], goal_cases)
    case (1 s1)
    show ?case
    proof (rule wp_tr_remove, goal_cases)
      case (4 s2)
      show ?case
      proof (rule wp_tree_open [OF 4(1)], goal_cases)
        case (1 s3)
        show ?case
        proof (rule wp_tr_remove, goal_cases)
          case (4 s4)
          then show ?case using \<open>same s2 s3\<close> \<open>cont s2 = _\<close> \<open>same s s1\<close>
            by (intro wp_tree_exists drop) simp_all
        qed (use 1 4 \<open>same s s1\<close> in \<open>auto simp: cont_del_def\<close>)
      qed (use 4 1 in \<open>auto simp: cont_del_def\<close>)
    qed (use 1 assms in \<open>auto simp: cont_del_def\<close>)
  qed (use assms in auto)
qed

abbreviation after where
  "after cur m \<equiv> filter (\<lambda>(k, v). case cur of None \<Rightarrow> True | Some c \<Rightarrow> c < k) m"

lemma wp_iter_next:
  assumes "inv s"
    and "\<And>s' cur'. same s s' \<Longrightarrow> names s' = names s \<Longrightarrow> after cur (cont s n) = [] \<Longrightarrow> Q (None, cur') s'"
    and "\<And>s' e. same s s' \<Longrightarrow> names s' = names s \<Longrightarrow> after cur (cont s n) \<noteq> [] \<Longrightarrow> Q (Some (Inl e), cur) s'"
    and "\<And>s' k v es. same s s' \<Longrightarrow> names s' = names s \<Longrightarrow> after cur (cont s n) = (k, v) # es \<Longrightarrow>
      after (Some k) (cont s n) = es \<Longrightarrow> Q (Some (Inr (k, v)), Some k) s'"
  shows "wp (\<lambda>s. let (r, s') = tr_iter_next S n cur s in (Inr r, s')) Q E s"
proof -
  obtain item cur' s' where run: "tr_iter_next S n cur s = ((item, cur'), s')" by (metis surj_pair)
  note law = iter_next [OF assms(1) run, unfolded Let_def]
  have ok: "omap_ok (cont s n)" using inv_cont [OF assms(1)] by (simp add: cont_ok_def)
  have "Q (item, cur') s'"
  proof (cases item)
    case None
    with law assms(2) [of s' cur'] show ?thesis by simp
  next
    case (Some it)
    show ?thesis
    proof (cases it)
      case (Inl e)
      with Some law assms(3) [of s' e] show ?thesis by simp
    next
      case (Inr kv)
      obtain k v where kv: "kv = (k, v)" by (cases kv)
      obtain es where es: "after cur (cont s n) = (k, v) # es"
        using law Some Inr kv by (cases "after cur (cont s n)") simp_all
      with omap_after_step [OF ok es] law Some Inr kv assms(4) [of s' k v es] show ?thesis by simp
    qed
  qed
  with run show ?thesis by (simp add: wp_def)
qed

lemma iter_collect_spec:
  assumes "inv s" "length (after cur (cont s n)) < fuel"
  shows "wp (iter_collect fuel S n f cur)
    (\<lambda>r s'. same s s' \<and> names s' = names s \<and>
       (\<exists>xs. r = Some xs \<and> list_all2 (\<lambda>(k, v) x. f k v = Inr x) (after cur (cont s n)) xs))
    (\<lambda>e s'. same s s' \<and> names s' = names s) s"
  using assms
proof (induction fuel arbitrary: cur s)
  case (Suc fuel)
  show ?case
    unfolding iter_collect.simps wp_bindM
  proof (rule wp_iter_next [OF Suc.prems(1)], goal_cases)
    case (3 s' k v es)
    from 3 Suc.prems(2) have "length (after (Some k) (cont s' n)) < fuel" by simp
    from Suc.IH [OF _ this] 3 show ?case
      by (auto split: sum.split elim!: wp_mono)
  qed auto
qed simp

lemma list_buckets_spec:
  assumes "inv s" "length (cont s DEFAULT_BUCKET_TREE) < fuel"
  shows "wp (list_buckets fuel S)
    (\<lambda>r s'. same s s' \<and> names s \<subseteq> names s' \<and> (\<exists>bs. r = Some bs \<and>
       list_all2 (\<lambda>(k, raw) b. bucket_meta_try_from raw = Inr b) (cont s DEFAULT_BUCKET_TREE) bs))
    (\<lambda>e s'. same s s' \<and> names s \<subseteq> names s') s"
  unfolding list_buckets_def wp_bindM
proof (rule wp_tree_open [OF assms(1)], goal_cases)
  case (1 s')
  from iter_collect_spec [of s' None DEFAULT_BUCKET_TREE fuel "\<lambda>_ raw. corrupt (bucket_meta_try_from raw)"] 1 assms(2)
  show ?case by (auto elim!: wp_mono)
qed simp

end

end
