(* ===== verification/BlockDisk.thy ===== *)
theory BlockDisk
  imports MetaStore
begin

section \<open>Block files on disk\<close>

text \<open>
  \<open>cas/block_disk.rs\<close> with \<open>cas/block_disk/store_id.rs\<close>, and \<open>cas/placement.rs\<close>: the disk operations the
  store performs (\<open>BlockDiskOps\<close>, a record of functions as the trait is a table of them), the atomic
  block writer on top, and the choice of a fanout depth. \<open>real_disk_ops\<close> is \<open>RealDiskOps\<close> over a model
  of \<open>std::fs\<close>: files with their bytes, directories, and for each what a power cut would keep. Every
  call may fail with a device error, as the list of outstanding faults says, and a failed call may
  have done part of its work.

  \<open>disk_contract\<close> is what the writer relies on of the operations, in terms of the visible files.
  The lemmas about the writer and about placement are proved from it.
\<close>

subsection \<open>Errors\<close>

datatype io_kind = NotFound | AlreadyExists | NotADirectory | IsADirectory | InvalidInput | InvalidData | OtherKind

datatype io_error = IoError io_kind string | IoMeta meta_error

primrec io_kind_of :: "io_error \<Rightarrow> io_kind" where
  "io_kind_of (IoError k _) = k"
| "io_kind_of (IoMeta _) = OtherKind"

subsection \<open>The disk operations\<close>

record 'd disk_ops =
  do_create_dir_all :: "path \<Rightarrow> ('d, io_error, unit) act"
  do_write_new_file :: "path \<Rightarrow> bytes \<Rightarrow> ('d, io_error, unit) act"
  do_fsync_file :: "path \<Rightarrow> bool \<Rightarrow> ('d, io_error, unit) act"
  do_fsync_dir :: "path \<Rightarrow> ('d, io_error, unit) act"
  do_rename :: "path \<Rightarrow> path \<Rightarrow> ('d, io_error, unit) act"
  do_remove_file :: "path \<Rightarrow> ('d, io_error, unit) act"
  do_list_dir :: "path \<Rightarrow> ('d, io_error, path list) act"
  do_device_of :: "path \<Rightarrow> ('d, io_error, u64 option) act"
  fs_read :: "path \<Rightarrow> ('d, io_error, bytes) act"
  fs_is_dir :: "path \<Rightarrow> 'd \<Rightarrow> bool \<times> 'd"
  fs_is_file :: "path \<Rightarrow> 'd \<Rightarrow> bool \<times> 'd"
  fs_read_dir_count :: "path \<Rightarrow> ('d, io_error, nat) act"

text \<open>The first eight fields are the methods of \<open>BlockDiskOps\<close>; the last four are the calls the code
  makes on \<open>std::fs\<close> directly: reading the marker, and the probes of placement.\<close>

subsection \<open>The local file system\<close>

record fs_file =
  ff_data :: bytes
  ff_synced :: bool

datatype io_fault = Fine | Fault string nat

record disk =
  dk_files :: "(path, fs_file) omap"
  dk_dirs :: "path list"
  dk_linked :: "path list"
  dk_dev :: "path \<Rightarrow> u64"
  dk_faults :: "io_fault list"

text \<open>\<open>ff_synced\<close>: the file's bytes are on stable storage. \<open>dk_linked\<close>: the paths, of files and of
  directories, whose entry in their parent directory is. \<open>dk_faults\<close>: one entry per call to come,
  no more faults when it is empty; the number of a fault says how far the call got.\<close>

definition is_dir :: "disk \<Rightarrow> path \<Rightarrow> bool" where
  "is_dir d p \<longleftrightarrow> p = [] \<or> p \<in> set (dk_dirs d)"

definition file_at :: "disk \<Rightarrow> path \<Rightarrow> fs_file option" where
  "file_at d p = map_of (dk_files d) p"

definition with_fault :: "(nat \<Rightarrow> disk \<Rightarrow> disk) \<Rightarrow> (disk, io_error, 'a) act \<Rightarrow> (disk, io_error, 'a) act" where
  "with_fault part m d = (case dk_faults d of
     [] \<Rightarrow> m d
   | Fine # fs \<Rightarrow> m (d\<lparr>dk_faults := fs\<rparr>)
   | Fault msg n # fs \<Rightarrow> (Inl (IoError OtherKind msg), part n (d\<lparr>dk_faults := fs\<rparr>)))"

definition io_fail :: "io_kind \<Rightarrow> path \<Rightarrow> (disk, io_error, 'a) act" where
  "io_fail k p = raise (IoError k (concat (map (\<lambda>c. ''/'' @ c) p)))"

definition ancestors :: "path \<Rightarrow> path list" where
  "ancestors p = map (\<lambda>i. take i p) [1..<Suc (length p)]"

definition missing_dirs :: "disk \<Rightarrow> path \<Rightarrow> path list" where
  "missing_dirs d p = filter (\<lambda>q. q \<notin> set (dk_dirs d)) (ancestors p)"

definition mkdirs :: "path list \<Rightarrow> disk \<Rightarrow> disk" where
  "mkdirs ps d = d\<lparr>dk_dirs := dk_dirs d @ ps, dk_linked := filter (\<lambda>q. q \<notin> set ps) (dk_linked d)\<rparr>"

definition real_create_dir_all :: "path \<Rightarrow> (disk, io_error, unit) act" where
  "real_create_dir_all p =
    with_fault (\<lambda>n d. mkdirs (takeWhile (\<lambda>q. file_at d q = None) (take n (missing_dirs d p))) d) (\<lambda>d.
      if \<exists>q \<in> set (ancestors p). file_at d q \<noteq> None
      then (Inl (IoError NotADirectory (concat (map (\<lambda>c. ''/'' @ c) p))),
            mkdirs (takeWhile (\<lambda>q. file_at d q = None) (missing_dirs d p)) d)
      else (Inr (), mkdirs (missing_dirs d p) d))"

definition put_file :: "path \<Rightarrow> bytes \<Rightarrow> disk \<Rightarrow> disk" where
  "put_file p bs d = d\<lparr>dk_files := omap_ins p \<lparr>ff_data = bs, ff_synced = False\<rparr> (dk_files d),
                       dk_linked := filter (\<lambda>q. q \<noteq> p) (dk_linked d)\<rparr>"

definition can_create :: "path \<Rightarrow> disk \<Rightarrow> bool" where
  "can_create p d \<longleftrightarrow> file_at d p = None \<and> \<not> is_dir d p \<and> is_dir d (butlast p)"

definition real_write_new_file :: "path \<Rightarrow> bytes \<Rightarrow> (disk, io_error, unit) act" where
  "real_write_new_file p contents =
    with_fault (\<lambda>n d. case n of
        0 \<Rightarrow> d
      | Suc m \<Rightarrow> if can_create p d then put_file p (take m contents) d else d) (\<lambda>d.
      if file_at d p \<noteq> None \<or> is_dir d p then io_fail AlreadyExists p d
      else if \<not> is_dir d (butlast p) then io_fail NotFound p d
      else (Inr (), put_file p contents d))"

definition real_fsync_file :: "path \<Rightarrow> bool \<Rightarrow> (disk, io_error, unit) act" where
  "real_fsync_file p data_only =
    with_fault (\<lambda>n d. d) (\<lambda>d. case file_at d p of
      None \<Rightarrow> if is_dir d p then (Inr (), d) else io_fail NotFound p d
    | Some f \<Rightarrow> (Inr (), d\<lparr>dk_files := omap_ins p (f\<lparr>ff_synced := True\<rparr>) (dk_files d)\<rparr>))"

definition entries_of :: "path \<Rightarrow> disk \<Rightarrow> path list" where
  "entries_of p d = filter (\<lambda>q. q \<noteq> [] \<and> butlast q = p) (map fst (dk_files d) @ dk_dirs d)"

definition real_fsync_dir :: "path \<Rightarrow> (disk, io_error, unit) act" where
  "real_fsync_dir p =
    with_fault (\<lambda>n d. d) (\<lambda>d.
      if is_dir d p then (Inr (), d\<lparr>dk_linked := dk_linked d @ entries_of p d\<rparr>)
      else if file_at d p \<noteq> None then (Inr (), d)
      else io_fail NotFound p d)"

definition real_rename :: "path \<Rightarrow> path \<Rightarrow> (disk, io_error, unit) act" where
  "real_rename p q =
    with_fault (\<lambda>n d. d) (\<lambda>d. case file_at d p of
      None \<Rightarrow> io_fail NotFound p d
    | Some f \<Rightarrow>
        if is_dir d q then io_fail IsADirectory q d
        else if \<not> is_dir d (butlast q) then io_fail NotFound q d
        else if p = q then (Inr (), d)
        else (Inr (), d\<lparr>dk_files := omap_ins q f (omap_del p (dk_files d)),
                        dk_linked := filter (\<lambda>x. x \<noteq> p \<and> x \<noteq> q) (dk_linked d)\<rparr>))"

definition std_remove_file :: "path \<Rightarrow> (disk, io_error, unit) act" where
  "std_remove_file p =
    with_fault (\<lambda>n d. d) (\<lambda>d.
      if file_at d p \<noteq> None then
        (Inr (), d\<lparr>dk_files := omap_del p (dk_files d), dk_linked := filter (\<lambda>x. x \<noteq> p) (dk_linked d)\<rparr>)
      else if is_dir d p then io_fail IsADirectory p d
      else io_fail NotFound p d)"

definition real_remove_file :: "path \<Rightarrow> (disk, io_error, unit) act" where
  "real_remove_file p =
    bindM (tryM (std_remove_file p)) (\<lambda>r. case r of
      Inl e \<Rightarrow> if io_kind_of e \<noteq> NotFound then raise e else ret ()
    | Inr _ \<Rightarrow> ret ())"

definition real_list_dir :: "path \<Rightarrow> (disk, io_error, path list) act" where
  "real_list_dir p =
    with_fault (\<lambda>n d. d) (\<lambda>d. if is_dir d p then (Inr (entries_of p d), d) else io_fail NotFound p d)"

definition real_device_of :: "path \<Rightarrow> (disk, io_error, u64 option) act" where
  "real_device_of p =
    with_fault (\<lambda>n d. d) (\<lambda>d.
      if is_dir d p \<or> file_at d p \<noteq> None then (Inr (Some (dk_dev d p)), d) else io_fail NotFound p d)"

definition std_read :: "path \<Rightarrow> (disk, io_error, bytes) act" where
  "std_read p =
    with_fault (\<lambda>n d. d) (\<lambda>d. case file_at d p of
      Some f \<Rightarrow> (Inr (ff_data f), d)
    | None \<Rightarrow> if is_dir d p then io_fail IsADirectory p d else io_fail NotFound p d)"

text \<open>\<open>Path::is_dir\<close> and \<open>is_file\<close> answer false when the path cannot be inspected.\<close>

definition std_query :: "(disk \<Rightarrow> bool) \<Rightarrow> disk \<Rightarrow> bool \<times> disk" where
  "std_query q d = (case with_fault (\<lambda>n d. d) (\<lambda>d. (Inr (q d), d)) d of
     (Inr b, d') \<Rightarrow> (b, d')
   | (Inl _, d') \<Rightarrow> (False, d'))"

definition std_read_dir_count :: "path \<Rightarrow> (disk, io_error, nat) act" where
  "std_read_dir_count p =
    with_fault (\<lambda>n d. d) (\<lambda>d. if is_dir d p then (Inr (length (entries_of p d)), d) else io_fail NotFound p d)"

definition real_disk_ops :: "disk disk_ops" where
  "real_disk_ops =
    \<lparr>do_create_dir_all = real_create_dir_all,
     do_write_new_file = real_write_new_file,
     do_fsync_file = real_fsync_file,
     do_fsync_dir = real_fsync_dir,
     do_rename = real_rename,
     do_remove_file = real_remove_file,
     do_list_dir = real_list_dir,
     do_device_of = real_device_of,
     fs_read = std_read,
     fs_is_dir = (\<lambda>p. std_query (\<lambda>d. is_dir d p)),
     fs_is_file = (\<lambda>p. std_query (\<lambda>d. file_at d p \<noteq> None)),
     fs_read_dir_count = std_read_dir_count\<rparr>"

subsection \<open>The atomic block writer\<close>

definition TMP_DIR_NAME :: string where
  "TMP_DIR_NAME = ''.tmp''"

definition QUARANTINE_DIR_NAME :: string where
  "QUARANTINE_DIR_NAME = ''.quarantine''"

definition BLOCKS_DB_DIR_NAME :: string where
  "BLOCKS_DB_DIR_NAME = ''.db''"

definition STORE_ID_MARKER_NAME :: string where
  "STORE_ID_MARKER_NAME = ''.store-id''"

datatype store_id_marker = Absent | Unreadable bytes | Present store_id

record writer =
  wr_root :: path
  wr_tmp :: path
  wr_durability :: durability
  wr_marker :: store_id_marker

record staged_block =
  sg_depth :: u8
  sg_temp_path :: path
  sg_final_path :: path
  sg_fanout_dir :: path

text \<open>The mutable part of the writer and of placement, with the disk they work on: the temp-name
  nonce, the directories known to be durable, and the occupancy counters.\<close>

record 'd bstore =
  bs_disk :: 'd
  bs_nonce :: u64
  bs_durable :: "path list"
  bs_counters :: "path \<rightharpoonup> nat"

definition on_disk :: "('d, 'e, 'a) act \<Rightarrow> ('d bstore, 'e, 'a) act" where
  "on_disk = zoom bs_disk (\<lambda>d s. s\<lparr>bs_disk := d\<rparr>)"

definition next_nonce :: "('d bstore, 'e, u64) act" where
  "next_nonce s = (Inr (bs_nonce s), s\<lparr>bs_nonce := bs_nonce s + 1\<rparr>)"

definition add_durable :: "path list \<Rightarrow> ('d bstore, 'e, unit) act" where
  "add_durable ps = modifyM (\<lambda>s. s\<lparr>bs_durable := bs_durable s @ ps\<rparr>)"

definition syncs :: "writer \<Rightarrow> bool" where
  "syncs w \<longleftrightarrow> wr_durability w \<noteq> Buffer"

definition is_ws :: "char \<Rightarrow> bool" where
  "is_ws c \<longleftrightarrow> (of_char c :: nat) \<in> {9, 10, 11, 12, 13, 32}"

definition trim :: "string \<Rightarrow> string" where
  "trim s = rev (dropWhile is_ws (rev (dropWhile is_ws s)))"

definition parse_hex :: "(bytes \<Rightarrow> bytes option) \<Rightarrow> string \<Rightarrow> store_id option" where
  "parse_hex hex_decode txt =
    (let trimmed = trim txt in
     if length trimmed \<noteq> STORE_ID_SIZE * 2 then None
     else Option.bind (hex_decode (as_bytes trimmed)) store_id_from_bytes)"

text \<open>Bytes that are not UTF-8 are no store id either way; the text an unreadable marker carries in
  the source is for a log line, the model keeps the bytes.\<close>

definition read_store_id_marker ::
  "'d disk_ops \<Rightarrow> (bytes \<Rightarrow> bytes option) \<Rightarrow> path \<Rightarrow> ('d bstore, io_error, store_id_marker) act" where
  "read_store_id_marker D hex_decode blocks_root =
    bindM (tryM (on_disk (fs_read D (blocks_root @ [STORE_ID_MARKER_NAME])))) (\<lambda>r. case r of
      Inr raw \<Rightarrow> ret (case Option.bind (from_utf8 raw) (parse_hex hex_decode) of
          Some i \<Rightarrow> Present i
        | None \<Rightarrow> Unreadable raw)
    | Inl e \<Rightarrow> if io_kind_of e = NotFound then ret Absent else raise e)"

definition write_marker ::
  "'d disk_ops \<Rightarrow> (bytes \<Rightarrow> string) \<Rightarrow> path \<Rightarrow> path \<Rightarrow> store_id \<Rightarrow> ('d bstore, io_error, unit) act" where
  "write_marker D hex_string root tmp i =
    bindM (on_disk (do_create_dir_all D tmp)) (\<lambda>_.
    bindM next_nonce (\<lambda>nonce.
      let temp_path = tmp @ [STORE_ID_MARKER_NAME @ ''-'' @ show_nat (unat nonce)];
          contents = as_bytes (store_id_to_hex hex_string i) @ [10] in
      orElse
        (bindM (on_disk (do_write_new_file D temp_path contents)) (\<lambda>_.
         bindM (on_disk (do_fsync_file D temp_path False)) (\<lambda>_.
         bindM (on_disk (do_rename D temp_path (root @ [STORE_ID_MARKER_NAME]))) (\<lambda>_.
           on_disk (do_fsync_dir D root)))))
        (\<lambda>e. bindM (ignore (on_disk (do_remove_file D temp_path))) (\<lambda>_. raise e))))"

definition writer_open ::
  "'d disk_ops \<Rightarrow> (bytes \<Rightarrow> bytes option) \<Rightarrow> path \<Rightarrow> durability \<Rightarrow> ('d bstore, io_error, writer) act" where
  "writer_open D hex_decode root dur =
    (let tmp = root @ [TMP_DIR_NAME] in
     bindM (on_disk (do_create_dir_all D root)) (\<lambda>_.
     bindM (on_disk (do_create_dir_all D tmp)) (\<lambda>_.
     bindM (on_disk (do_list_dir D tmp)) (\<lambda>stale.
     bindM (forM stale (\<lambda>p. on_disk (do_remove_file D p))) (\<lambda>_.
     bindM (on_disk (do_device_of D root)) (\<lambda>root_dev.
     bindM (on_disk (do_device_of D tmp)) (\<lambda>tmp_dev.
       if root_dev \<noteq> None \<and> tmp_dev \<noteq> None \<and> root_dev \<noteq> tmp_dev
       then raise (IoError InvalidInput ''blocks root and temp dir are on different filesystems'')
       else
         bindM (read_store_id_marker D hex_decode root) (\<lambda>marker.
           let w = \<lparr>wr_root = root, wr_tmp = tmp, wr_durability = dur, wr_marker = marker\<rparr> in
           if syncs w then
             bindM (on_disk (do_fsync_dir D tmp)) (\<lambda>_.
             bindM (on_disk (do_fsync_dir D root)) (\<lambda>_.
             bindM (if root = [] then ret () else on_disk (do_fsync_dir D (butlast root))) (\<lambda>_.
             bindM (modifyM (\<lambda>s. s\<lparr>bs_durable := [tmp, root]\<rparr>)) (\<lambda>_. ret w))))
           else bindM (modifyM (\<lambda>s. s\<lparr>bs_durable := []\<rparr>)) (\<lambda>_. ret w)))))))))"

definition write_store_id_marker ::
  "'d disk_ops \<Rightarrow> (bytes \<Rightarrow> string) \<Rightarrow> writer \<Rightarrow> store_id \<Rightarrow> ('d bstore, io_error, unit) act" where
  "write_store_id_marker D hex_string w i = write_marker D hex_string (wr_root w) (wr_tmp w) i"

text \<open>The walk of \<open>fsync_chain_deepest_up\<close>: from a directory up to the first one known durable, or to
  the blocks root.\<close>

function durable_chain :: "path list \<Rightarrow> path \<Rightarrow> path \<Rightarrow> path list" where
  "durable_chain durable root cursor =
    (if cursor \<in> set durable then []
     else if cursor \<noteq> [] \<and> cursor \<noteq> root then cursor # durable_chain durable root (butlast cursor)
     else [cursor])"
  by pat_completeness auto
termination by (relation "measure (\<lambda>(_, _, c). length c)") auto

definition fsync_chain_deepest_up :: "'d disk_ops \<Rightarrow> writer \<Rightarrow> path \<Rightarrow> ('d bstore, io_error, unit) act" where
  "fsync_chain_deepest_up D w dir =
    bindM (getsM (\<lambda>s. durable_chain (bs_durable s) (wr_root w) dir)) (\<lambda>chain.
    bindM (forM chain (\<lambda>d. on_disk (do_fsync_dir D d))) (\<lambda>_.
      add_durable chain))"

definition temp_name :: "(bytes \<Rightarrow> string) \<Rightarrow> block_id \<Rightarrow> u64 \<Rightarrow> string" where
  "temp_name hex_string i nonce = hex_string (as_slice i) @ ''-'' @ show_nat (unat nonce)"

definition write_block ::
  "'d disk_ops \<Rightarrow> (bytes \<Rightarrow> string) \<Rightarrow> writer \<Rightarrow> block_id \<Rightarrow> u8 \<Rightarrow> bytes \<Rightarrow> ('d bstore, io_error, path) act" where
  "write_block D hex_string w i depth bs =
    (let final_path = block_disk_path hex_string i depth (wr_root w);
         fanout_dir = butlast final_path in
     bindM (on_disk (do_create_dir_all D fanout_dir)) (\<lambda>_.
     bindM next_nonce (\<lambda>nonce.
       let temp_path = wr_tmp w @ [temp_name hex_string i nonce] in
       orElse
         (bindM (on_disk (do_write_new_file D temp_path bs)) (\<lambda>_.
          bindM (if syncs w then
              bindM (on_disk (do_fsync_file D temp_path True)) (\<lambda>_. fsync_chain_deepest_up D w fanout_dir)
            else ret ()) (\<lambda>_.
          bindM (on_disk (do_rename D temp_path final_path)) (\<lambda>_.
          bindM (if syncs w then on_disk (do_fsync_dir D fanout_dir) else ret ()) (\<lambda>_.
            ret final_path)))))
         (\<lambda>e. bindM (ignore (on_disk (do_remove_file D temp_path))) (\<lambda>_. raise e)))))"

definition unlink_block ::
  "'d disk_ops \<Rightarrow> (bytes \<Rightarrow> string) \<Rightarrow> writer \<Rightarrow> block_id \<Rightarrow> u8 \<Rightarrow> ('d bstore, io_error, unit) act" where
  "unlink_block D hex_string w i depth =
    on_disk (do_remove_file D (block_disk_path hex_string i depth (wr_root w)))"

definition stage_block ::
  "'d disk_ops \<Rightarrow> (bytes \<Rightarrow> string) \<Rightarrow> writer \<Rightarrow> block_id \<Rightarrow> u8 \<Rightarrow> bytes \<Rightarrow>
   ('d bstore, io_error, staged_block) act" where
  "stage_block D hex_string w i depth bs =
    (let final_path = block_disk_path hex_string i depth (wr_root w);
         fanout_dir = butlast final_path in
     bindM (on_disk (do_create_dir_all D fanout_dir)) (\<lambda>_.
     bindM next_nonce (\<lambda>nonce.
       let temp_path = wr_tmp w @ [temp_name hex_string i nonce] in
       bindM (orElse (on_disk (do_write_new_file D temp_path bs))
         (\<lambda>e. bindM (ignore (on_disk (do_remove_file D temp_path))) (\<lambda>_. raise e))) (\<lambda>_.
         ret \<lparr>sg_depth = depth, sg_temp_path = temp_path, sg_final_path = final_path,
              sg_fanout_dir = fanout_dir\<rparr>))))"

text \<open>Every sync of a batch runs, and the first error is the outcome.\<close>

fun sync_each :: "'d disk_ops \<Rightarrow> path list \<Rightarrow> ('d bstore, io_error, io_error option) act" where
  "sync_each D [] = ret None"
| "sync_each D (p # ps) =
    bindM (tryM (on_disk (do_fsync_file D p True))) (\<lambda>r.
    bindM (sync_each D ps) (\<lambda>later.
      ret (case r of Inl e \<Rightarrow> Some e | Inr _ \<Rightarrow> later)))"

definition sync_batch :: "'d disk_ops \<Rightarrow> writer \<Rightarrow> path list \<Rightarrow> ('d bstore, io_error, unit) act" where
  "sync_batch D w temp_paths =
    (if \<not> syncs w \<or> temp_paths = [] then ret ()
     else bindM (sync_each D temp_paths) (\<lambda>first_error.
       case first_error of Some e \<Rightarrow> raise e | None \<Rightarrow> ret ()))"

text \<open>The directories a batch has to sync: each landing directory, and its ancestors up to one known
  durable. \<open>land_up\<close> is the inner loop, with the directories planned so far.\<close>

function land_up :: "path list \<Rightarrow> path \<Rightarrow> path \<Rightarrow> path list \<Rightarrow> path list" where
  "land_up durable root cursor chain =
    (if cursor = [] then chain
     else let parent = butlast cursor in
       if cursor = root \<or> parent \<in> set durable then chain
       else if parent \<in> set chain then chain
       else land_up durable root parent (chain @ [parent]))"
  by pat_completeness auto
termination by (relation "measure (\<lambda>(_, _, c, _). length c)") auto

fun land_chain :: "path list \<Rightarrow> path \<Rightarrow> path list \<Rightarrow> path list \<Rightarrow> path list" where
  "land_chain durable root [] chain = chain"
| "land_chain durable root (dir # dirs) chain =
    land_chain durable root dirs
      (land_up durable root dir (if dir \<in> set chain then chain else chain @ [dir]))"

definition deepest_first :: "path list \<Rightarrow> path list" where
  "deepest_first = sort_key (\<lambda>p. - int (length p))"

definition land_batch :: "'d disk_ops \<Rightarrow> writer \<Rightarrow> staged_block list \<Rightarrow> ('d bstore, io_error, unit) act" where
  "land_batch D w staged =
    bindM (forM staged (\<lambda>b. on_disk (do_rename D (sg_temp_path b) (sg_final_path b)))) (\<lambda>_.
      if \<not> syncs w then ret ()
      else
        bindM (getsM (\<lambda>s. deepest_first (land_chain (bs_durable s) (wr_root w) (map sg_fanout_dir staged) []))) (\<lambda>chain.
        bindM (forM chain (\<lambda>d. on_disk (do_fsync_dir D d))) (\<lambda>_.
          add_durable chain)))"

definition discard_staged :: "'d disk_ops \<Rightarrow> staged_block \<Rightarrow> ('d bstore, 'f, unit) act" where
  "discard_staged D b = ignore (on_disk (do_remove_file D (sg_temp_path b)))"

subsection \<open>Placement\<close>

definition DEFAULT_MAX_DIR_ENTRIES :: nat where
  "DEFAULT_MAX_DIR_ENTRIES = 4096"

record placement =
  pl_root :: path
  pl_max_dir_entries :: nat

definition placement_with_max_entries :: "path \<Rightarrow> nat \<Rightarrow> placement" where
  "placement_with_max_entries root n = \<lparr>pl_root = root, pl_max_dir_entries = max n 1\<rparr>"

definition placement_new :: "path \<Rightarrow> placement" where
  "placement_new root = placement_with_max_entries root DEFAULT_MAX_DIR_ENTRIES"

definition query :: "('d \<Rightarrow> bool \<times> 'd) \<Rightarrow> ('d bstore, 'e, bool) act" where
  "query q s = (let (b, d) = q (bs_disk s) in (Inr b, s\<lparr>bs_disk := d\<rparr>))"

fun probe_walk ::
  "'d disk_ops \<Rightarrow> (bytes \<Rightarrow> string) \<Rightarrow> string \<Rightarrow> path \<Rightarrow> nat \<Rightarrow> bytes \<Rightarrow> ('d bstore, 'e, u8 option) act" where
  "probe_walk D hex_string name dir level [] = ret None"
| "probe_walk D hex_string name dir level (byte # bs) =
    (let dir = dir @ [hex_string [byte]] in
     bindM (query (fs_is_dir D dir)) (\<lambda>isd.
       if \<not> isd then ret None
       else bindM (query (fs_is_file D (dir @ [name]))) (\<lambda>isf.
         if isf then ret (Some (of_nat level + 1))
         else probe_walk D hex_string name dir (Suc level) bs)))"

definition probe_orphan ::
  "'d disk_ops \<Rightarrow> (bytes \<Rightarrow> string) \<Rightarrow> placement \<Rightarrow> block_id \<Rightarrow> ('d bstore, 'e, u8 option) act" where
  "probe_orphan D hex_string pl i =
    probe_walk D hex_string (hex_string (as_slice i)) (pl_root pl) 0 (as_slice i)"

definition approximate_entry_count :: "'d disk_ops \<Rightarrow> path \<Rightarrow> ('d bstore, 'e, nat) act" where
  "approximate_entry_count D dir =
    bindM (tryM (on_disk (fs_read_dir_count D dir))) (\<lambda>r. case r of Inr n \<Rightarrow> ret n | Inl _ \<Rightarrow> ret 0)"

definition counter :: "'d disk_ops \<Rightarrow> path \<Rightarrow> ('d bstore, 'e, nat) act" where
  "counter D dir =
    bindM (getsM (\<lambda>s. bs_counters s dir)) (\<lambda>c. case c of
      Some n \<Rightarrow> ret n
    | None \<Rightarrow>
        bindM (approximate_entry_count D dir) (\<lambda>n.
        bindM (modifyM (\<lambda>s. s\<lparr>bs_counters := (bs_counters s)(dir \<mapsto> n)\<rparr>)) (\<lambda>_. ret n)))"

fun policy_walk ::
  "'d disk_ops \<Rightarrow> (bytes \<Rightarrow> string) \<Rightarrow> placement \<Rightarrow> nat \<Rightarrow> path \<Rightarrow> nat \<Rightarrow> bytes \<Rightarrow> ('d bstore, 'e, u8) act" where
  "policy_walk D hex_string pl width dir level [] = ret (of_nat width)"
| "policy_walk D hex_string pl width dir level (byte # bs) =
    (let dir = dir @ [hex_string [byte]] in
     bindM (counter D dir) (\<lambda>count.
       if count < pl_max_dir_entries pl \<or> level + 1 = width then ret (of_nat level + 1)
       else policy_walk D hex_string pl width dir (Suc level) bs))"

definition policy_depth ::
  "'d disk_ops \<Rightarrow> (bytes \<Rightarrow> string) \<Rightarrow> placement \<Rightarrow> block_id \<Rightarrow> ('d bstore, 'e, u8) act" where
  "policy_depth D hex_string pl i = policy_walk D hex_string pl (block_id_len i) (pl_root pl) 0 (as_slice i)"

definition record_placement ::
  "'d disk_ops \<Rightarrow> (bytes \<Rightarrow> string) \<Rightarrow> placement \<Rightarrow> block_id \<Rightarrow> u8 \<Rightarrow> ('d bstore, 'e, unit) act" where
  "record_placement D hex_string pl i depth =
    (let dir = pl_root pl @ map (\<lambda>byte. hex_string [byte])
           (take (max 1 (min (unat depth) (block_id_len i))) (as_slice i)) in
     bindM (counter D dir) (\<lambda>n.
       modifyM (\<lambda>s. s\<lparr>bs_counters := (bs_counters s)(dir \<mapsto> n + 1)\<rparr>)))"

definition choose_depth ::
  "'d disk_ops \<Rightarrow> (bytes \<Rightarrow> string) \<Rightarrow> placement \<Rightarrow> block_id \<Rightarrow> ('d bstore, 'e, u8) act" where
  "choose_depth D hex_string pl i =
    bindM (probe_orphan D hex_string pl i) (\<lambda>found. case found of
      Some depth \<Rightarrow> ret depth
    | None \<Rightarrow>
        bindM (policy_depth D hex_string pl i) (\<lambda>depth.
        bindM (record_placement D hex_string pl i depth) (\<lambda>_. ret depth)))"

lemma land_up_chain: "set chain \<subseteq> set (land_up durable root cursor chain)"
proof (induction durable root cursor chain rule: land_up.induct)
  case (1 durable root cursor chain)
  then show ?case by (subst land_up.simps) (auto simp: Let_def)
qed

lemma land_chain_chain: "set chain \<subseteq> set (land_chain durable root dirs chain)"
proof (induction dirs arbitrary: chain)
  case (Cons dir dirs)
  show ?case
    using land_up_chain [of "if dir \<in> set chain then chain else chain @ [dir]" durable root dir]
      Cons.IH [of "land_up durable root dir (if dir \<in> set chain then chain else chain @ [dir])"]
    by (auto split: if_splits)
qed simp

lemma land_chain_dirs: "set dirs \<subseteq> set (land_chain durable root dirs chain)"
proof (induction dirs arbitrary: chain)
  case (Cons dir dirs)
  let ?c = "if dir \<in> set chain then chain else chain @ [dir]"
  have "dir \<in> set ?c" by simp
  then have "dir \<in> set (land_chain durable root dirs (land_up durable root dir ?c))"
    using land_up_chain land_chain_chain by blast
  with Cons.IH show ?case by simp
qed simp

declare land_up.simps [simp del] durable_chain.simps [simp del]

subsection \<open>What the operations promise\<close>

locale disk_contract =
  fixes D :: "'d disk_ops"
    and dinv :: "'d \<Rightarrow> bool"
    and vis :: "'d \<Rightarrow> path \<Rightarrow> bytes option"
  assumes create_dir_all: "dinv d \<Longrightarrow> do_create_dir_all D p d = (r, d') \<Longrightarrow> dinv d' \<and> vis d' = vis d"
    and write_new_file: "dinv d \<Longrightarrow> do_write_new_file D p bs d = (r, d') \<Longrightarrow>
      dinv d' \<and> (\<forall>q. q \<noteq> p \<longrightarrow> vis d' q = vis d q) \<and>
      (r = Inr () \<longrightarrow> vis d p = None \<and> vis d' p = Some bs)"
    and fsync_file: "dinv d \<Longrightarrow> do_fsync_file D p data_only d = (r, d') \<Longrightarrow> dinv d' \<and> vis d' = vis d"
    and fsync_dir: "dinv d \<Longrightarrow> do_fsync_dir D p d = (r, d') \<Longrightarrow> dinv d' \<and> vis d' = vis d"
    and rename: "dinv d \<Longrightarrow> do_rename D p q d = (r, d') \<Longrightarrow>
      dinv d' \<and> vis d' = (if r = Inr () then (vis d)(p := None, q := vis d p) else vis d) \<and>
      (r = Inr () \<longrightarrow> vis d p \<noteq> None)"
    and remove_file: "dinv d \<Longrightarrow> do_remove_file D p d = (r, d') \<Longrightarrow>
      dinv d' \<and> vis d' = (if r = Inr () then (vis d)(p := None) else vis d)"
    and list_dir: "dinv d \<Longrightarrow> do_list_dir D p d = (rl, d') \<Longrightarrow>
      dinv d' \<and> vis d' = vis d \<and> (\<forall>ps. rl = Inr ps \<longrightarrow>
        (\<forall>q \<in> set ps. q \<noteq> [] \<and> butlast q = p) \<and>
        (\<forall>q. q \<noteq> [] \<longrightarrow> butlast q = p \<longrightarrow> vis d q \<noteq> None \<longrightarrow> q \<in> set ps))"
    and device_of: "dinv d \<Longrightarrow> do_device_of D p d = (rd, d') \<Longrightarrow> dinv d' \<and> vis d' = vis d"
    and read: "dinv d \<Longrightarrow> fs_read D p d = (rb, d') \<Longrightarrow>
      dinv d' \<and> vis d' = vis d \<and> (\<forall>bs. rb = Inr bs \<longrightarrow> vis d p = Some bs) \<and>
      (\<forall>e. rb = Inl e \<longrightarrow> io_kind_of e = NotFound \<longrightarrow> vis d p = None)"
    and is_dir: "dinv d \<Longrightarrow> fs_is_dir D p d = (b, d') \<Longrightarrow> dinv d' \<and> vis d' = vis d"
    and is_file: "dinv d \<Longrightarrow> fs_is_file D p d = (b, d') \<Longrightarrow>
      dinv d' \<and> vis d' = vis d \<and> (b \<longrightarrow> vis d p \<noteq> None)"
    and read_dir_count: "dinv d \<Longrightarrow> fs_read_dir_count D p d = (rn, d') \<Longrightarrow> dinv d' \<and> vis d' = vis d"

text \<open>What landing a list of staged files does to the visible files.\<close>

definition land_files :: "staged_block list \<Rightarrow> (path \<Rightarrow> bytes option) \<Rightarrow> path \<Rightarrow> bytes option" where
  "land_files = fold (\<lambda>b f. f(sg_temp_path b := None, sg_final_path b := f (sg_temp_path b)))"

lemma land_files_simps [simp]:
  "land_files [] f = f"
  "land_files (b # bs) f = land_files bs (f(sg_temp_path b := None, sg_final_path b := f (sg_temp_path b)))"
  "land_files (bs @ [b]) f = (land_files bs f)(sg_temp_path b := None, sg_final_path b := land_files bs f (sg_temp_path b))"
  by (simp_all add: land_files_def)

lemma butlast_neq_snoc: "butlast q \<noteq> t \<Longrightarrow> \<forall>x. q \<noteq> t @ [x]"
  by auto

lemma upd_outside [simp]: "butlast q \<noteq> t \<Longrightarrow> (f(t @ [x] := v)) q = f q"
  by auto

lemma wp_on_disk [simp]:
  "wp (on_disk m) Q E s = wp m (\<lambda>x d. Q x (s\<lparr>bs_disk := d\<rparr>)) (\<lambda>e d. E e (s\<lparr>bs_disk := d\<rparr>)) (bs_disk s)"
  by (simp add: on_disk_def)

lemma wp_next_nonce [simp]: "wp next_nonce Q E s = Q (bs_nonce s) (s\<lparr>bs_nonce := bs_nonce s + 1\<rparr>)"
  by (simp add: next_nonce_def wp_def)

lemma wp_add_durable [simp]: "wp (add_durable ps) Q E s = Q () (s\<lparr>bs_durable := bs_durable s @ ps\<rparr>)"
  by (simp add: add_durable_def)

subsection \<open>The temp-name nonce\<close>

text \<open>Only staging and writing a block take a nonce; whatever else the writer and placement do leaves it alone.\<close>

definition keeps_nonce :: "('d bstore, 'e, 'a) act \<Rightarrow> bool" where
  "keeps_nonce m \<longleftrightarrow> (\<forall>s. bs_nonce (snd (m s)) = bs_nonce s)"

lemma wp_keeps_nonce:
  "keeps_nonce m \<Longrightarrow> wp m Q E s \<Longrightarrow>
   wp m (\<lambda>x s'. Q x s' \<and> bs_nonce s' = bs_nonce s) (\<lambda>e s'. E e s' \<and> bs_nonce s' = bs_nonce s) s"
  unfolding keeps_nonce_def wp_def by (auto split: prod.splits sum.splits dest: spec [of _ s])

lemma keeps_nonce_basic [simp]:
  "keeps_nonce (ret x)" "keeps_nonce (raise e)" "keeps_nonce (liftE r)" "keeps_nonce (getsM v)"
  "keeps_nonce (on_disk m)" "keeps_nonce (query q)" "keeps_nonce (add_durable ps)"
  "keeps_nonce (modifyM (\<lambda>s. s\<lparr>bs_counters := f s\<rparr>))" "keeps_nonce (modifyM (\<lambda>s. s\<lparr>bs_durable := h s\<rparr>))"
  by (auto simp: keeps_nonce_def ret_def raise_def liftE_def getsM_def on_disk_def zoom_def query_def add_durable_def
      modifyM_def split: prod.splits)

lemma keeps_nonce_bindM: "keeps_nonce m \<Longrightarrow> (\<And>x. keeps_nonce (k x)) \<Longrightarrow> keeps_nonce (bindM m k)"
  unfolding keeps_nonce_def bindM_def
proof
  fix s assume m: "\<forall>s. bs_nonce (snd (m s)) = bs_nonce s" and k: "\<And>x. \<forall>s. bs_nonce (snd (k x s)) = bs_nonce s"
  obtain r t where run: "m s = (r, t)" by (cases "m s")
  with m have "bs_nonce t = bs_nonce s" by (metis snd_conv)
  with run k show "bs_nonce (snd (case m s of (Inl e, s') \<Rightarrow> (Inl e, s') | (Inr x, s') \<Rightarrow> k x s')) = bs_nonce s"
    by (cases r) simp_all
qed

lemma keeps_nonce_tryM [simp]: "keeps_nonce m \<Longrightarrow> keeps_nonce (tryM m)"
  unfolding keeps_nonce_def tryM_def by (simp add: case_prod_beta)

lemma keeps_nonce_ignore [simp]: "keeps_nonce m \<Longrightarrow> keeps_nonce (ignore m)"
  unfolding ignore_def by (intro keeps_nonce_bindM) simp_all

lemma keeps_nonce_forM [simp]: "(\<And>x. keeps_nonce (f x)) \<Longrightarrow> keeps_nonce (forM xs f)"
  by (induction xs) (simp_all add: keeps_nonce_bindM)

lemma keeps_nonce_orElse: "keeps_nonce m \<Longrightarrow> (\<And>e. keeps_nonce (h e)) \<Longrightarrow> keeps_nonce (orElse m h)"
  unfolding orElse_def by (intro keeps_nonce_bindM) (auto split: sum.split)

lemma keeps_nonce_sync_each: "keeps_nonce (sync_each D ps)"
  by (induction ps) (auto intro!: keeps_nonce_bindM)

lemma keeps_nonce_sync_batch: "keeps_nonce (sync_batch D w ps)"
  unfolding sync_batch_def
  by (auto intro!: keeps_nonce_bindM keeps_nonce_sync_each split: option.split)

lemma keeps_nonce_land_batch: "keeps_nonce (land_batch D w bs)"
  unfolding land_batch_def by (auto intro!: keeps_nonce_bindM)

lemma keeps_nonce_discard: "keeps_nonce (discard_staged D b)"
  by (simp add: discard_staged_def)

lemma keeps_nonce_unlink: "keeps_nonce (unlink_block D hex w i d)"
  by (simp add: unlink_block_def)

lemma keeps_nonce_counter: "keeps_nonce (counter D dir)"
  unfolding counter_def approximate_entry_count_def
  by (auto intro!: keeps_nonce_bindM split: option.split sum.split)

lemma keeps_nonce_probe_walk: "keeps_nonce (probe_walk D hex name dir level bs)"
  by (induction bs arbitrary: dir level) (auto simp: Let_def intro!: keeps_nonce_bindM)

lemma keeps_nonce_policy_walk: "keeps_nonce (policy_walk D hex pl width dir level bs)"
  by (induction bs arbitrary: dir level) (auto simp: Let_def intro!: keeps_nonce_bindM keeps_nonce_counter)

lemma keeps_nonce_choose_depth: "keeps_nonce (choose_depth D hex pl i)"
  unfolding choose_depth_def probe_orphan_def policy_depth_def record_placement_def Let_def
  by (auto intro!: keeps_nonce_bindM keeps_nonce_probe_walk keeps_nonce_policy_walk keeps_nonce_counter split: option.split)

lemma keeps_nonce_fsync_chain: "keeps_nonce (fsync_chain_deepest_up D w dir)"
  unfolding fsync_chain_deepest_up_def by (auto intro!: keeps_nonce_bindM)

lemma wp_one_nonce:
  assumes "\<And>n. keeps_nonce (k n)"
    and "wp (bindM (on_disk m) (\<lambda>_. bindM next_nonce k)) Q E s"
  shows "wp (bindM (on_disk m) (\<lambda>_. bindM next_nonce k))
    (\<lambda>x s'. Q x s' \<and> bs_nonce s' = bs_nonce s + 1)
    (\<lambda>e s'. E e s' \<and> (bs_nonce s' = bs_nonce s \<or> bs_nonce s' = bs_nonce s + 1)) s"
  using assms(2) unfolding wp_bindM wp_on_disk wp_next_nonce
proof (rule wp_mono, goal_cases)
  case (1 _ d)
  from wp_keeps_nonce [OF assms(1) 1] show ?case by (rule wp_mono) auto
qed simp

lemma stage_block_nonce:
  "wp (stage_block D hex w i depth bs) Q E s \<Longrightarrow>
   wp (stage_block D hex w i depth bs)
     (\<lambda>x s'. Q x s' \<and> bs_nonce s' = bs_nonce s + 1)
     (\<lambda>e s'. E e s' \<and> (bs_nonce s' = bs_nonce s \<or> bs_nonce s' = bs_nonce s + 1)) s"
  unfolding stage_block_def Let_def
  by (rule wp_one_nonce) (auto intro!: keeps_nonce_bindM keeps_nonce_orElse)

lemma write_block_nonce:
  "wp (write_block D hex w i depth bs) Q E s \<Longrightarrow>
   wp (write_block D hex w i depth bs)
     (\<lambda>x s'. Q x s' \<and> bs_nonce s' = bs_nonce s + 1)
     (\<lambda>e s'. E e s' \<and> (bs_nonce s' = bs_nonce s \<or> bs_nonce s' = bs_nonce s + 1)) s"
  unfolding write_block_def Let_def
  by (rule wp_one_nonce) (auto intro!: keeps_nonce_bindM keeps_nonce_orElse keeps_nonce_fsync_chain)

text \<open>Temp names of different nonces differ.\<close>

lemma show_nat_inject: "show_nat m = show_nat n \<Longrightarrow> m = n"
proof (induction m arbitrary: n rule: show_nat.induct)
  case (1 m)
  have dig: "a = b" if "(char_of (48 + a) :: char) = char_of (48 + b)" "a < 10" "b < 10" for a b :: nat
  proof -
    have "(of_char (char_of (48 + a) :: char) :: nat) = of_char (char_of (48 + b) :: char)"
      by (rule arg_cong [OF that(1)])
    then show ?thesis using that(2,3) by (simp add: take_bit_nat_eq_self)
  qed
  have nonempty: "show_nat k \<noteq> []" for k by (subst show_nat.simps) simp
  have small: "show_nat k = [char_of (48 + k)]" if "k < 10" for k using that by (subst show_nat.simps) simp
  have large: "show_nat k = show_nat (k div 10) @ [char_of (48 + k mod 10)]" if "\<not> k < 10" for k
    using that by (subst show_nat.simps) simp
  have short: "show_nat k \<noteq> [c]" if "\<not> k < 10" for k c
    using nonempty [of "k div 10"] unfolding large [OF that] by (cases "show_nat (k div 10)") simp_all
  show ?case
  proof (cases "m < 10"; cases "n < 10")
    assume mn: "m < 10" "n < 10"
    have "(char_of (48 + m) :: char) = char_of (48 + n)"
      using 1(2) unfolding small [OF mn(1)] small [OF mn(2)] by (rule list.inject [THEN iffD1, THEN conjunct1])
    then show ?thesis by (rule dig [OF _ mn])
  next
    assume "m < 10" "\<not> n < 10"
    with short [of n] small [of m] 1(2) show ?thesis by metis
  next
    assume "\<not> m < 10" "n < 10"
    with short [of m] small [of n] 1(2) show ?thesis by metis
  next
    assume mn: "\<not> m < 10" "\<not> n < 10"
    have e: "show_nat (m div 10) = show_nat (n div 10) \<and> (char_of (48 + m mod 10) :: char) = char_of (48 + n mod 10)"
      using 1(2) unfolding large [OF mn(1)] large [OF mn(2)] by (rule append1_eq_conv [THEN iffD1])
    have "m div 10 = n div 10" by (rule 1(1) [OF mn(1) conjunct1 [OF e]])
    moreover have "m mod 10 = n mod 10" by (rule dig [OF conjunct2 [OF e]]) simp_all
    ultimately show ?thesis by (metis div_mult_mod_eq)
  qed
qed

lemma temp_name_inject:
  assumes "hex_ok hex" "temp_name hex i m = temp_name hex j n"
  shows "m = n"
proof -
  have dash: "takeWhile (\<lambda>c. c \<noteq> CHR ''-'') (hex bs @ ''-'' @ xs) = hex bs" for bs xs
    using assms(1) by (subst takeWhile_append2) (auto simp: hex_ok_def)
  have "hex (as_slice i) @ ''-'' @ show_nat (unat m) = hex (as_slice j) @ ''-'' @ show_nat (unat n)"
    using assms(2) by (simp add: temp_name_def)
  with dash have "hex (as_slice i) = hex (as_slice j)" by metis
  with assms(2) have "show_nat (unat m) = show_nat (unat n)" by (simp add: temp_name_def)
  then show ?thesis using show_nat_inject by (simp add: word_unat_eq_iff)
qed

subsection \<open>The writer\<close>

text \<open>The marker an open reads, as a function of the marker file.\<close>

definition marker_of :: "(bytes \<Rightarrow> bytes option) \<Rightarrow> bytes option \<Rightarrow> store_id_marker" where
  "marker_of hex_decode r = (case r of
     None \<Rightarrow> Absent
   | Some raw \<Rightarrow> (case Option.bind (from_utf8 raw) (parse_hex hex_decode) of
       Some i \<Rightarrow> Present i
     | None \<Rightarrow> Unreadable raw))"

context disk_contract
begin

abbreviation ok where
  "ok s \<equiv> dinv (bs_disk s)"

abbreviation fil where
  "fil s \<equiv> vis (bs_disk s)"

lemma wp_same:
  assumes "\<And>r d'. m d = (r, d') \<Longrightarrow> dinv d' \<and> vis d' = vis d"
    and "\<And>x d'. dinv d' \<Longrightarrow> vis d' = vis d \<Longrightarrow> Q x d'"
    and "\<And>e d'. dinv d' \<Longrightarrow> vis d' = vis d \<Longrightarrow> E e d'"
  shows "wp m Q E d"
  using assms by (intro wpI) auto

lemma wp_create_dir_all:
  "dinv d \<Longrightarrow> (\<And>x d'. dinv d' \<Longrightarrow> vis d' = vis d \<Longrightarrow> Q x d') \<Longrightarrow>
   (\<And>e d'. dinv d' \<Longrightarrow> vis d' = vis d \<Longrightarrow> E e d') \<Longrightarrow> wp (do_create_dir_all D p) Q E d"
  by (rule wp_same) (auto dest: create_dir_all)

lemma wp_fsync_file:
  "dinv d \<Longrightarrow> (\<And>x d'. dinv d' \<Longrightarrow> vis d' = vis d \<Longrightarrow> Q x d') \<Longrightarrow>
   (\<And>e d'. dinv d' \<Longrightarrow> vis d' = vis d \<Longrightarrow> E e d') \<Longrightarrow> wp (do_fsync_file D p b) Q E d"
  by (rule wp_same) (auto dest: fsync_file)

lemma wp_fsync_dir:
  "dinv d \<Longrightarrow> (\<And>x d'. dinv d' \<Longrightarrow> vis d' = vis d \<Longrightarrow> Q x d') \<Longrightarrow>
   (\<And>e d'. dinv d' \<Longrightarrow> vis d' = vis d \<Longrightarrow> E e d') \<Longrightarrow> wp (do_fsync_dir D p) Q E d"
  by (rule wp_same) (auto dest: fsync_dir)

lemma wp_device_of:
  "dinv d \<Longrightarrow> (\<And>x d'. dinv d' \<Longrightarrow> vis d' = vis d \<Longrightarrow> Q x d') \<Longrightarrow>
   (\<And>e d'. dinv d' \<Longrightarrow> vis d' = vis d \<Longrightarrow> E e d') \<Longrightarrow> wp (do_device_of D p) Q E d"
  by (rule wp_same) (auto dest: device_of)

lemma wp_read_dir_count:
  "dinv d \<Longrightarrow> (\<And>x d'. dinv d' \<Longrightarrow> vis d' = vis d \<Longrightarrow> Q x d') \<Longrightarrow>
   (\<And>e d'. dinv d' \<Longrightarrow> vis d' = vis d \<Longrightarrow> E e d') \<Longrightarrow> wp (fs_read_dir_count D p) Q E d"
  by (rule wp_same) (auto dest: read_dir_count)

lemma wp_write_new_file:
  assumes "dinv d"
    and "\<And>d'. dinv d' \<Longrightarrow> vis d p = None \<Longrightarrow> vis d' = (vis d)(p \<mapsto> bs) \<Longrightarrow> Q () d'"
    and "\<And>e d'. dinv d' \<Longrightarrow> (\<forall>q. q \<noteq> p \<longrightarrow> vis d' q = vis d q) \<Longrightarrow> E e d'"
  shows "wp (do_write_new_file D p bs) Q E d"
proof (rule wpI)
  fix x d' assume run: "do_write_new_file D p bs d = (Inr x, d')"
  note law = write_new_file [OF assms(1) run]
  then have "vis d' = (vis d)(p \<mapsto> bs)" by (auto simp: fun_eq_iff)
  with law assms(2) [of d'] show "Q x d'" by simp
next
  fix e d' assume run: "do_write_new_file D p bs d = (Inl e, d')"
  from write_new_file [OF assms(1) run] assms(3) [of d'] show "E e d'" by simp
qed

lemma wp_rename:
  assumes "dinv d"
    and "\<And>d'. dinv d' \<Longrightarrow> vis d p \<noteq> None \<Longrightarrow> vis d' = (vis d)(p := None, q := vis d p) \<Longrightarrow> Q () d'"
    and "\<And>e d'. dinv d' \<Longrightarrow> vis d' = vis d \<Longrightarrow> E e d'"
  shows "wp (do_rename D p q) Q E d"
proof (rule wpI)
  fix x d' assume run: "do_rename D p q d = (Inr x, d')"
  from rename [OF assms(1) run] assms(2) [of d'] show "Q x d'" by simp
next
  fix e d' assume run: "do_rename D p q d = (Inl e, d')"
  from rename [OF assms(1) run] assms(3) [of d'] show "E e d'" by simp
qed

lemma wp_remove_file:
  assumes "dinv d"
    and "\<And>d'. dinv d' \<Longrightarrow> vis d' = (vis d)(p := None) \<Longrightarrow> Q () d'"
    and "\<And>e d'. dinv d' \<Longrightarrow> vis d' = vis d \<Longrightarrow> E e d'"
  shows "wp (do_remove_file D p) Q E d"
proof (rule wpI)
  fix x d' assume run: "do_remove_file D p d = (Inr x, d')"
  from remove_file [OF assms(1) run] assms(2) [of d'] show "Q x d'" by simp
next
  fix e d' assume run: "do_remove_file D p d = (Inl e, d')"
  from remove_file [OF assms(1) run] assms(3) [of d'] show "E e d'" by simp
qed

lemma wp_query_is_dir:
  assumes "ok s" and "\<And>b d'. dinv d' \<Longrightarrow> vis d' = fil s \<Longrightarrow> Q b (s\<lparr>bs_disk := d'\<rparr>)"
  shows "wp (query (fs_is_dir D p)) Q E s"
  using assms is_dir [of "bs_disk s"] by (auto simp: query_def wp_def split: prod.split)

lemma wp_query_is_file:
  assumes "ok s" and "\<And>b d'. dinv d' \<Longrightarrow> vis d' = fil s \<Longrightarrow> (b \<longrightarrow> fil s p \<noteq> None) \<Longrightarrow> Q b (s\<lparr>bs_disk := d'\<rparr>)"
  shows "wp (query (fs_is_file D p)) Q E s"
  using assms is_file [of "bs_disk s"] by (auto simp: query_def wp_def split: prod.split)

lemma wp_fsync_dirs:
  assumes "ok s"
    and "\<And>x s'. ok s' \<Longrightarrow> fil s' = fil s \<Longrightarrow> Q x s'"
    and "\<And>e s'. ok s' \<Longrightarrow> fil s' = fil s \<Longrightarrow> E e s'"
  shows "wp (forM ds (\<lambda>d. on_disk (do_fsync_dir D d))) Q E s"
  by (rule wp_forM_inv [where I = "\<lambda>_ s'. ok s' \<and> fil s' = fil s"])
    (use assms in \<open>auto intro!: wp_fsync_dir\<close>)

lemma fsync_chain_spec:
  assumes "ok s"
    and "\<And>x s'. ok s' \<Longrightarrow> fil s' = fil s \<Longrightarrow> Q x s'"
    and "\<And>e s'. ok s' \<Longrightarrow> fil s' = fil s \<Longrightarrow> E e s'"
  shows "wp (fsync_chain_deepest_up D w dir) Q E s"
  unfolding fsync_chain_deepest_up_def wp_bindM wp_getsM
  by (rule wp_fsync_dirs) (use assms in auto)

lemma stage_block_spec:
  assumes "ok s"
  shows "wp (stage_block D hex w i depth bs)
    (\<lambda>g s'. ok s' \<and> sg_depth g = depth \<and> sg_final_path g = block_disk_path hex i depth (wr_root w) \<and>
       sg_fanout_dir g = butlast (sg_final_path g) \<and> sg_temp_path g = wr_tmp w @ [temp_name hex i (bs_nonce s)] \<and>
       fil s (sg_temp_path g) = None \<and> fil s' = (fil s)(sg_temp_path g \<mapsto> bs))
    (\<lambda>e s'. ok s' \<and> (\<forall>q. q \<noteq> wr_tmp w @ [temp_name hex i (bs_nonce s)] \<longrightarrow> fil s' q = fil s q)) s"
  unfolding stage_block_def Let_def wp_bindM wp_on_disk wp_next_nonce
  by (rule wp_create_dir_all [OF assms]) (auto intro!: wp_write_new_file wp_remove_file)

lemma write_attempt:
  assumes t: "ok t" "fil t = fil s" and "butlast (block_disk_path hex i depth (wr_root w)) \<noteq> wr_tmp w"
  defines "p \<equiv> block_disk_path hex i depth (wr_root w)"
  shows "wp (bindM (on_disk (do_write_new_file D (wr_tmp w @ [x]) bs)) (\<lambda>_.
          bindM (if syncs w then
              bindM (on_disk (do_fsync_file D (wr_tmp w @ [x]) True)) (\<lambda>_. fsync_chain_deepest_up D w (butlast p))
            else ret ()) (\<lambda>_.
          bindM (on_disk (do_rename D (wr_tmp w @ [x]) p)) (\<lambda>_.
          bindM (if syncs w then on_disk (do_fsync_dir D (butlast p)) else ret ()) (\<lambda>_.
            ret p)))))
    (\<lambda>r s'. ok s' \<and> r = p \<and> fil s' = (fil s)(p \<mapsto> bs))
    (\<lambda>e s'. ok s' \<and> (\<forall>q. q \<noteq> wr_tmp w @ [x] \<longrightarrow> fil s' q = fil s q \<or> q = p \<and> fil s' q = Some bs)) t"
proof -
  let ?t = "wr_tmp w @ [x]"
  have tp: "p \<noteq> ?t" using assms(3) by (auto simp: p_def)
  have upd: "(fil s)(?t \<mapsto> bs, ?t := None, p \<mapsto> bs) = (fil s)(p \<mapsto> bs)" if "fil s ?t = None"
    using that tp by (auto simp: fun_eq_iff)
  let ?same = "\<lambda>t _ s'. ok s' \<and> fil s' = fil t"
  let ?E = "\<lambda>e s'. ok s' \<and> (\<forall>q. q \<noteq> wr_tmp w @ [x] \<longrightarrow> fil s' q = fil s q \<or> q = p \<and> fil s' q = Some bs)"
  have pre: "wp (if syncs w then bindM (on_disk (do_fsync_file D ?t True))
      (\<lambda>_. fsync_chain_deepest_up D w (butlast p)) else ret ()) (?same t) (?same t) t" if "ok t" for t
    using that by (auto intro!: wp_fsync_file fsync_chain_spec)
  have post: "wp (if syncs w then on_disk (do_fsync_dir D (butlast p)) else ret ()) (?same t) (?same t) t"
    if "ok t" for t
    using that by (auto intro!: wp_fsync_dir)
  let ?Q = "\<lambda>p s'. ok s' \<and> p = p \<and> fil s' = (fil s)(p \<mapsto> bs)"
  have rn: "wp (on_disk (do_rename D ?t p)) (\<lambda>_ s'. ok s' \<and> fil s' = (fil s)(p \<mapsto> bs)) ?E t"
    if "ok t" "fil s ?t = None" "fil t = (fil s)(?t \<mapsto> bs)" for t
    unfolding wp_on_disk
    by (rule wp_rename) (use that upd in \<open>simp_all add: fun_upd_def\<close>)
  show ?thesis
    unfolding wp_bindM wp_on_disk [where m = "do_write_new_file D ?t bs"]
  proof (rule wp_write_new_file, goal_cases)
    case (2 d)
    let ?u = "t\<lparr>bs_disk := d\<rparr>"
    from 2 t have u: "ok ?u" "fil s ?t = None" "fil ?u = (fil s)(?t \<mapsto> bs)" by simp_all
    show ?case
    proof (rule wp_mono [OF pre [OF u(1)]], goal_cases)
      case (1 _ v)
      with u have v: "ok v" "fil v = (fil s)(?t \<mapsto> bs)" by simp_all
      show ?case
      proof (rule wp_mono [OF rn [OF v(1) u(2) v(2)]], goal_cases)
        case (1 _ y)
        then show ?case by (intro wp_mono [OF post]) simp_all
      qed assumption
    qed (use u in simp)
  qed (use t in \<open>auto dest: butlast_neq_snoc\<close>)
qed

lemma write_block_spec:
  assumes "ok s" "butlast (block_disk_path hex i depth (wr_root w)) \<noteq> wr_tmp w"
  shows "wp (write_block D hex w i depth bs)
    (\<lambda>p s'. ok s' \<and> p = block_disk_path hex i depth (wr_root w) \<and> fil s' = (fil s)(p \<mapsto> bs))
    (\<lambda>e s'. ok s' \<and> (\<forall>q. q \<noteq> wr_tmp w @ [temp_name hex i (bs_nonce s)] \<longrightarrow>
       fil s' q = fil s q \<or> q = block_disk_path hex i depth (wr_root w) \<and> fil s' q = Some bs)) s"
proof -
  let ?p = "block_disk_path hex i depth (wr_root w)"
  let ?Q = "\<lambda>p s'. ok s' \<and> p = ?p \<and> fil s' = (fil s)(p \<mapsto> bs)"
  let ?t = "wr_tmp w @ [temp_name hex i (bs_nonce s)]"
  let ?E = "\<lambda>e s'. ok s' \<and> (\<forall>q. q \<noteq> ?t \<longrightarrow> fil s' q = fil s q \<or> q = ?p \<and> fil s' q = Some bs)"
  have clean: "wp (ignore (on_disk (do_remove_file D ?t))) (\<lambda>_. wp (raise e) ?Q ?E) ?E t" if "?E e t" for e t
    unfolding wp_ignore wp_on_disk by (rule wp_remove_file) (use that in simp_all)
  show ?thesis
    unfolding write_block_def Let_def
    apply (subst wp_bindM, subst wp_on_disk, rule wp_create_dir_all [OF assms(1)])
     apply (subst wp_bindM, subst wp_next_nonce, subst wp_orElse)
     apply (rule wp_mono [OF write_attempt [OF _ _ assms(2), where s = s]])
    using clean by simp_all
qed

lemma sync_each_spec:
  assumes "ok s"
  shows "wp (sync_each D ps) (\<lambda>_ s'. ok s' \<and> fil s' = fil s) (\<lambda>_ _. False) s"
  using assms
proof (induction ps arbitrary: s)
  case (Cons p ps)
  have "wp (sync_each D ps) (\<lambda>_ s'. ok s' \<and> fil s' = fil s) (\<lambda>_ _. False) (s\<lparr>bs_disk := d\<rparr>)"
    if "dinv d" "vis d = fil s" for d
    using Cons.IH [of "s\<lparr>bs_disk := d\<rparr>"] that by simp
  with Cons.prems show ?case by (auto intro!: wp_fsync_file)
qed simp

lemma sync_batch_spec:
  assumes "ok s"
  shows "wp (sync_batch D w ps) (\<lambda>_ s'. ok s' \<and> fil s' = fil s) (\<lambda>_ s'. ok s' \<and> fil s' = fil s) s"
  unfolding sync_batch_def
  using sync_each_spec [OF assms, of ps] assms by (auto elim!: wp_mono split: option.split)

lemma renames_spec:
  assumes "ok s"
  shows "wp (forM bs (\<lambda>b. on_disk (do_rename D (sg_temp_path b) (sg_final_path b))))
    (\<lambda>_ s'. ok s' \<and> fil s' = land_files bs (fil s))
    (\<lambda>_ s'. ok s' \<and> (\<exists>n \<le> length bs. fil s' = land_files (take n bs) (fil s))) s"
proof (rule wp_forM_inv [where I = "\<lambda>done s'. ok s' \<and> fil s' = land_files done (fil s)"], goal_cases)
  case (2 b "done" rest t)
  then show ?case unfolding wp_on_disk
    by (intro wp_rename) (auto simp: fun_upd_def intro!: exI [of _ "length done"])
qed (use assms in simp_all)

lemma land_batch_spec:
  assumes "ok s"
  shows "wp (land_batch D w bs)
    (\<lambda>_ s'. ok s' \<and> fil s' = land_files bs (fil s))
    (\<lambda>_ s'. ok s' \<and> (\<exists>n \<le> length bs. fil s' = land_files (take n bs) (fil s))) s"
  unfolding land_batch_def wp_bindM
proof (rule wp_mono [OF renames_spec [OF assms]], goal_cases)
  case (1 _ t)
  then show ?case
    by (auto intro!: wp_fsync_dirs exI [of _ "length bs"])
qed auto

lemma discard_staged_spec:
  assumes "ok s"
  shows "wp (discard_staged D b)
    (\<lambda>_ s'. ok s' \<and> (fil s' = fil s \<or> fil s' = (fil s)(sg_temp_path b := None))) (\<lambda>_ _. False) s"
  unfolding discard_staged_def wp_ignore wp_on_disk
  by (rule wp_remove_file) (use assms in simp_all)

lemma unlink_block_spec:
  assumes "ok s"
  shows "wp (unlink_block D hex w i depth)
    (\<lambda>_ s'. ok s' \<and> fil s' = (fil s)(block_disk_path hex i depth (wr_root w) := None))
    (\<lambda>_ s'. ok s' \<and> fil s' = fil s) s"
  unfolding unlink_block_def wp_on_disk
  by (rule wp_remove_file) (use assms in simp_all)

lemma probe_walk_spec:
  assumes "ok s" "level + length bs \<le> 32"
  shows "wp (probe_walk D hex name dir level bs)
    (\<lambda>r s'. ok s' \<and> fil s' = fil s \<and> (\<forall>d. r = Some d \<longrightarrow> level < unat d \<and> unat d \<le> level + length bs \<and>
       fil s (dir @ map (\<lambda>b. hex [b]) (take (unat d - level) bs) @ [name]) \<noteq> None))
    (\<lambda>_ _. False) s"
  using assms
proof (induction bs arbitrary: s level dir)
  case (Cons b bs)
  have u: "unat (of_nat level + 1 :: u8) = level + 1"
    using Cons.prems(2) by (simp add: unat_word_ariths unat_of_nat)
  show ?case
    unfolding probe_walk.simps Let_def wp_bindM
  proof (rule wp_query_is_dir [OF Cons.prems(1)], goal_cases)
    case (1 isd d')
    show ?case
    proof (cases isd)
      case True
      show ?thesis
      proof (simp only: True simp_thms if_False wp_bindM, rule wp_query_is_file, goal_cases)
        case 1 then show ?case using \<open>dinv d'\<close> by simp
      next
        case (2 isf d'')
        show ?case
        proof (cases isf)
          case True
          with 2 1 u show ?thesis by simp
        next
          case False
          have "Suc level + length bs \<le> 32" using Cons.prems(2) by simp
          from Cons.IH [OF _ this, of "s\<lparr>bs_disk := d''\<rparr>" "dir @ [hex [b]]"] False 2 1
          show ?thesis
            by (auto elim!: wp_mono simp: Suc_diff_le numeral_eq_Suc take_Cons')
        qed
      qed
    qed (use 1 in simp)
  qed
qed simp

lemma counter_spec:
  assumes "ok s" and "\<And>n s'. ok s' \<Longrightarrow> fil s' = fil s \<Longrightarrow> Q n s'"
  shows "wp (counter D dir) Q E s"
  unfolding counter_def approximate_entry_count_def
  using assms by (auto split: option.split intro!: wp_read_dir_count)

lemma policy_walk_spec:
  assumes "ok s" "level + length bs = width" "width \<le> 32" "bs \<noteq> []"
  shows "wp (policy_walk D hex pl width dir level bs)
    (\<lambda>r s'. ok s' \<and> fil s' = fil s \<and> level < unat r \<and> unat r \<le> width) E s"
  using assms
proof (induction bs arbitrary: s level dir)
  case (Cons b bs)
  have u: "unat (of_nat level + 1 :: u8) = level + 1"
    using Cons.prems(2,3) by (simp add: unat_word_ariths unat_of_nat)
  show ?case
    unfolding policy_walk.simps Let_def wp_bindM
  proof (rule counter_spec [OF Cons.prems(1)], goal_cases)
    case (1 n t)
    show ?case
    proof (cases "n < pl_max_dir_entries pl \<or> level + 1 = width")
      case True
      with 1 u Cons.prems(2) show ?thesis by simp
    next
      case False
      with Cons.prems(2) have "bs \<noteq> []" "Suc level + length bs = width" by auto
      from Cons.IH [OF 1(1) this(2) Cons.prems(3) this(1), of "dir @ [hex [b]]"] False 1(2)
      show ?thesis by (auto elim!: wp_mono)
    qed
  qed
qed simp

lemma choose_depth_spec:
  assumes "ok s" "wf_block_id i"
  shows "wp (choose_depth D hex pl i)
    (\<lambda>r s'. ok s' \<and> fil s' = fil s \<and> 1 \<le> unat r \<and> unat r \<le> block_id_len i) (\<lambda>_ _. False) s"
proof -
  have len: "length (as_slice i) = block_id_len i" "block_id_len i \<le> 32" "as_slice i \<noteq> []"
    using length_as_slice [OF assms(2)] assms(2)
    by (auto simp: wf_block_id_def BLOCKID_SIZE_def MAX_BLOCKID_SIZE_def)
  have rec: "wp (record_placement D hex pl i d) (\<lambda>_ s'. ok s' \<and> fil s' = fil t) (\<lambda>_ _. False) t" if "ok t" for t d
    unfolding record_placement_def Let_def wp_bindM by (rule counter_spec [OF that]) simp
  show ?thesis
    unfolding choose_depth_def probe_orphan_def wp_bindM
  proof (rule wp_mono [OF probe_walk_spec], goal_cases)
    case (3 found t)
    show ?case
    proof (cases found)
      case None
      show ?thesis unfolding None option.case policy_depth_def wp_bindM
        apply (rule wp_mono [OF policy_walk_spec])
        using 3 len None by (auto elim!: wp_mono intro!: wp_mono [OF rec])
    next
      case (Some d)
      with 3 len show ?thesis by auto
    qed
  qed (use assms len in auto)
qed

lemma wp_list_dir:
  assumes "dinv d"
    and "\<And>ps d'. dinv d' \<Longrightarrow> vis d' = vis d \<Longrightarrow> (\<forall>q \<in> set ps. q \<noteq> [] \<and> butlast q = p) \<Longrightarrow>
      (\<forall>q. q \<noteq> [] \<longrightarrow> butlast q = p \<longrightarrow> vis d q \<noteq> None \<longrightarrow> q \<in> set ps) \<Longrightarrow> Q ps d'"
    and "\<And>e d'. dinv d' \<Longrightarrow> vis d' = vis d \<Longrightarrow> E e d'"
  shows "wp (do_list_dir D p) Q E d"
proof (rule wpI)
  fix ps d' assume run: "do_list_dir D p d = (Inr ps, d')"
  from list_dir [OF assms(1) run] show "Q ps d'" by (intro assms(2)) simp_all
next
  fix e d' assume run: "do_list_dir D p d = (Inl e, d')"
  from list_dir [OF assms(1) run] show "E e d'" by (intro assms(3)) simp_all
qed

lemma wp_read:
  assumes "dinv d"
    and "\<And>bs d'. dinv d' \<Longrightarrow> vis d' = vis d \<Longrightarrow> vis d p = Some bs \<Longrightarrow> Q bs d'"
    and "\<And>e d'. dinv d' \<Longrightarrow> vis d' = vis d \<Longrightarrow> (io_kind_of e = NotFound \<longrightarrow> vis d p = None) \<Longrightarrow> E e d'"
  shows "wp (fs_read D p) Q E d"
proof (rule wpI)
  fix bs d' assume run: "fs_read D p d = (Inr bs, d')"
  from read [OF assms(1) run] show "Q bs d'" by (intro assms(2)) simp_all
next
  fix e d' assume run: "fs_read D p d = (Inl e, d')"
  from read [OF assms(1) run] show "E e d'" by (intro assms(3)) simp_all
qed

lemma read_store_id_marker_spec:
  assumes "ok s"
  shows "wp (read_store_id_marker D hex_decode root)
    (\<lambda>m s'. ok s' \<and> fil s' = fil s \<and> m = marker_of hex_decode (fil s (root @ [STORE_ID_MARKER_NAME])))
    (\<lambda>e s'. ok s' \<and> fil s' = fil s) s"
  unfolding read_store_id_marker_def wp_bindM wp_tryM wp_on_disk
  by (rule wp_read [OF assms]) (auto simp: marker_of_def)

lemma purge_spec:
  assumes "ok s" "\<forall>q \<in> set stale. q \<noteq> [] \<and> butlast q = tmp"
    "\<forall>q. q \<noteq> [] \<longrightarrow> butlast q = tmp \<longrightarrow> fil s q \<noteq> None \<longrightarrow> q \<in> set stale"
  shows "wp (forM stale (\<lambda>p. on_disk (do_remove_file D p)))
    (\<lambda>_ s'. ok s' \<and> (\<forall>q. q \<noteq> [] \<longrightarrow> butlast q = tmp \<longrightarrow> fil s' q = None) \<and>
       (\<forall>q. butlast q \<noteq> tmp \<longrightarrow> fil s' q = fil s q))
    (\<lambda>_ s'. ok s' \<and> (\<forall>q. butlast q \<noteq> tmp \<longrightarrow> fil s' q = fil s q)) s"
proof (rule wp_forM_inv [where I = "\<lambda>done s'. ok s' \<and> (\<forall>q. fil s' q = (if q \<in> set done then None else fil s q))"],
    goal_cases)
  case (2 p "done" rest t)
  with assms(2) have out: "q \<notin> set done" if "butlast q \<noteq> tmp" for q using that by auto
  from 2 have t: "ok t" "\<And>q. fil t q = (if q \<in> set done then None else fil s q)" by simp_all
  show ?case unfolding wp_on_disk
  proof (rule wp_remove_file [OF t(1)], goal_cases)
    case (1 d)
    then show ?case using t(2) by simp
  next
    case (2 e d)
    then show ?case using t(2) out by simp
  qed
next
  case (3 ys t)
  then have t: "ok t" "\<And>q. fil t q = (if q \<in> set stale then None else fil s q)" by simp_all
  have "q \<notin> set stale" if "butlast q \<noteq> tmp" for q using assms(2) that by auto
  moreover have "fil s q = None" if "q \<noteq> []" "butlast q = tmp" "q \<notin> set stale" for q using assms(3) that by blast
  ultimately show ?case using t by simp
qed (use assms(1) in simp_all)

lemma writer_open_spec:
  assumes "ok s"
  shows "wp (writer_open D hex_decode root dur)
    (\<lambda>w s'. ok s' \<and> wr_root w = root \<and> wr_tmp w = root @ [TMP_DIR_NAME] \<and> wr_durability w = dur \<and>
       (\<forall>q. q \<noteq> [] \<longrightarrow> butlast q = wr_tmp w \<longrightarrow> fil s' q = None) \<and>
       (\<forall>q. butlast q \<noteq> wr_tmp w \<longrightarrow> fil s' q = fil s q) \<and>
       wr_marker w = marker_of hex_decode (fil s (root @ [STORE_ID_MARKER_NAME])))
    (\<lambda>e s'. ok s' \<and> (\<forall>q. butlast q \<noteq> root @ [TMP_DIR_NAME] \<longrightarrow> fil s' q = fil s q)) s"
proof -
  let ?tmp = "root @ [TMP_DIR_NAME]"
  let ?E = "\<lambda>(e :: io_error) s'. ok s' \<and> (\<forall>q. butlast q \<noteq> ?tmp \<longrightarrow> fil s' q = fil s q)"
  let ?purged = "\<lambda>s'. ok s' \<and> (\<forall>q. q \<noteq> [] \<longrightarrow> butlast q = ?tmp \<longrightarrow> fil s' q = None) \<and>
       (\<forall>q. butlast q \<noteq> ?tmp \<longrightarrow> fil s' q = fil s q)"
  have out: "fil t (root @ [STORE_ID_MARKER_NAME]) = fil s (root @ [STORE_ID_MARKER_NAME])" if "?purged t" for t
    using that by simp
  have dev: "wp (on_disk (do_device_of D p)) (\<lambda>_ s'. ?purged s') ?E t" if "?purged t" for t p
    unfolding wp_on_disk using that by (auto intro!: wp_device_of)
  have sync: "wp (on_disk (do_fsync_dir D p)) (\<lambda>_ s'. ?purged s') ?E t" if "?purged t" for t p
    unfolding wp_on_disk using that by (auto intro!: wp_fsync_dir)
  let ?mk = "\<lambda>m. m = marker_of hex_decode (fil s (root @ [STORE_ID_MARKER_NAME]))"
  have mark: "wp (read_store_id_marker D hex_decode root) (\<lambda>m s'. ?purged s' \<and> ?mk m) ?E t" if "?purged t" for t
    by (rule wp_mono [OF read_store_id_marker_spec]) (use that out [OF that] in auto)
  have parent: "wp (if root = [] then ret () else on_disk (do_fsync_dir D (butlast root))) (\<lambda>_ s'. ?purged s') ?E t"
    if "?purged t" for t
    using sync [OF that, of "butlast root"] that by simp
  let ?same = "\<lambda>_ t. ok t \<and> fil t = fil s"
  have mk: "wp (on_disk (do_create_dir_all D p)) ?same ?E t" if "?same () t" for t p
    unfolding wp_on_disk by (rule wp_create_dir_all) (use that in auto)
  have ls: "wp (on_disk (do_list_dir D ?tmp)) (\<lambda>ps t. ?same () t \<and> (\<forall>q \<in> set ps. q \<noteq> [] \<and> butlast q = ?tmp) \<and>
      (\<forall>q. q \<noteq> [] \<longrightarrow> butlast q = ?tmp \<longrightarrow> fil s q \<noteq> None \<longrightarrow> q \<in> set ps)) ?E t" if "?same () t" for t
    unfolding wp_on_disk by (rule wp_list_dir) (use that in auto)
  have purge: "wp (forM ps (\<lambda>p. on_disk (do_remove_file D p))) (\<lambda>_ t. ?purged t) ?E t"
    if "?same () t \<and> (\<forall>q \<in> set ps. q \<noteq> [] \<and> butlast q = ?tmp) \<and>
      (\<forall>q. q \<noteq> [] \<longrightarrow> butlast q = ?tmp \<longrightarrow> fil s q \<noteq> None \<longrightarrow> q \<in> set ps)" for t ps
    by (rule wp_mono [OF purge_spec [where tmp = ?tmp]]) (use that in auto)
  show ?thesis
    unfolding writer_open_def Let_def
    apply (rule wp_seq [OF mk], simp add: assms)
    apply (rule wp_seq [OF mk], simp)
    apply (rule wp_seq [OF ls], simp)
    apply (rule wp_seq [OF purge], assumption)
    apply (rule wp_seq [OF dev], assumption)
    apply (rule wp_seq [OF dev], assumption)
    apply (rule if_cases, simp)
    apply (rule wp_seq [OF mark], assumption)
    apply (rule if_cases)
     apply (rule wp_seq [OF sync], elim conjE, simp)
     apply (rule wp_seq [OF sync], assumption)
     apply (rule wp_seq [OF parent], assumption)
     apply simp_all
    done
qed

lemma write_marker_spec:
  fixes hex :: "bytes \<Rightarrow> string" and i :: store_id
  assumes "ok s" "root \<noteq> tmp"
  defines "p \<equiv> root @ [STORE_ID_MARKER_NAME]"
    and "contents \<equiv> as_bytes (store_id_to_hex hex i) @ [10]"
  shows "wp (write_marker D hex root tmp i)
    (\<lambda>_ s'. ok s' \<and> fil s' p = Some contents \<and> (\<forall>q. butlast q \<noteq> tmp \<longrightarrow> q \<noteq> p \<longrightarrow> fil s' q = fil s q))
    (\<lambda>_ s'. ok s' \<and> (fil s' p = fil s p \<or> fil s' p = Some contents) \<and>
       (\<forall>q. butlast q \<noteq> tmp \<longrightarrow> q \<noteq> p \<longrightarrow> fil s' q = fil s q)) s"
proof -
  let ?keep = "\<lambda>s'. \<forall>q. butlast q \<noteq> tmp \<longrightarrow> q \<noteq> p \<longrightarrow> fil s' q = fil s q"
  let ?E = "\<lambda>(_ :: io_error) s'. ok s' \<and> (fil s' p = fil s p \<or> fil s' p = Some contents) \<and> ?keep s'"
  have pt: "p \<noteq> tmp @ [x]" "butlast p \<noteq> tmp" for x using assms(2) by (auto simp: p_def)
  let ?same = "\<lambda>_ t. ok t \<and> fil t = fil s"
  have mk: "wp (on_disk (do_create_dir_all D tmp)) ?same ?E s"
    unfolding wp_on_disk by (rule wp_create_dir_all) (use assms(1) in auto)
  have wr: "wp (on_disk (do_write_new_file D (tmp @ [x]) contents))
      (\<lambda>_ t. ok t \<and> fil t (tmp @ [x]) = Some contents \<and> fil t p = fil s p \<and> ?keep t) ?E t" if "?same () t" for t x
    unfolding wp_on_disk
    by (rule wp_write_new_file) (use that pt in \<open>auto dest: butlast_neq_snoc\<close>)
  have sy: "wp (on_disk (do_fsync_file D (tmp @ [x]) False))
      (\<lambda>_ t. ok t \<and> fil t (tmp @ [x]) = Some contents \<and> fil t p = fil s p \<and> ?keep t) ?E t"
    if "ok t \<and> fil t (tmp @ [x]) = Some contents \<and> fil t p = fil s p \<and> ?keep t" for t x
    unfolding wp_on_disk by (rule wp_fsync_file) (use that in auto)
  have rn: "wp (on_disk (do_rename D (tmp @ [x]) p)) (\<lambda>_ t. ok t \<and> fil t p = Some contents \<and> ?keep t) ?E t"
    if "ok t \<and> fil t (tmp @ [x]) = Some contents \<and> fil t p = fil s p \<and> ?keep t" for t x
    unfolding wp_on_disk by (rule wp_rename) (use that pt in simp_all)
  have fs: "wp (on_disk (do_fsync_dir D root)) (\<lambda>_ t. ok t \<and> fil t p = Some contents \<and> ?keep t) ?E t"
    if "ok t \<and> fil t p = Some contents \<and> ?keep t" for t
    unfolding wp_on_disk by (rule wp_fsync_dir) (use that in auto)
  have clean: "wp (bindM (ignore (on_disk (do_remove_file D (tmp @ [x])))) (\<lambda>_. raise e)) Q ?E t"
    if "?E e t" for e t x and Q :: "unit \<Rightarrow> 'd bstore \<Rightarrow> bool"
    unfolding wp_bindM wp_ignore wp_on_disk by (rule wp_remove_file) (use that pt in simp_all)
  show ?thesis
    unfolding write_marker_def Let_def p_def [symmetric] contents_def [symmetric]
    apply (rule wp_seq [OF mk])
    apply (rule wp_seq [where R = "\<lambda>_ t. ok t \<and> fil t = fil s"], simp)
    apply (subst wp_orElse)
    apply (rule wp_mono [where E = ?E])
      apply (rule wp_seq [OF wr], assumption)
      apply (rule wp_seq [OF sy], assumption)
      apply (rule wp_seq [OF rn], assumption)
      apply (rule fs, assumption)
     apply assumption
    apply (rule clean, assumption)
    done
qed

end

subsection \<open>The local file system meets the contract\<close>

definition disk_file :: "disk \<Rightarrow> path \<Rightarrow> bytes option" where
  "disk_file d p = map_option ff_data (file_at d p)"

definition disk_ok :: "disk \<Rightarrow> bool" where
  "disk_ok d \<longleftrightarrow> omap_ok (dk_files d) \<and> (\<forall>p. disk_file d p \<noteq> None \<longrightarrow> is_dir d (butlast p))"

lemma disk_file_same [simp]:
  "disk_file (mkdirs ps d) = disk_file d"
  "disk_file (d\<lparr>dk_faults := fs\<rparr>) = disk_file d"
  "disk_file (d\<lparr>dk_linked := ls\<rparr>) = disk_file d"
  by (simp_all add: fun_eq_iff disk_file_def file_at_def mkdirs_def)

lemma is_dir_same [simp]:
  "is_dir (d\<lparr>dk_faults := fs\<rparr>) = is_dir d"
  "is_dir (d\<lparr>dk_linked := ls\<rparr>) = is_dir d"
  "is_dir (d\<lparr>dk_files := fl\<rparr>) = is_dir d"
  "is_dir (put_file p bs d) = is_dir d"
  by (simp_all add: fun_eq_iff is_dir_def put_file_def)

lemma is_dir_mkdirs: "is_dir d p \<Longrightarrow> is_dir (mkdirs ps d) p"
  by (auto simp: is_dir_def mkdirs_def)

lemma disk_ok_same [simp]:
  "disk_ok d \<Longrightarrow> disk_ok (mkdirs ps d)"
  "disk_ok (d\<lparr>dk_faults := fs\<rparr>) = disk_ok d"
  "disk_ok (d\<lparr>dk_linked := ls\<rparr>) = disk_ok d"
  by (auto simp: disk_ok_def is_dir_mkdirs) (simp add: mkdirs_def)

lemma disk_file_put [simp]:
  "disk_file (put_file p bs d) = (disk_file d)(p \<mapsto> bs)"
  by (auto simp: fun_eq_iff disk_file_def file_at_def put_file_def)

lemma disk_ok_put [simp]: "disk_ok d \<Longrightarrow> is_dir d (butlast p) \<Longrightarrow> disk_ok (put_file p bs d)"
  by (auto simp: disk_ok_def) (simp add: put_file_def)

lemma with_fault_run:
  assumes "with_fault part m d = (r, d')"
  obtains fs where "m (d\<lparr>dk_faults := fs\<rparr>) = (r, d')"
  | fs msg n where "r = Inl (IoError OtherKind msg)" "d' = part n (d\<lparr>dk_faults := fs\<rparr>)"
proof (cases "dk_faults d")
  case Nil
  have eq: "d\<lparr>dk_faults := []\<rparr> = d" using Nil by (cases d) simp
  have "m (d\<lparr>dk_faults := []\<rparr>) = (r, d')" unfolding eq using assms Nil by (simp add: with_fault_def)
  then show thesis by (rule that(1))
next
  case (Cons f fs)
  show thesis
  proof (cases f)
    case Fine
    then show thesis using assms Cons that(1) [of fs] by (simp add: with_fault_def)
  next
    case (Fault msg n)
    then show thesis using assms Cons that(2) [of msg n fs] by (simp add: with_fault_def)
  qed
qed

lemma disk_file_none [simp]: "file_at d p = None \<longleftrightarrow> disk_file d p = None"
  by (simp add: disk_file_def)

lemma disk_file_resync:
  assumes "disk_ok d" "file_at d p = Some f"
  shows "disk_ok (d\<lparr>dk_files := omap_ins p (f\<lparr>ff_synced := b\<rparr>) (dk_files d)\<rparr>) \<and>
    disk_file (d\<lparr>dk_files := omap_ins p (f\<lparr>ff_synced := b\<rparr>) (dk_files d)\<rparr>) = disk_file d"
proof -
  have "disk_file (d\<lparr>dk_files := omap_ins p (f\<lparr>ff_synced := b\<rparr>) (dk_files d)\<rparr>) = disk_file d"
    using assms by (auto simp: disk_file_def file_at_def fun_eq_iff)
  then show ?thesis using assms(1) by (simp add: disk_ok_def)
qed

lemma disk_file_move:
  assumes "disk_ok d" "file_at d p = Some f" "is_dir d (butlast q)"
  shows "disk_file (d\<lparr>dk_files := omap_ins q f (omap_del p (dk_files d)), dk_linked := ls\<rparr>) =
      (disk_file d)(p := None, q := disk_file d p)" (is ?vis)
    and "disk_ok (d\<lparr>dk_files := omap_ins q f (omap_del p (dk_files d)), dk_linked := ls\<rparr>)"
proof -
  show vis: ?vis using assms(1,2) by (auto simp: disk_ok_def disk_file_def file_at_def fun_eq_iff)
  show "disk_ok (d\<lparr>dk_files := omap_ins q f (omap_del p (dk_files d)), dk_linked := ls\<rparr>)"
    using assms(1,3) unfolding disk_ok_def vis by (auto split: if_splits)
qed

lemma disk_file_drop:
  assumes "disk_ok d"
  shows "disk_file (d\<lparr>dk_files := omap_del p (dk_files d), dk_linked := ls\<rparr>) = (disk_file d)(p := None)" (is ?vis)
    and "disk_ok (d\<lparr>dk_files := omap_del p (dk_files d), dk_linked := ls\<rparr>)"
proof -
  show vis: ?vis using assms by (auto simp: disk_ok_def disk_file_def file_at_def fun_eq_iff)
  show "disk_ok (d\<lparr>dk_files := omap_del p (dk_files d), dk_linked := ls\<rparr>)"
    using assms unfolding disk_ok_def vis by auto
qed

lemma entries_of_iff: "q \<in> set (entries_of p d) \<longleftrightarrow>
    q \<noteq> [] \<and> butlast q = p \<and> (disk_file d q \<noteq> None \<or> q \<in> set (dk_dirs d))"
  by (auto simp: entries_of_def disk_file_def file_at_def map_of_eq_None_iff)

lemma entries_of_faults [simp]: "entries_of p (d\<lparr>dk_faults := fs\<rparr>) = entries_of p d"
  by (simp add: entries_of_def)

lemma std_query_run:
  assumes "std_query q d = (b, d')"
  shows "\<exists>fs. d' = d\<lparr>dk_faults := fs\<rparr> \<and> (b \<longrightarrow> q d')"
proof -
  obtain r d'' where run: "with_fault (\<lambda>n d. d) (\<lambda>d. (Inr (q d), d)) d = (r, d'')" by fastforce
  with assms have "d'' = d'" "b \<longrightarrow> r = Inr True"
    by (auto simp: std_query_def split: sum.splits)
  with run show ?thesis by (elim with_fault_run) auto
qed

interpretation rd: disk_contract real_disk_ops disk_ok disk_file
proof (unfold_locales, goal_cases)
  case (1 d p r d')
  then show ?case unfolding real_disk_ops_def disk_ops.select_convs real_create_dir_all_def
    by (elim with_fault_run) (auto split: if_splits)
next
  case (2 d p bs r d')
  from 2(2) show ?case unfolding real_disk_ops_def disk_ops.select_convs real_write_new_file_def
  proof (cases rule: with_fault_run)
    case (1 fs)
    then show ?thesis using 2(1) by (auto simp: io_fail_def raise_def split: if_splits)
  next
    case (2 fs msg n)
    then show ?thesis using \<open>disk_ok d\<close> by (auto simp: can_create_def split: nat.splits if_splits)
  qed
next
  case (3 d p data_only r d')
  from 3(2) show ?case unfolding real_disk_ops_def disk_ops.select_convs real_fsync_file_def
  proof (cases rule: with_fault_run)
    case (1 fs)
    let ?d = "d\<lparr>dk_faults := fs\<rparr>"
    from 3(1) have ok: "disk_ok ?d" by simp
    show ?thesis
    proof (cases "file_at ?d p")
      case None
      with 1 3(1) show ?thesis by (auto simp: io_fail_def raise_def split: if_splits)
    next
      case (Some f)
      with 1 disk_file_resync [OF ok Some, of True] show ?thesis by simp
    qed
  qed (use 3(1) in simp)
next
  case (4 d p r d')
  then show ?case unfolding real_disk_ops_def disk_ops.select_convs real_fsync_dir_def
    by (elim with_fault_run) (auto simp: io_fail_def raise_def split: if_splits)
next
  case (5 d p q r d')
  from 5(2) show ?case unfolding real_disk_ops_def disk_ops.select_convs real_rename_def
  proof (cases rule: with_fault_run)
    case (1 fs)
    let ?d = "d\<lparr>dk_faults := fs\<rparr>"
    from 5(1) have ok: "disk_ok ?d" by simp
    show ?thesis
    proof (cases "file_at ?d p")
      case None
      with 1 5(1) show ?thesis by (auto simp: io_fail_def raise_def)
    next
      case (Some f)
      then have pf: "disk_file d p = Some (ff_data f)" by (simp add: disk_file_def file_at_def)
      show ?thesis
      proof (cases "is_dir d (butlast q)")
        case True
        then have "is_dir ?d (butlast q)" by simp
        from 1 Some 5(1) disk_file_move [OF ok Some this] pf show ?thesis
          by (auto simp: io_fail_def raise_def split: if_splits)
      qed (use 1 Some 5(1) in \<open>auto simp: io_fail_def raise_def split: if_splits\<close>)
    qed
  qed (use 5(1) in simp)
next
  case (6 d p r d')
  from 6(2) obtain r1 d1 where run: "std_remove_file p d = (r1, d1)" and "d' = d1"
    and r: "r = Inr () \<longleftrightarrow> (\<forall>e. r1 = Inl e \<longrightarrow> io_kind_of e = NotFound)"
    by (cases "std_remove_file p d"; cases "fst (std_remove_file p d)")
      (auto simp: real_disk_ops_def real_remove_file_def bindM_def tryM_def raise_def ret_def split: if_splits)
  from run show ?case unfolding std_remove_file_def
  proof (cases rule: with_fault_run)
    case (1 fs)
    let ?d = "d\<lparr>dk_faults := fs\<rparr>"
    from 6(1) have ok: "disk_ok ?d" by simp
    have gone: "(disk_file d)(p := None) = disk_file d" if "disk_file d p = None"
      using that by (simp add: fun_upd_idem)
    from 1 6(1) r disk_file_drop [OF ok] gone \<open>d' = d1\<close> show ?thesis
      by (auto simp: io_fail_def raise_def split: if_splits)
  qed (use 6(1) r \<open>d' = d1\<close> in simp)
next
  case (7 d p rl d')
  then show ?case unfolding real_disk_ops_def disk_ops.select_convs real_list_dir_def
    by (elim with_fault_run)
      (auto simp: io_fail_def raise_def entries_of_iff split: if_splits)
next
  case (8 d p rd d')
  then show ?case unfolding real_disk_ops_def disk_ops.select_convs real_device_of_def
    by (elim with_fault_run) (auto simp: io_fail_def raise_def split: if_splits)
next
  case (9 d p rb d')
  then show ?case unfolding real_disk_ops_def disk_ops.select_convs std_read_def
    by (elim with_fault_run) (auto simp: io_fail_def raise_def disk_file_def file_at_def split: option.splits if_splits)
next
  case (10 d p b d')
  then show ?case unfolding real_disk_ops_def disk_ops.select_convs
    using std_query_run [of "\<lambda>d. is_dir d p" d b d'] by auto
next
  case (11 d p b d')
  then show ?case unfolding real_disk_ops_def disk_ops.select_convs
    using std_query_run [of "\<lambda>d. file_at d p \<noteq> None" d b d'] by (auto simp: file_at_def disk_file_def)
next
  case (12 d p rn d')
  then show ?case unfolding real_disk_ops_def disk_ops.select_convs std_read_dir_count_def
    by (elim with_fault_run) (auto simp: io_fail_def raise_def split: if_splits)
qed

subsection \<open>What a power cut keeps\<close>

text \<open>The further promises behind \<open>Durability::Fsync\<close>: a synced file keeps its bytes through a rename,
  and syncing a directory puts its entries on stable storage.\<close>

locale durable_disk = disk_contract D dinv vis
  for D :: "'d disk_ops" and dinv vis +
  fixes synced :: "'d \<Rightarrow> path \<Rightarrow> bool"
    and linked :: "'d \<Rightarrow> path \<Rightarrow> bool"
  assumes sync_file: "dinv d \<Longrightarrow> do_fsync_file D p b d = (r, d') \<Longrightarrow>
      (\<forall>q. synced d' q = (synced d q \<or> q = p \<and> r = Inr () \<and> vis d p \<noteq> None)) \<and> linked d' = linked d"
    and sync_dir: "dinv d \<Longrightarrow> do_fsync_dir D p d = (r, d') \<Longrightarrow>
      synced d' = synced d \<and> (\<forall>q. linked d q \<longrightarrow> linked d' q) \<and>
      (r = Inr () \<longrightarrow> (\<forall>q. q \<noteq> [] \<longrightarrow> butlast q = p \<longrightarrow> vis d q \<noteq> None \<longrightarrow> linked d' q))"
    and move: "dinv d \<Longrightarrow> do_rename D p q d = (r, d') \<Longrightarrow> p \<noteq> q \<Longrightarrow>
      (if r = Inr () then synced d' = (synced d)(p := False, q := synced d p) else synced d' = synced d)"
begin

lemma sync_each_synced:
  assumes "ok s" "\<forall>p \<in> set ps. fil s p \<noteq> None"
  shows "wp (sync_each D ps)
    (\<lambda>e s'. ok s' \<and> fil s' = fil s \<and> (\<forall>q. synced (bs_disk s) q \<longrightarrow> synced (bs_disk s') q) \<and>
       (e = None \<longrightarrow> (\<forall>p \<in> set ps. synced (bs_disk s') p))) (\<lambda>_ _. False) s"
  using assms
proof (induction ps arbitrary: s)
  case (Cons p ps)
  have step: "wp (sync_each D ps) (\<lambda>e s'. ok s' \<and> fil s' = fil s \<and>
      (\<forall>q. synced d q \<longrightarrow> synced (bs_disk s') q) \<and> (e = None \<longrightarrow> (\<forall>p \<in> set ps. synced (bs_disk s') p)))
      (\<lambda>_ _. False) (s\<lparr>bs_disk := d\<rparr>)" if "dinv d" "vis d = fil s" for d
    using Cons.IH [of "s\<lparr>bs_disk := d\<rparr>"] that Cons.prems(2) by simp
  show ?case
    unfolding sync_each.simps wp_bindM wp_tryM wp_on_disk
  proof (rule wpI, goal_cases)
    case (1 x d)
    with fsync_file [OF Cons.prems(1) 1] sync_file [OF Cons.prems(1) 1] Cons.prems(2)
    show ?case by (intro wp_mono [OF step]) auto
  next
    case (2 x d)
    with fsync_file [OF Cons.prems(1) 2] sync_file [OF Cons.prems(1) 2]
    show ?case by (intro wp_mono [OF step]) auto
  qed
qed simp

lemma renames_synced:
  assumes "ok s" "\<forall>b \<in> set bs. synced (bs_disk s) (sg_temp_path b)"
    "distinct (map sg_temp_path bs @ map sg_final_path bs)"
  shows "wp (forM bs (\<lambda>b. on_disk (do_rename D (sg_temp_path b) (sg_final_path b))))
    (\<lambda>_ s'. ok s' \<and> (\<forall>b \<in> set bs. fil s' (sg_final_path b) \<noteq> None \<and> synced (bs_disk s') (sg_final_path b)))
    (\<lambda>_ s'. ok s') s"
proof (rule wp_forM_inv [where I = "\<lambda>done s'. ok s' \<and>
      (\<forall>b \<in> set done. fil s' (sg_final_path b) \<noteq> None \<and> synced (bs_disk s') (sg_final_path b)) \<and>
      (\<forall>b \<in> set bs - set done. synced (bs_disk s') (sg_temp_path b))"], goal_cases)
  case (2 b "done" rest t)
  from assms(3) 2(1) have dis: "sg_temp_path b \<noteq> sg_final_path b"
      "\<forall>c \<in> set done. sg_final_path c \<noteq> sg_temp_path b \<and> sg_final_path c \<noteq> sg_final_path b"
      "\<forall>c \<in> set rest. sg_temp_path c \<noteq> sg_temp_path b \<and> sg_temp_path c \<noteq> sg_final_path b"
      and rest: "set bs - set (done @ [b]) \<subseteq> set rest" and b: "b \<in> set bs - set done"
    by (auto simp: image_iff)
  show ?case unfolding wp_on_disk
  proof (rule wpI, goal_cases)
    case (1 x d)
    have t: "dinv (bs_disk t)" using 2(2) by simp
    from rename [OF t 1] move [OF t 1 dis(1)] 2(2) dis b rest show ?case
      by (auto simp: subset_iff)
  next
    case (2 e d)
    then show ?case using rename [of "bs_disk t"] \<open>ok t \<and> _\<close> by auto
  qed
qed (use assms in simp_all)

lemma fsync_dirs_linked:
  assumes "ok s"
  shows "wp (forM ds (\<lambda>d. on_disk (do_fsync_dir D d)))
    (\<lambda>_ s'. ok s' \<and> fil s' = fil s \<and> synced (bs_disk s') = synced (bs_disk s) \<and>
       (\<forall>q. q \<noteq> [] \<longrightarrow> butlast q \<in> set ds \<longrightarrow> fil s q \<noteq> None \<longrightarrow> linked (bs_disk s') q))
    (\<lambda>_ s'. ok s') s"
proof (rule wp_forM_inv [where I = "\<lambda>done s'. ok s' \<and> fil s' = fil s \<and> synced (bs_disk s') = synced (bs_disk s) \<and>
       (\<forall>q. q \<noteq> [] \<longrightarrow> butlast q \<in> set done \<longrightarrow> fil s q \<noteq> None \<longrightarrow> linked (bs_disk s') q)"], goal_cases)
  case (2 p "done" rest t)
  then have t: "dinv (bs_disk t)" by simp
  show ?case unfolding wp_on_disk
  proof (rule wpI, goal_cases)
    case (1 x d)
    from fsync_dir [OF t 1] sync_dir [OF t 1] 2(2) show ?case by simp
  next
    case (2 e d)
    from fsync_dir [OF t 2] show ?case by simp
  qed
qed (use assms in simp_all)

lemma land_batch_durable:
  assumes "ok s" "syncs w" "\<forall>b \<in> set bs. synced (bs_disk s) (sg_temp_path b)"
    "distinct (map sg_temp_path bs @ map sg_final_path bs)"
    "\<forall>b \<in> set bs. sg_final_path b \<noteq> [] \<and> sg_fanout_dir b = butlast (sg_final_path b)"
  shows "wp (land_batch D w bs)
    (\<lambda>_ s'. ok s' \<and> (\<forall>b \<in> set bs. fil s' (sg_final_path b) \<noteq> None \<and>
       synced (bs_disk s') (sg_final_path b) \<and> linked (bs_disk s') (sg_final_path b)))
    (\<lambda>_ s'. ok s') s"
  unfolding land_batch_def wp_bindM
proof (rule wp_mono [OF renames_synced [OF assms(1,3,4)]], goal_cases)
  case (1 _ t)
  let ?ds = "deepest_first (land_chain (bs_durable t) (wr_root w) (map sg_fanout_dir bs) [])"
  have "set (map sg_fanout_dir bs) \<subseteq> set ?ds"
    unfolding deepest_first_def set_sort by (rule land_chain_dirs)
  then have "butlast (sg_final_path b) \<in> set ?ds" if "b \<in> set bs" for b using that assms(5) by auto
  with 1 assms(2,5) show ?case
    by (auto intro!: wp_mono [OF fsync_dirs_linked [of t ?ds]])
qed auto

end

definition disk_synced :: "disk \<Rightarrow> path \<Rightarrow> bool" where
  "disk_synced d p \<longleftrightarrow> (case file_at d p of None \<Rightarrow> False | Some f \<Rightarrow> ff_synced f)"

definition disk_linked :: "disk \<Rightarrow> path \<Rightarrow> bool" where
  "disk_linked d p \<longleftrightarrow> p \<in> set (dk_linked d)"

lemma disk_synced_faults [simp]:
  "disk_synced (d\<lparr>dk_faults := fs\<rparr>) = disk_synced d" "disk_linked (d\<lparr>dk_faults := fs\<rparr>) = disk_linked d"
  by (simp_all add: fun_eq_iff disk_synced_def disk_linked_def file_at_def)

interpretation rdd: durable_disk real_disk_ops disk_ok disk_file disk_synced disk_linked
proof (unfold_locales, goal_cases)
  case (1 d p b r d')
  from 1(2) show ?case unfolding real_disk_ops_def disk_ops.select_convs real_fsync_file_def
  proof (cases rule: with_fault_run)
    case (1 fs)
    then show ?thesis
      by (auto simp: io_fail_def raise_def disk_synced_def disk_linked_def disk_file_def file_at_def fun_eq_iff
        split: option.splits if_splits)
  qed simp
next
  case (2 d p r d')
  from 2(2) show ?case unfolding real_disk_ops_def disk_ops.select_convs real_fsync_dir_def
  proof (cases rule: with_fault_run)
    case (1 fs)
    then show ?thesis
      using 2(1) by (auto simp: io_fail_def raise_def disk_synced_def disk_linked_def file_at_def fun_eq_iff
        entries_of_iff disk_ok_def split: option.splits if_splits)
  qed simp
next
  case (3 d p q r d')
  from 3(2) show ?case unfolding real_disk_ops_def disk_ops.select_convs real_rename_def
  proof (cases rule: with_fault_run)
    case (1 fs)
    then show ?thesis using 3(1,3)
      by (auto simp: io_fail_def raise_def disk_synced_def disk_ok_def file_at_def fun_eq_iff
        split: option.splits if_splits)
  qed simp
qed

end
