(* ===== verification/ByteStream.thy ===== *)
theory ByteStream
  imports BlockDisk
begin

section \<open>Splitting a byte stream into blocks\<close>

text \<open>
  \<open>cas/buffered_byte_stream.rs\<close>: \<open>BufferedByteStream\<close> regroups the frames of an incoming stream into
  blocks of \<open>BLOCK_SIZE\<close> bytes. A stream is the list of its items; polling it takes items off the
  front. The result is compared with the reference \<open>chunks_of\<close>.
\<close>

definition BLOCK_SIZE :: nat where
  "BLOCK_SIZE = 2 ^ 20"

lemma BLOCK_SIZE_pos: "0 < BLOCK_SIZE"
  by (simp add: BLOCK_SIZE_def)

record bstream =
  bf_frames :: "(io_error + bytes) list"
  bf_buffer :: bytes
  bf_finished :: bool

definition bstream_new :: "(io_error + bytes) list \<Rightarrow> bstream" where
  "bstream_new frames = \<lparr>bf_frames = frames, bf_buffer = [], bf_finished = False\<rparr>"

text \<open>The inner loop over a large frame: whole blocks while more than one is left, the rest stays
  in the buffer.\<close>

function whole_blocks :: "bytes \<Rightarrow> bytes list \<times> bytes" where
  "whole_blocks bs =
    (if BLOCK_SIZE < length bs then
       let (out, rest) = whole_blocks (drop BLOCK_SIZE bs) in (take BLOCK_SIZE bs # out, rest)
     else ([], bs))"
  by pat_completeness auto
termination by (relation "measure length") (auto simp: BLOCK_SIZE_def)

declare whole_blocks.simps [simp del]

fun poll_loop :: "(io_error + bytes) list \<Rightarrow> bytes \<Rightarrow> (io_error + bytes list) option \<times> bstream" where
  "poll_loop [] buffer =
    (if buffer \<noteq> [] then (Some (Inr [buffer]), \<lparr>bf_frames = [], bf_buffer = [], bf_finished = True\<rparr>)
     else (None, \<lparr>bf_frames = [], bf_buffer = [], bf_finished = True\<rparr>))"
| "poll_loop (Inl e # frames) buffer =
    (Some (Inl e), \<lparr>bf_frames = frames, bf_buffer = buffer, bf_finished = False\<rparr>)"
| "poll_loop (Inr bs # frames) buffer =
    (let buf_remainder = BLOCK_SIZE - length buffer in
     if length bs < buf_remainder then poll_loop frames (buffer @ bs)
     else if length bs = buf_remainder then
       (Some (Inr [buffer @ bs]), \<lparr>bf_frames = frames, bf_buffer = [], bf_finished = False\<rparr>)
     else
       let (out, rest) = whole_blocks (drop buf_remainder bs) in
       (Some (Inr ((buffer @ take buf_remainder bs) # out)),
        \<lparr>bf_frames = frames, bf_buffer = rest, bf_finished = False\<rparr>))"

definition poll_next :: "bstream \<Rightarrow> (io_error + bytes list) option \<times> bstream" where
  "poll_next st = (if bf_finished st then (None, st) else poll_loop (bf_frames st) (bf_buffer st))"

definition stream_left :: "bstream \<Rightarrow> nat" where
  "stream_left st = (if bf_finished st then 0 else Suc (length (bf_frames st)))"

lemma poll_loop_left: "poll_loop frames buffer = (Some it, st) \<Longrightarrow> stream_left st < Suc (length frames)"
proof (induction frames buffer rule: poll_loop.induct)
  case (3 bs frames buffer)
  show ?case
  proof (cases "length bs < BLOCK_SIZE - length buffer")
    case True
    with 3(2) have "poll_loop frames (buffer @ bs) = (Some it, st)" by simp
    from 3(1) [OF refl True this] show ?thesis by simp
  next
    case False
    with 3(2) show ?thesis
      by (auto simp: Let_def stream_left_def split: if_splits prod.splits)
  qed
qed (auto simp: stream_left_def split: if_splits)

text \<open>All items of the stream, in order: what the loop of \<open>store_object\<close> sees.\<close>

function stream_items :: "bstream \<Rightarrow> (io_error + bytes list) list" where
  "stream_items st = (case poll_next st of
     (None, _) \<Rightarrow> []
   | (Some it, st') \<Rightarrow> it # stream_items st')"
  by pat_completeness auto
termination
proof (relation "measure stream_left", goal_cases)
  case (2 st o' st' it)
  then have run: "poll_next st = (Some it, st')" by simp
  then have "\<not> bf_finished st" "poll_loop (bf_frames st) (bf_buffer st) = (Some it, st')"
    by (auto simp: poll_next_def split: if_splits)
  with poll_loop_left [OF this(2)] show ?case by (simp add: stream_left_def)
qed simp

declare stream_items.simps [simp del]

function chunks_of :: "nat \<Rightarrow> bytes \<Rightarrow> bytes list" where
  "chunks_of n bs = (if bs = [] then [] else take (max 1 n) bs # chunks_of n (drop (max 1 n) bs))"
  by pat_completeness auto
termination by (relation "measure (\<lambda>(_, bs). length bs)") auto

declare chunks_of.simps [simp del]

lemma chunks_of_Nil [simp]: "chunks_of n [] = []"
  by (subst chunks_of.simps) simp

lemma concat_chunks_of: "concat (chunks_of n bs) = bs"
proof (induction n bs rule: chunks_of.induct)
  case (1 n bs)
  then show ?case by (subst chunks_of.simps) simp
qed

lemma chunks_of_full: "0 < n \<Longrightarrow> length xs = n \<Longrightarrow> chunks_of n (xs @ ys) = xs # chunks_of n ys"
  by (subst chunks_of.simps) (auto simp: max_def)

lemma chunks_of_short: "xs \<noteq> [] \<Longrightarrow> length xs \<le> n \<Longrightarrow> chunks_of n xs = [xs]"
  by (subst chunks_of.simps) (auto simp: max_def)

lemma whole_blocks_chunks:
  assumes "whole_blocks bs = (out, rest)"
  shows "chunks_of BLOCK_SIZE (bs @ ys) = out @ chunks_of BLOCK_SIZE (rest @ ys) \<and> length rest \<le> BLOCK_SIZE"
  using assms
proof (induction bs arbitrary: out rest rule: whole_blocks.induct)
  case (1 bs)
  show ?case
  proof (cases "BLOCK_SIZE < length bs")
    case True
    obtain out' rest' where w: "whole_blocks (drop BLOCK_SIZE bs) = (out', rest')" by (metis surj_pair)
    with 1(2) True have "out = take BLOCK_SIZE bs # out'" "rest = rest'" by (simp_all add: whole_blocks.simps [of bs])
    moreover have "chunks_of BLOCK_SIZE (bs @ ys) = take BLOCK_SIZE bs # chunks_of BLOCK_SIZE (drop BLOCK_SIZE bs @ ys)"
      using chunks_of_full [OF BLOCK_SIZE_pos, of "take BLOCK_SIZE bs" "drop BLOCK_SIZE bs @ ys"] True
      by (simp flip: append_assoc)
    ultimately show ?thesis using 1(1) [OF True w] by simp
  next
    case False
    with 1(2) show ?thesis by (simp add: whole_blocks.simps [of bs])
  qed
qed

lemma poll_loop_chunks:
  assumes "\<forall>f \<in> set frames. \<not> isl f" "length buffer \<le> BLOCK_SIZE"
  shows "case poll_loop frames buffer of
      (None, st) \<Rightarrow> chunks_of BLOCK_SIZE (buffer @ concat (map projr frames)) = []
    | (Some it, st) \<Rightarrow> \<exists>bufs. it = Inr bufs \<and> (\<forall>f \<in> set (bf_frames st). \<not> isl f) \<and> length (bf_buffer st) \<le> BLOCK_SIZE \<and>
        chunks_of BLOCK_SIZE (buffer @ concat (map projr frames)) =
          bufs @ (if bf_finished st then [] else chunks_of BLOCK_SIZE (bf_buffer st @ concat (map projr (bf_frames st))))"
  using assms
proof (induction frames buffer rule: poll_loop.induct)
  case (1 buffer)
  then show ?case by (simp add: chunks_of_short)
next
  case (3 bs frames buffer)
  let ?r = "BLOCK_SIZE - length buffer"
  consider (lt) "length bs < ?r" | (eq) "length bs = ?r" | (gt) "?r < length bs" by linarith
  then show ?case
  proof cases
    case lt
    then have poll: "poll_loop (Inr bs # frames) buffer = poll_loop frames (buffer @ bs)" by simp
    have cat: "(buffer @ bs) @ concat (map projr frames) = buffer @ concat (map projr (Inr bs # frames))" by simp
    from lt 3(2,3) have "\<forall>f \<in> set frames. \<not> isl f" "length (buffer @ bs) \<le> BLOCK_SIZE" by simp_all
    from 3(1) [OF refl lt this] show ?thesis unfolding poll cat .
  next
    case eq
    with 3(3) have "length (buffer @ bs) = BLOCK_SIZE" by simp
    from chunks_of_full [OF BLOCK_SIZE_pos this] eq 3(2) show ?thesis by simp
  next
    case gt
    obtain out rest where w: "whole_blocks (drop ?r bs) = (out, rest)" by (metis surj_pair)
    let ?rest = "concat (map projr frames)"
    from gt 3(3) have "length (buffer @ take ?r bs) = BLOCK_SIZE" by simp
    have "buffer @ bs @ ?rest = (buffer @ take ?r bs) @ drop ?r bs @ ?rest"
      by (metis append_assoc append_take_drop_id)
    then have cat: "chunks_of BLOCK_SIZE (buffer @ bs @ ?rest) =
        (buffer @ take ?r bs) # out @ chunks_of BLOCK_SIZE (rest @ ?rest)"
      using chunks_of_full [OF BLOCK_SIZE_pos \<open>length (buffer @ take ?r bs) = BLOCK_SIZE\<close>, of "drop ?r bs @ ?rest"]
        whole_blocks_chunks [OF w, of ?rest] by metis
    have len: "length rest \<le> BLOCK_SIZE" using whole_blocks_chunks [OF w] by blast
    from gt have poll: "poll_loop (Inr bs # frames) buffer = (Some (Inr ((buffer @ take ?r bs) # out)),
        \<lparr>bf_frames = frames, bf_buffer = rest, bf_finished = False\<rparr>)" by (simp add: w)
    show ?thesis unfolding poll using cat len 3(2) by simp
  qed
qed simp

lemma stream_items_chunks:
  assumes "\<forall>f \<in> set (bf_frames st). \<not> isl f" "length (bf_buffer st) \<le> BLOCK_SIZE" "\<not> bf_finished st"
  shows "(\<forall>it \<in> set (stream_items st). \<not> isl it) \<and>
    concat (map projr (stream_items st)) =
      chunks_of BLOCK_SIZE (bf_buffer st @ concat (map projr (bf_frames st)))"
  using assms
proof (induction st rule: stream_items.induct)
  case (1 st)
  note law = poll_loop_chunks [OF 1(2,3)]
  show ?case
  proof (cases "poll_next st")
    case (Pair o' st')
    show ?thesis
    proof (cases o')
      case None
      with Pair 1(4) law show ?thesis by (simp add: stream_items.simps [of st] poll_next_def)
    next
      case (Some it)
      from Pair Some 1(4) law obtain bufs where it: "it = Inr bufs" "\<forall>f \<in> set (bf_frames st'). \<not> isl f"
          "length (bf_buffer st') \<le> BLOCK_SIZE"
          "chunks_of BLOCK_SIZE (bf_buffer st @ concat (map projr (bf_frames st))) =
            bufs @ (if bf_finished st' then [] else chunks_of BLOCK_SIZE (bf_buffer st' @ concat (map projr (bf_frames st'))))"
        by (auto simp: poll_next_def)
      have items: "stream_items st = it # stream_items st'"
        using Pair Some by (simp add: stream_items.simps [of st])
      show ?thesis
      proof (cases "bf_finished st'")
        case True
        then have "stream_items st' = []" by (simp add: stream_items.simps [of st'] poll_next_def)
        with items it True show ?thesis by simp
      next
        case False
        with 1(1) [OF _ _ it(2,3)] Pair Some items it show ?thesis by simp
      qed
    qed
  qed
qed

end
