(* ===== verification/CasState.thy ===== *)
theory CasState
  imports ByteStream
begin

section \<open>The state of a store and its accounting\<close>

text \<open>
  A \<open>CasFS\<close> (\<open>cas/fs.rs\<close>) over its \<open>SharedBlockStore\<close> (\<open>cas/shared_block_store.rs\<close>): the namespace
  database, the shared blocks database and the block files, with what is fixed once the store is open
  (\<open>cas_params\<close>). Metrics and log lines are left out.

  The second half is the accounting every operation is judged by. A block is held once per occurrence
  in an object record of the namespace and in a part record of the shared database (\<open>holders\<close>); an
  operation in progress may hold further references (\<open>L\<close>) and staged files (\<open>T\<close>). \<open>cas_ok\<close> says that
  no block is counted below its holders, that every usable block record has its file on disk with the
  bytes it is named after, and that nobody touches a staged file that is in use.
\<close>

subsection \<open>The store\<close>

datatype cas_error = CMeta meta_error | CIo io_error | CPanic string

record cas_params =
  cp_hex :: "bytes \<Rightarrow> string"
  cp_blake3 :: "bytes \<Rightarrow> bytes"
  cp_md5 :: "bytes \<Rightarrow> bytes"
  cp_writer :: writer
  cp_placement :: placement
  cp_hasher :: hasher
  cp_max_blocks :: nat
  cp_group_commit :: bool
  cp_known :: "bytes set"

record ('n, 's, 'd) env =
  en_ns :: "'n store_ops"
  en_sh :: "'s store_ops"
  en_disk :: "'d disk_ops"
  en_params :: cas_params

record ('n, 's, 'd) cas =
  cs_ns :: 'n
  cs_sh :: 's
  cs_bs :: "'d bstore"

type_synonym ('n, 's, 'd, 'a) cas_act = "(('n, 's, 'd) cas, cas_error, 'a) act"

abbreviation hex_of :: "('n, 's, 'd) env \<Rightarrow> bytes \<Rightarrow> string" where
  "hex_of E \<equiv> cp_hex (en_params E)"

abbreviation writer_of :: "('n, 's, 'd) env \<Rightarrow> writer" where
  "writer_of E \<equiv> cp_writer (en_params E)"

abbreviation placement_of :: "('n, 's, 'd) env \<Rightarrow> placement" where
  "placement_of E \<equiv> cp_placement (en_params E)"

definition block_hash :: "cas_params \<Rightarrow> bytes \<Rightarrow> block_id" where
  "block_hash P bs = hasher_hash (cp_blake3 P) (cp_hasher P) bs"

text \<open>\<open>cp_known\<close> is a ghost field: no operation reads it. It is the set of byte strings that ever are a block of
  this store, those already on disk and those of the requests to come; the laws below say of a block file not only
  that it hashes to its id but also that it is one of these strings. A statement that needs the hash to tell a block
  from others asks it of the strings of this set only (\<open>unique_hash\<close>); with \<open>cp_known\<close> the set of all byte strings
  the field says nothing.\<close>

definition is_block :: "cas_params \<Rightarrow> bytes \<Rightarrow> block_id \<Rightarrow> bool" where
  "is_block P bs h \<longleftrightarrow> block_hash P bs = h \<and> bs \<in> cp_known P"

definition params_ok :: "cas_params \<Rightarrow> bool" where
  "params_ok P \<longleftrightarrow> hex_ok (cp_hex P) \<and> blake3_ok (cp_blake3 P) \<and>
     (\<forall>bs. length (cp_md5 P bs) = CONTENT_HASH_SIZE) \<and>
     wr_tmp (cp_writer P) = wr_root (cp_writer P) @ [TMP_DIR_NAME] \<and>
     pl_root (cp_placement P) = wr_root (cp_writer P)"

definition on_ns :: "('n, meta_error, 'a) act \<Rightarrow> ('n, 's, 'd, 'a) cas_act" where
  "on_ns m = mapE CMeta (zoom cs_ns (\<lambda>x s. s\<lparr>cs_ns := x\<rparr>) m)"

definition on_sh :: "('s, meta_error, 'a) act \<Rightarrow> ('n, 's, 'd, 'a) cas_act" where
  "on_sh m = mapE CMeta (zoom cs_sh (\<lambda>x s. s\<lparr>cs_sh := x\<rparr>) m)"

definition on_bs :: "('d bstore, io_error, 'a) act \<Rightarrow> ('n, 's, 'd, 'a) cas_act" where
  "on_bs m = mapE CIo (zoom cs_bs (\<lambda>x s. s\<lparr>cs_bs := x\<rparr>) m)"

subsection \<open>Who holds a block\<close>

definition obj_refs :: "bytes \<Rightarrow> block_id \<Rightarrow> nat" where
  "obj_refs raw h = (case object_try_from raw of Inr ob \<Rightarrow> count_list (object_blocks ob) h | Inl _ \<Rightarrow> 0)"

definition mp_refs :: "bytes \<Rightarrow> block_id \<Rightarrow> nat" where
  "mp_refs raw h = (case multipart_try_from raw of Inr mp \<Rightarrow> count_list (mp_blocks mp) h | Inl _ \<Rightarrow> 0)"

definition ns_refs :: "content \<Rightarrow> block_id \<Rightarrow> nat" where
  "ns_refs c h = (\<Sum>n \<in> {n. c n \<noteq> [] \<and> \<not> reserved_name n}. omap_sum (\<lambda>k v. obj_refs v h) (c n))"

definition part_refs :: "content \<Rightarrow> block_id \<Rightarrow> nat" where
  "part_refs c h = omap_sum (\<lambda>k v. mp_refs v h) (c MULTIPART_PARTS_TREE)"

definition add_refs :: "(block_id \<Rightarrow> nat) \<Rightarrow> block_id list \<Rightarrow> block_id \<Rightarrow> nat" where
  "add_refs L bs h = L h + count_list bs h"

definition acct :: "content \<Rightarrow> content \<Rightarrow> (block_id \<Rightarrow> nat) \<Rightarrow> bool" where
  "acct nc sc L \<longleftrightarrow> (\<forall>h. wf_block_id h \<longrightarrow> ns_refs nc h + part_refs sc h + L h \<le> rc_of sc h)"

definition room :: "nat \<Rightarrow> content \<Rightarrow> bool" where
  "room n sc \<longleftrightarrow> (\<forall>h. wf_block_id h \<longrightarrow> rc_of sc h + n < 2 ^ 64)"

text \<open>A file with the bytes of a block \<open>h\<close> is at the path of depth \<open>d\<close>; some block \<open>h\<close> has length \<open>n\<close>.\<close>

definition at_depth :: "cas_params \<Rightarrow> (path \<Rightarrow> bytes option) \<Rightarrow> block_id \<Rightarrow> u8 \<Rightarrow> bool" where
  "at_depth P f h d \<longleftrightarrow>
     (\<exists>bs. f (block_disk_path (cp_hex P) h d (wr_root (cp_writer P))) = Some bs \<and> is_block P bs h)"

definition has_len :: "cas_params \<Rightarrow> block_id \<Rightarrow> nat \<Rightarrow> bool" where
  "has_len P h n \<longleftrightarrow> (\<exists>bs. is_block P bs h \<and> length bs = n)"

definition files_ok :: "cas_params \<Rightarrow> content \<Rightarrow> (path \<Rightarrow> bytes option) \<Rightarrow> bool" where
  "files_ok P sc f \<longleftrightarrow> (\<forall>h b. wf_block_id h \<longrightarrow> blk_of sc h = Some b \<longrightarrow> \<not> is_degraded b \<longrightarrow>
     at_depth P f h (blk_depth b) \<and> (\<exists>n. has_len P h n \<and> blk_size b = of_nat n))"

definition degraded_in :: "block_id set \<Rightarrow> content \<Rightarrow> bool" where
  "degraded_in D sc \<longleftrightarrow> (\<forall>h b. wf_block_id h \<longrightarrow> blk_of sc h = Some b \<longrightarrow> is_degraded b \<longrightarrow> h \<in> D)"

definition temps_ok :: "cas_params \<Rightarrow> (path \<Rightarrow> bytes option) \<Rightarrow> u64 \<Rightarrow> (path \<Rightarrow> bytes option) \<Rightarrow> bool" where
  "temps_ok P f nonce T \<longleftrightarrow> T \<subseteq>\<^sub>m f \<and>
     (\<forall>p \<in> dom T. \<exists>i n. p = wr_tmp (cp_writer P) @ [temp_name (cp_hex P) i n] \<and> n < nonce)"

lemma add_refs_Nil [simp]: "add_refs L [] = L"
  by (simp add: fun_eq_iff add_refs_def)

lemma add_refs_append: "add_refs L (as @ bs) = add_refs (add_refs L as) bs"
  by (simp add: fun_eq_iff add_refs_def)

lemma add_refs_Cons: "add_refs L (b # bs) = add_refs (add_refs L bs) [b]"
  by (simp add: fun_eq_iff add_refs_def)

lemma finite_refs:
  assumes "finite N" "\<And>n. n \<notin> N \<Longrightarrow> c n = []"
  shows "finite {n. c n \<noteq> [] \<and> P n}"
  by (rule finite_subset [OF _ assms(1)]) (use assms(2) in auto)

text \<open>Replacing the records of one tree moves the count of the namespace by the change in that tree.\<close>

lemma ns_refs_upd:
  assumes "finite {n. c n \<noteq> []}" "\<not> reserved_name n"
  shows "ns_refs (c(n := m)) h + omap_sum (\<lambda>k v. obj_refs v h) (c n) =
    ns_refs c h + omap_sum (\<lambda>k v. obj_refs v h) m"
proof -
  let ?f = "\<lambda>c n. omap_sum (\<lambda>k v. obj_refs v h) (c n)"
  let ?N = "insert n {n. c n \<noteq> [] \<and> \<not> reserved_name n}"
  have fin: "finite ?N" using assms(1) by (auto intro: finite_subset [of _ "{n. c n \<noteq> []}"])
  have ext: "ns_refs c' h = sum (?f c') ?N" if "\<And>x. x \<noteq> n \<Longrightarrow> c' x = c x" for c'
    unfolding ns_refs_def
  proof (rule sum.mono_neutral_left [OF fin])
    show "{n. c' n \<noteq> [] \<and> \<not> reserved_name n} \<subseteq> ?N"
    proof
      fix x assume "x \<in> {n. c' n \<noteq> [] \<and> \<not> reserved_name n}"
      then show "x \<in> ?N" using that [of x] by (cases "x = n") auto
    qed
    show "\<forall>x \<in> ?N - {n. c' n \<noteq> [] \<and> \<not> reserved_name n}. ?f c' x = 0"
    proof
      fix x assume "x \<in> ?N - {n. c' n \<noteq> [] \<and> \<not> reserved_name n}"
      then have "c' x = []" using that [of x] assms(2) by (cases "x = n") auto
      then show "?f c' x = 0" by simp
    qed
  qed
  have split: "sum (?f c') ?N = ?f c' n + sum (?f c') (?N - {n})" for c'
    by (rule sum.remove [OF fin]) simp
  have rest: "sum (?f (c(n := m))) (?N - {n}) = sum (?f c) (?N - {n})"
    by (rule sum.cong) auto
  show ?thesis
    using ext [of c] ext [of "c(n := m)"] split [of c] split [of "c(n := m)"] rest by simp
qed

lemma ns_refs_reserved:
  assumes "reserved_name n"
  shows "ns_refs (c(n := m)) h = ns_refs c h"
proof -
  have "{x. (c(n := m)) x \<noteq> [] \<and> \<not> reserved_name x} = {x. c x \<noteq> [] \<and> \<not> reserved_name x}"
    using assms by auto
  moreover have "(\<Sum>x \<in> S. omap_sum (\<lambda>k v. obj_refs v h) ((c(n := m)) x)) = (\<Sum>x \<in> S. omap_sum (\<lambda>k v. obj_refs v h) (c x))"
    if "n \<notin> S" for S using that by (intro sum.cong) auto
  ultimately show ?thesis using assms unfolding ns_refs_def by simp
qed

lemma omap_part_refs [simp]:
  "omap_part (\<lambda>k v. f v) m k = (case map_of m k of None \<Rightarrow> 0 | Some v \<Rightarrow> f v)"
  by (simp add: omap_part_def)

lemma ns_refs_ins:
  assumes "cont_ok c" "finite {n. c n \<noteq> []}" "\<not> reserved_name n"
  shows "ns_refs (cont_ins n k v c) h + (case map_of (c n) k of None \<Rightarrow> 0 | Some raw \<Rightarrow> obj_refs raw h) =
    ns_refs c h + obj_refs v h"
  using ns_refs_upd [OF assms(2,3), of "omap_ins k v (c n)" h]
    omap_sum_ins [of "c n" "\<lambda>k v. obj_refs v h" k v] assms(1)
  by (simp add: cont_ins_def cont_ok_def)

lemma ns_refs_del:
  assumes "cont_ok c" "finite {n. c n \<noteq> []}" "\<not> reserved_name n"
  shows "ns_refs (cont_del n k c) h + (case map_of (c n) k of None \<Rightarrow> 0 | Some raw \<Rightarrow> obj_refs raw h) = ns_refs c h"
  using ns_refs_upd [OF assms(2,3), of "omap_del k (c n)" h]
    omap_sum_del [of "c n" "\<lambda>k v. obj_refs v h" k] assms(1)
  by (simp add: cont_del_def cont_ok_def)

lemma ns_refs_other [simp]:
  "reserved_name n \<Longrightarrow> ns_refs (cont_ins n k v c) h = ns_refs c h"
  "reserved_name n \<Longrightarrow> ns_refs (cont_del n k c) h = ns_refs c h"
  by (simp_all add: cont_ins_def cont_del_def ns_refs_reserved)

lemma part_refs_ins:
  "cont_ok c \<Longrightarrow> part_refs (cont_ins MULTIPART_PARTS_TREE k v c) h +
     (case map_of (c MULTIPART_PARTS_TREE) k of None \<Rightarrow> 0 | Some raw \<Rightarrow> mp_refs raw h) = part_refs c h + mp_refs v h"
  using omap_sum_ins [of "c MULTIPART_PARTS_TREE" "\<lambda>k v. mp_refs v h" k v]
  by (simp add: part_refs_def cont_ins_def cont_ok_def)

lemma part_refs_del:
  "cont_ok c \<Longrightarrow> part_refs (cont_del MULTIPART_PARTS_TREE k c) h +
     (case map_of (c MULTIPART_PARTS_TREE) k of None \<Rightarrow> 0 | Some raw \<Rightarrow> mp_refs raw h) = part_refs c h"
  using omap_sum_del [of "c MULTIPART_PARTS_TREE" "\<lambda>k v. mp_refs v h" k]
  by (simp add: part_refs_def cont_del_def cont_ok_def)

lemma block_tree_not_parts [simp]:
  "DEFAULT_BLOCK_TREE \<noteq> MULTIPART_PARTS_TREE" "MULTIPART_PARTS_TREE \<noteq> DEFAULT_BLOCK_TREE"
  "UPLOADS_TREE \<noteq> MULTIPART_PARTS_TREE" "MULTIPART_PARTS_TREE \<noteq> UPLOADS_TREE"
  "DEFAULT_BLOCK_TREE \<noteq> UPLOADS_TREE" "UPLOADS_TREE \<noteq> DEFAULT_BLOCK_TREE"
  by (simp_all add: tree_name_defs)

lemma reserved_trees [simp]:
  "reserved_name DEFAULT_USAGE_TREE" "reserved_name DEFAULT_BUCKET_TREE" "reserved_name DEFAULT_BLOCK_TREE"
  "reserved_name UPLOADS_TREE" "reserved_name MULTIPART_PARTS_TREE"
  by (simp_all add: reserved_name_def starts_with_def tree_name_defs)

lemma part_refs_blk [simp]: "part_refs (put_blk h b c) = part_refs c" "part_refs (del_blk h c) = part_refs c"
  by (simp_all add: fun_eq_iff part_refs_def put_blk_def del_blk_def)

lemma rc_of_put_blk:
  "wf_block_id h \<Longrightarrow> wf_block_id h' \<Longrightarrow> rc_of (put_blk h b c) h' = (if h' = h then unat (blk_rc b) else rc_of c h')"
  by (simp add: rc_of_def blk_of_put_blk)

lemma rc_of_del_blk:
  "cont_ok c \<Longrightarrow> wf_block_id h \<Longrightarrow> wf_block_id h' \<Longrightarrow> rc_of (del_blk h c) h' = (if h' = h then 0 else rc_of c h')"
  by (simp add: rc_of_def blk_of_del_blk)

lemma blk_of_other [simp]:
  "n \<noteq> DEFAULT_BLOCK_TREE \<Longrightarrow> blk_of (cont_ins n k v c) = blk_of c"
  "n \<noteq> DEFAULT_BLOCK_TREE \<Longrightarrow> blk_of (cont_del n k c) = blk_of c"
  by (auto simp: fun_eq_iff blk_of_def)

lemma rc_of_other [simp]:
  "n \<noteq> DEFAULT_BLOCK_TREE \<Longrightarrow> rc_of (cont_ins n k v c) = rc_of c"
  "n \<noteq> DEFAULT_BLOCK_TREE \<Longrightarrow> rc_of (cont_del n k c) = rc_of c"
  by (auto simp: fun_eq_iff rc_of_def)

subsection \<open>Lifting\<close>

lemma wp_on_ns [simp]:
  "wp (on_ns m) Q E s = wp m (\<lambda>x t. Q x (s\<lparr>cs_ns := t\<rparr>)) (\<lambda>e t. E (CMeta e) (s\<lparr>cs_ns := t\<rparr>)) (cs_ns s)"
  by (simp add: on_ns_def)

lemma wp_on_sh [simp]:
  "wp (on_sh m) Q E s = wp m (\<lambda>x t. Q x (s\<lparr>cs_sh := t\<rparr>)) (\<lambda>e t. E (CMeta e) (s\<lparr>cs_sh := t\<rparr>)) (cs_sh s)"
  by (simp add: on_sh_def)

lemma wp_on_bs [simp]:
  "wp (on_bs m) Q E s = wp m (\<lambda>x t. Q x (s\<lparr>cs_bs := t\<rparr>)) (\<lambda>e t. E (CIo e) (s\<lparr>cs_bs := t\<rparr>)) (cs_bs s)"
  by (simp add: on_bs_def)

subsection \<open>The invariant\<close>

text \<open>What is known besides the state itself: the ids whose record may be marked degraded, how many more
  references and temp names the counters have room for, the references held by operations in progress,
  and the staged files in use.\<close>

record ghost =
  gh_degraded :: "block_id set"
  gh_room :: nat
  gh_nonces :: nat
  gh_refs :: "block_id \<Rightarrow> nat"
  gh_temps :: "path \<Rightarrow> bytes option"

definition cas_inv ::
  "cas_params \<Rightarrow> ghost \<Rightarrow> content \<Rightarrow> content \<Rightarrow> (path \<Rightarrow> bytes option) \<Rightarrow> u64 \<Rightarrow> bool" where
  "cas_inv P g nc sc f nonce \<longleftrightarrow>
     acct nc sc (gh_refs g) \<and> room (gh_room g) sc \<and> files_ok P sc f \<and> degraded_in (gh_degraded g) sc \<and>
     temps_ok P f nonce (gh_temps g) \<and> unat nonce + gh_nonces g < 2 ^ 64"

lemma cas_inv_weaken:
  assumes "cas_inv P g nc sc f nonce" "gh_degraded g \<subseteq> gh_degraded g'" "gh_room g' \<le> gh_room g"
    "gh_nonces g' \<le> gh_nonces g" "\<And>h. gh_refs g' h \<le> gh_refs g h" "gh_temps g' \<subseteq>\<^sub>m gh_temps g"
  shows "cas_inv P g' nc sc f nonce"
proof -
  have "acct nc sc (gh_refs g')"
    using assms(1,5) unfolding cas_inv_def acct_def by (meson add_left_mono order_trans)
  moreover have "room (gh_room g') sc"
    using assms(1,3) unfolding cas_inv_def room_def by (meson add_left_mono order.strict_trans1)
  moreover have "temps_ok P f nonce (gh_temps g')"
    using assms(1,6) map_le_implies_dom_le [OF assms(6)] unfolding cas_inv_def temps_ok_def
    by (meson map_le_trans subset_iff)
  ultimately show ?thesis using assms(1,2,4) unfolding cas_inv_def degraded_in_def by auto
qed

lemma block_path_dir:
  assumes "params_ok P" "wf_block_id h"
  shows "butlast (block_disk_path (cp_hex P) h d (wr_root (cp_writer P))) \<noteq> wr_tmp (cp_writer P)"
proof
  let ?hex = "cp_hex P" and ?n = "max 1 (min (unat d) (block_id_len h))"
  assume "butlast (block_disk_path ?hex h d (wr_root (cp_writer P))) = wr_tmp (cp_writer P)"
  then have eq: "map (\<lambda>byte. ?hex [byte]) (take ?n (as_slice h)) = [TMP_DIR_NAME]"
    using assms(1) by (simp add: block_disk_path_def Let_def params_ok_def butlast_append)
  then obtain b where "?hex [b] = TMP_DIR_NAME" by (auto simp: map_eq_Cons_conv)
  then have "length (?hex [b]) = 4" by (simp add: TMP_DIR_NAME_def)
  then show False using assms(1) by (simp add: params_ok_def hex_ok_def)
qed

lemma temp_not_block_path:
  assumes "params_ok P" "wf_block_id h" "temps_ok P f nonce T" "p \<in> dom T"
  shows "p \<noteq> block_disk_path (cp_hex P) h d (wr_root (cp_writer P))"
proof -
  from assms(3,4) obtain x where "p = wr_tmp (cp_writer P) @ [x]" unfolding temps_ok_def by meson
  then show ?thesis using block_path_dir [OF assms(1,2)] by (metis butlast_snoc)
qed

lemma block_paths_differ:
  assumes "params_ok P" "wf_block_id h" "wf_block_id h'" "h \<noteq> h'"
  shows "block_disk_path (cp_hex P) h d root \<noteq> block_disk_path (cp_hex P) h' e root"
  using block_disk_path_inject [of "cp_hex P" h h' d root e] assms by (auto simp: params_ok_def)

lemma temps_ok_upd:
  assumes "temps_ok P f nonce T" "q \<notin> dom T"
  shows "temps_ok P (f(q := v)) nonce T"
  using assms by (auto simp: temps_ok_def map_le_def)

lemma at_depth_upd:
  assumes "params_ok P" "wf_block_id h" "wf_block_id h'" "at_depth P f h d"
    "h' = h \<Longrightarrow> \<exists>bs. v = Some bs \<and> is_block P bs h"
  shows "at_depth P (f(block_disk_path (cp_hex P) h' d' (wr_root (cp_writer P)) := v)) h d"
  using assms(4,5) block_paths_differ [OF assms(1-3), of d "wr_root (cp_writer P)" d'] by (cases "h' = h") (auto simp: at_depth_def)

lemma at_depth_temp:
  assumes "params_ok P" "wf_block_id h" "at_depth P f h d" "butlast q = wr_tmp (cp_writer P)"
  shows "at_depth P (f(q := v)) h d"
proof -
  have "block_disk_path (cp_hex P) h d (wr_root (cp_writer P)) \<noteq> q" using block_path_dir [OF assms(1,2)] assms(4) by metis
  with assms(3) show ?thesis by (simp add: at_depth_def)
qed

text \<open>A file at the path of a block with no usable record may come or go; with one, it may be replaced by bytes with the
  same hash.\<close>

lemma files_ok_upd:
  assumes "params_ok P" "files_ok P sc f" "wf_block_id h"
    "\<And>b. blk_of sc h = Some b \<Longrightarrow> \<not> is_degraded b \<Longrightarrow> \<exists>bs. v = Some bs \<and> is_block P bs h"
  shows "files_ok P sc (f(block_disk_path (cp_hex P) h d (wr_root (cp_writer P)) := v))"
  unfolding files_ok_def
proof (intro allI impI, intro conjI)
  fix h' b assume b: "wf_block_id h'" "blk_of sc h' = Some b" "\<not> is_degraded b"
  with assms(2) have *: "at_depth P f h' (blk_depth b)" "\<exists>n. has_len P h' n \<and> blk_size b = of_nat n"
    by (simp_all add: files_ok_def)
  show "at_depth P (f(block_disk_path (cp_hex P) h d (wr_root (cp_writer P)) := v)) h' (blk_depth b)"
    by (rule at_depth_upd [OF assms(1) b(1) assms(3) *(1)]) (use assms(4) [of b] b in simp)
  show "\<exists>n. has_len P h' n \<and> blk_size b = of_nat n" by (rule *(2))
qed

lemma files_ok_temp:
  assumes "params_ok P" "files_ok P sc f" "butlast q = wr_tmp (cp_writer P)"
  shows "files_ok P sc (f(q := v))"
  using assms(2) at_depth_temp [OF assms(1) _ _ assms(3)] by (simp add: files_ok_def)

text \<open>One more reference, or one less.\<close>

lemma is_degraded_rc [simp]: "is_degraded (b\<lparr>blk_rc := r\<rparr>) = is_degraded b"
  by (simp add: is_degraded_def)

lemma block_path_rc [simp]: "block_path hex (b\<lparr>blk_rc := r\<rparr>) h root = block_path hex b h root"
  by (simp add: block_path_def)

lemma cas_inv_recount:
  assumes "cas_inv P g nc sc f nonce" "wf_block_id h" "blk_of sc h = Some b"
    "ns_refs nc h + part_refs sc h + gh_refs g' h \<le> unat r" "unat r + gh_room g' < 2 ^ 64"
    "\<And>h'. h' \<noteq> h \<Longrightarrow> gh_refs g' h' \<le> gh_refs g h'" "gh_room g' \<le> gh_room g"
    "gh_degraded g' = gh_degraded g" "gh_nonces g' = gh_nonces g" "gh_temps g' = gh_temps g"
  shows "cas_inv P g' nc (put_blk h (b\<lparr>blk_rc := r\<rparr>) sc) f nonce"
proof -
  have "acct nc (put_blk h (b\<lparr>blk_rc := r\<rparr>) sc) (gh_refs g')"
    unfolding acct_def
  proof (intro allI impI)
    fix h' assume wf': "wf_block_id h'"
    show "ns_refs nc h' + part_refs (put_blk h (b\<lparr>blk_rc := r\<rparr>) sc) h' + gh_refs g' h' \<le> rc_of (put_blk h (b\<lparr>blk_rc := r\<rparr>) sc) h'"
    proof (cases "h' = h")
      case False
      have "ns_refs nc h' + part_refs sc h' + gh_refs g h' \<le> rc_of sc h'"
        using assms(1) wf' by (simp add: cas_inv_def acct_def)
      with False assms(6) [OF False] assms(2) wf' show ?thesis by (simp add: rc_of_put_blk)
    qed (use assms(2,4) in \<open>simp add: rc_of_put_blk\<close>)
  qed
  moreover have "room (gh_room g') (put_blk h (b\<lparr>blk_rc := r\<rparr>) sc)"
    using assms(1,2,5,7) by (fastforce simp: cas_inv_def room_def rc_of_put_blk)
  moreover have "files_ok P (put_blk h (b\<lparr>blk_rc := r\<rparr>) sc) f"
    using assms(1,2,3) by (auto simp: cas_inv_def files_ok_def blk_of_put_blk split: if_splits)
  moreover have "degraded_in (gh_degraded g') (put_blk h (b\<lparr>blk_rc := r\<rparr>) sc)"
    using assms(1,2,3,8) by (auto simp: cas_inv_def degraded_in_def blk_of_put_blk split: if_splits)
  ultimately show ?thesis using assms(1,9,10) by (simp add: cas_inv_def)
qed

lemma cas_inv_bump:
  assumes "cas_inv P g nc sc f nonce" "wf_block_id h" "blk_of sc h = Some b" "gh_room g = Suc n"
  shows "cas_inv P (g\<lparr>gh_room := n, gh_refs := add_refs (gh_refs g) [h]\<rparr>) nc (put_blk h (increment_refcount b) sc) f nonce"
proof -
  have rc: "rc_of sc h = unat (blk_rc b)" using assms(3) by (simp add: rc_of_def)
  have bound: "unat (blk_rc b) + Suc n < 2 ^ 64" using assms rc by (auto simp: cas_inv_def room_def)
  then have "unat (blk_rc b + 1) = unat (blk_rc b) + 1" by (intro unat_inc) simp
  moreover have "ns_refs nc h + part_refs sc h + gh_refs g h \<le> unat (blk_rc b)"
    using assms(1,2) rc by (auto simp: cas_inv_def acct_def)
  ultimately show ?thesis unfolding increment_refcount_def
    using bound assms(4) by (intro cas_inv_recount [OF assms(1-3)]) (auto simp: add_refs_def)
qed

lemma cas_inv_drop:
  assumes "cas_inv P g nc sc f nonce" "wf_block_id h" "blk_of sc h = Some b" "gh_refs g = add_refs L [h]"
  shows "cas_inv P (g\<lparr>gh_refs := L\<rparr>) nc (put_blk h (decrement_refcount b) sc) f nonce"
proof -
  have rc: "rc_of sc h = unat (blk_rc b)" using assms(3) by (simp add: rc_of_def)
  have le: "ns_refs nc h + part_refs sc h + L h + 1 \<le> unat (blk_rc b)"
    using assms(1,2,4) rc by (auto simp: cas_inv_def acct_def add_refs_def)
  then have "blk_rc b \<noteq> 0" by auto
  then have "unat (blk_rc b - 1) = unat (blk_rc b) - 1" by (rule unat_dec)
  moreover have "unat (blk_rc b) + gh_room g < 2 ^ 64" using assms(1,2) rc by (auto simp: cas_inv_def room_def)
  ultimately show ?thesis unfolding decrement_refcount_def
    using le assms(4) by (intro cas_inv_recount [OF assms(1-3)]) (auto simp: add_refs_def)
qed

text \<open>The last reference: the record goes, and with it the file.\<close>

lemma cas_inv_removed:
  assumes "params_ok P" "cont_ok sc" "cas_inv P g nc sc f nonce" "wf_block_id h" "blk_of sc h = Some b" "blk_rc b = 1"
    "gh_refs g = add_refs L [h]"
  shows "cas_inv P (g\<lparr>gh_refs := L\<rparr>) nc (del_blk h sc) f nonce"
proof -
  have rc: "rc_of sc h = 1" using assms(5,6) by (simp add: rc_of_def)
  have "ns_refs nc h' + part_refs sc h' + L h' + (if h' = h then 1 else 0) \<le> rc_of sc h'" if "wf_block_id h'" for h'
    using assms(3,7) that by (fastforce simp: cas_inv_def acct_def add_refs_def)
  then have "acct nc (del_blk h sc) L"
    unfolding acct_def using assms(2,4) rc by (fastforce simp: rc_of_del_blk)
  moreover have "room (gh_room g) (del_blk h sc)"
    unfolding room_def
  proof (intro allI impI)
    fix h' assume wf': "wf_block_id h'"
    then have "rc_of sc h' + gh_room g < 2 ^ 64" using assms(3) by (simp add: cas_inv_def room_def)
    with wf' show "rc_of (del_blk h sc) h' + gh_room g < 2 ^ 64"
      by (cases "h' = h") (simp_all add: rc_of_del_blk [OF assms(2,4)])
  qed
  moreover have "files_ok P (del_blk h sc) f" "degraded_in (gh_degraded g) (del_blk h sc)"
    using assms(2,3,4) by (auto simp: cas_inv_def files_ok_def degraded_in_def blk_of_del_blk split: if_splits)
  ultimately show ?thesis using assms(3) by (simp add: cas_inv_def)
qed

lemma cas_inv_file:
  assumes "params_ok P" "cas_inv P g nc sc f nonce" "wf_block_id h"
    "\<And>b. blk_of sc h = Some b \<Longrightarrow> \<not> is_degraded b \<Longrightarrow> \<exists>bs. v = Some bs \<and> is_block P bs h"
  shows "cas_inv P g nc sc (f(block_disk_path (cp_hex P) h d (wr_root (cp_writer P)) := v)) nonce"
proof -
  let ?q = "block_disk_path (cp_hex P) h d (wr_root (cp_writer P))"
  have t: "temps_ok P f nonce (gh_temps g)" and "files_ok P sc f" using assms(2) by (simp_all add: cas_inv_def)
  then have "files_ok P sc (f(?q := v))"
    using assms(4) by (intro files_ok_upd [OF assms(1) _ assms(3)])
  moreover have "temps_ok P (f(?q := v)) nonce (gh_temps g)"
    using temp_not_block_path [OF assms(1,3) t] t by (intro temps_ok_upd) auto
  ultimately show ?thesis using assms(2) by (simp add: cas_inv_def)
qed

text \<open>A change of the namespace moves references between its records and the operation in progress.\<close>

lemma cas_inv_ns:
  assumes "cas_inv P g nc sc f nonce"
    "\<And>h. wf_block_id h \<Longrightarrow> ns_refs nc' h + L h \<le> ns_refs nc h + gh_refs g h"
  shows "cas_inv P (g\<lparr>gh_refs := L\<rparr>) nc' sc f nonce"
  using assms unfolding cas_inv_def acct_def by fastforce

lemma cas_inv_taken:
  assumes "cas_inv P g nc sc f nonce" "cont_ok nc" "finite {n. nc n \<noteq> []}" "\<not> reserved_name b"
    "map_of (nc b) k = Some raw" "object_try_from raw = Inr ob"
  shows "cas_inv P (g\<lparr>gh_refs := add_refs (gh_refs g) (object_blocks ob)\<rparr>)
    (cont_ins DEFAULT_USAGE_TREE u v (cont_del b k nc)) sc f nonce"
  by (rule cas_inv_ns [OF assms(1)])
    (use ns_refs_del [OF assms(2-4), of k] assms(5,6) in \<open>fastforce simp: add_refs_def obj_refs_def\<close>)

definition displaced_blocks :: "object option \<Rightarrow> block_id list" where
  "displaced_blocks d = (case d of None \<Rightarrow> [] | Some ob \<Rightarrow> object_blocks ob)"

lemma cas_inv_replaced:
  assumes "cas_inv P g nc sc f nonce" "cont_ok nc" "finite {n. nc n \<noteq> []}" "\<not> reserved_name b"
    "case d of None \<Rightarrow> map_of (nc b) k = None
     | Some old \<Rightarrow> \<exists>raw. map_of (nc b) k = Some raw \<and> object_try_from raw = Inr old"
    "object_try_from new_raw = Inr new" "gh_refs g = add_refs L (object_blocks new)"
  shows "cas_inv P (g\<lparr>gh_refs := add_refs L (displaced_blocks d)\<rparr>)
    (cont_ins DEFAULT_USAGE_TREE u v (cont_ins b k new_raw nc)) sc f nonce"
  by (rule cas_inv_ns [OF assms(1)])
    (use ns_refs_ins [OF assms(2-4), of k new_raw] assms(5-7) in
      \<open>fastforce simp: add_refs_def obj_refs_def displaced_blocks_def split: option.splits\<close>)

lemma ids_of_chunks_wf: "ids_of_chunks cs = Inr ids \<Longrightarrow> i \<in> set ids \<Longrightarrow> wf_block_id i"
  by (induction cs arbitrary: ids) (auto simp: bindE_eq_Inr dest: block_id_from_slice_wf)

lemma fst_Inr_obtain: "fst p = Inr x \<Longrightarrow> \<exists>r. p = (Inr x, r)"
  by (cases p) auto

lemma reader_id_list_wf:
  assumes "reader_id_list r = (Inr ids, r')" "i \<in> set ids"
  shows "wf_block_id i"
  using assms ids_of_chunks_wf
  by (auto simp: reader_id_list_def bindM_eq_Inr liftE_def ret_def raise_def Let_def split: if_splits option.splits sum.splits)

lemma object_blocks_wf:
  assumes "object_try_from raw = Inr ob" "h \<in> set (object_blocks ob)"
  shows "wf_block_id h"
proof -
  have "wf_block_id h" if "reader_object_data ty r = (Inr d, r')" "h \<in> set (data_blocks d)" for ty d r r'
    using that by (cases ty) (auto simp: bindM_eq_Inr ret_def dest: reader_id_list_wf)
  then show ?thesis using assms
    by (auto simp: object_try_from_def object_blocks_def bindM_eq_Inr ret_def dest!: fst_Inr_obtain split: if_splits)
qed

lemma mp_blocks_wf:
  assumes "multipart_try_from raw = Inr mp" "h \<in> set (mp_blocks mp)"
  shows "wf_block_id h"
  using assms
  by (auto simp: multipart_try_from_def bindM_eq_Inr ret_def dest!: fst_Inr_obtain) (rule reader_id_list_wf)
subsection \<open>The bucket's usage counter\<close>

definition usage_of :: "content \<Rightarrow> string \<Rightarrow> meta_error + u64" where
  "usage_of c b = (case map_of (c DEFAULT_USAGE_TREE) (as_bytes b) of None \<Rightarrow> Inr 0 | Some raw \<Rightarrow> decode_usage b raw)"

lemma usage_of_other [simp]:
  "n \<noteq> DEFAULT_USAGE_TREE \<Longrightarrow> usage_of (cont_ins n k v c) b = usage_of c b"
  "n \<noteq> DEFAULT_USAGE_TREE \<Longrightarrow> usage_of (cont_del n k c) b = usage_of c b"
  by (simp_all add: usage_of_def)

lemma usage_of_ins [simp]:
  "usage_of (cont_ins DEFAULT_USAGE_TREE (as_bytes b) (u64_to_le_bytes u) c) b' = (if b' = b then Inr u else usage_of c b')"
  by (simp add: usage_of_def decode_usage_def)

context store_contract
begin

lemma finite_cont: "inv s \<Longrightarrow> finite {n. cont s n \<noteq> []}"
  by (rule finite_subset [OF _ inv_finite [of s]]) (use inv_names in auto)

end

subsection \<open>The contract of a whole store\<close>

text \<open>The trees the shared store opens once.\<close>

definition shared_trees :: "string set" where
  "shared_trees = {DEFAULT_BLOCK_TREE, MULTIPART_PARTS_TREE, UPLOADS_TREE}"

locale cas_contract =
  ns: store_contract "en_ns E" ninv ntx ncont ntxv nnames "{}" +
  sh: store_contract "en_sh E" sinv stx scont stxv snames shared_trees +
  dk: disk_contract "en_disk E" dinv vis
  for E :: "('n, 's, 'd) env"
    and ninv ntx ncont ntxv nnames
    and sinv stx scont stxv snames
    and dinv vis
begin

definition cas_ok :: "ghost \<Rightarrow> ('n, 's, 'd) cas \<Rightarrow> bool" where
  "cas_ok g s \<longleftrightarrow> params_ok (en_params E) \<and> ninv (cs_ns s) \<and> \<not> ntx (cs_ns s) \<and> sinv (cs_sh s) \<and> \<not> stx (cs_sh s) \<and>
     dinv (bs_disk (cs_bs s)) \<and>
     cas_inv (en_params E) g (ncont (cs_ns s)) (scont (cs_sh s)) (vis (bs_disk (cs_bs s))) (bs_nonce (cs_bs s))"

text \<open>The block tree and the block files are all an operation changed.\<close>

definition blocks_only :: "('n, 's, 'd) cas \<Rightarrow> ('n, 's, 'd) cas \<Rightarrow> bool" where
  "blocks_only s s' \<longleftrightarrow> cs_ns s' = cs_ns s \<and>
     (\<forall>n. n \<noteq> DEFAULT_BLOCK_TREE \<longrightarrow> scont (cs_sh s') n = scont (cs_sh s) n)"

lemma blocks_only_refl [simp]: "blocks_only s s"
  by (simp add: blocks_only_def)

lemma blocks_only_trans: "blocks_only s t \<Longrightarrow> blocks_only t u \<Longrightarrow> blocks_only s u"
  by (simp add: blocks_only_def)

lemma cas_okD:
  assumes "cas_ok g s"
  shows "params_ok (en_params E)" "ninv (cs_ns s)" "\<not> ntx (cs_ns s)" "sinv (cs_sh s)" "\<not> stx (cs_sh s)"
    "dinv (bs_disk (cs_bs s))"
    "cas_inv (en_params E) g (ncont (cs_ns s)) (scont (cs_sh s)) (vis (bs_disk (cs_bs s))) (bs_nonce (cs_bs s))"
  using assms by (simp_all add: cas_ok_def)

lemma cas_ok_weaken:
  assumes "cas_ok g s" "gh_degraded g \<subseteq> gh_degraded g'" "gh_room g' \<le> gh_room g"
    "gh_nonces g' \<le> gh_nonces g" "\<And>h. gh_refs g' h \<le> gh_refs g h" "gh_temps g' \<subseteq>\<^sub>m gh_temps g"
  shows "cas_ok g' s"
  using assms(1) cas_inv_weaken [OF cas_okD(7) [OF assms(1)] assms(2-6)] by (simp add: cas_ok_def)

lemma cas_ok_sh:
  assumes "cas_ok g s" "sinv t" "\<not> stx t"
    "cas_inv (en_params E) g' (ncont (cs_ns s)) (scont t) (vis (bs_disk (cs_bs s))) (bs_nonce (cs_bs s))"
  shows "cas_ok g' (s\<lparr>cs_sh := t\<rparr>)"
  using assms by (simp add: cas_ok_def)

lemma cas_ok_bs:
  assumes "cas_ok g s" "dinv (bs_disk t)"
    "cas_inv (en_params E) g' (ncont (cs_ns s)) (scont (cs_sh s)) (vis (bs_disk t)) (bs_nonce t)"
  shows "cas_ok g' (s\<lparr>cs_bs := t\<rparr>)"
  using assms by (simp add: cas_ok_def)

lemma cas_ok_ns:
  assumes "cas_ok g s" "ninv t" "\<not> ntx t"
    "cas_inv (en_params E) g' (ncont t) (scont (cs_sh s)) (vis (bs_disk (cs_bs s))) (bs_nonce (cs_bs s))"
  shows "cas_ok g' (s\<lparr>cs_ns := t\<rparr>)"
  using assms by (simp add: cas_ok_def)

lemma drop_ref:
  assumes "cas_ok (g\<lparr>gh_refs := add_refs L bs\<rparr>) s"
  shows "cas_ok (g\<lparr>gh_refs := L\<rparr>) s"
  by (rule cas_ok_weaken [OF assms]) (simp_all add: add_refs_def)

end

end
