(* ===== verification/DeletePath.thy ===== *)
theory DeletePath
  imports CasState
begin

section \<open>Releasing references\<close>

text \<open>
  \<open>cas/delete_path.rs\<close>: dropping one reference under the block's stripe, releasing a list of
  references, deleting an object, deleting a bucket. A stripe is held for the whole of
  \<open>decrement_one_block\<close>, so the definition is one step of the store.
\<close>

definition decrement_one_block :: "('n, 's, 'd) env \<Rightarrow> block_id \<Rightarrow> ('n, 's, 'd, unit) cas_act" where
  "decrement_one_block E i =
    (let S = en_sh E in
     bindM (on_sh (begin_transaction S)) (\<lambda>_.
     bindM (on_sh (or_rollback S (decrement_block_rc S i))) (\<lambda>r. case r of
       Missing \<Rightarrow> on_sh (rollback S)
     | Decremented _ \<Rightarrow> on_sh (tx_commit S)
     | Removed b \<Rightarrow>
         bindM (on_sh (tx_commit S)) (\<lambda>_.
           mapE (\<lambda>_. CMeta (OtherDBError ''unlinking block file''))
             (on_bs (unlink_block (en_disk E) (hex_of E) (writer_of E) i (blk_depth b)))))))"

fun release_blocks :: "('n, 's, 'd) env \<Rightarrow> block_id list \<Rightarrow> ('n, 's, 'd, unit) cas_act" where
  "release_blocks E [] = ret ()"
| "release_blocks E (i # is) = bindM (ignore (decrement_one_block E i)) (\<lambda>_. release_blocks E is)"

text \<open>The namespace half of a delete: the object record out, its size off the bucket's usage.\<close>

definition take_object_record :: "'n store_ops \<Rightarrow> string \<Rightarrow> bytes \<Rightarrow> ('n, meta_error, object option) act" where
  "take_object_record S bucket key =
    bindM (begin_transaction S) (\<lambda>_.
    bindM (or_rollback S
      (bindM (take_object S bucket key) (\<lambda>ob. case ob of
         Some o' \<Rightarrow> bindM (add_bucket_usage S bucket (- obj_size o')) (\<lambda>_. ret (Some o'))
       | None \<Rightarrow> ret None))) (\<lambda>ob.
    bindM (tx_commit S) (\<lambda>_. ret ob)))"

definition delete_object :: "('n, 's, 'd) env \<Rightarrow> string \<Rightarrow> bytes \<Rightarrow> ('n, 's, 'd, bool) cas_act" where
  "delete_object E bucket key =
    bindM (on_ns (take_object_record (en_ns E) bucket key)) (\<lambda>ob. case ob of
      None \<Rightarrow> ret False
    | Some o' \<Rightarrow> bindM (release_blocks E (object_blocks o')) (\<lambda>_. ret True))"

text \<open>The loop over the bucket's keys reads the database for each key, after the deletions so far.\<close>

fun delete_all :: "nat \<Rightarrow> ('n, 's, 'd) env \<Rightarrow> string \<Rightarrow> bytes option \<Rightarrow> ('n, 's, 'd, bool) cas_act" where
  "delete_all 0 E bucket cur = ret False"
| "delete_all (Suc fuel) E bucket cur =
    bindM (on_ns (\<lambda>s. let (r, s') = tr_iter_next (en_ns E) bucket cur s in (Inr r, s'))) (\<lambda>(item, cur'). case item of
      None \<Rightarrow> ret True
    | Some (Inl e) \<Rightarrow> raise (CMeta e)
    | Some (Inr (k, v)) \<Rightarrow>
        bindM (delete_object E bucket k) (\<lambda>_. delete_all fuel E bucket cur'))"

definition bucket_delete :: "nat \<Rightarrow> ('n, 's, 'd) env \<Rightarrow> string \<Rightarrow> ('n, 's, 'd, bool) cas_act" where
  "bucket_delete fuel E bucket =
    (let S = en_ns E in
     bindM (on_ns (st_tree_open S DEFAULT_BUCKET_TREE)) (\<lambda>_.
     bindM (on_ns (tr_remove S DEFAULT_BUCKET_TREE (as_bytes bucket))) (\<lambda>_.
     bindM (on_ns (st_tree_open S bucket)) (\<lambda>_.
     bindM (delete_all fuel E bucket None) (\<lambda>finished.
       if finished then bindM (on_ns (drop_bucket S bucket)) (\<lambda>_. ret True) else ret False)))))"

context store_contract
begin

lemma take_object_record_spec:
  assumes "inv s" "\<not> in_tx s"
  shows "wp (take_object_record S b k)
    (\<lambda>r s'. inv s' \<and> \<not> in_tx s' \<and> names s \<subseteq> names s' \<and> (case r of
        None \<Rightarrow> map_of (cont s b) k = None \<and> cont s' = cont s
      | Some ob \<Rightarrow> \<exists>raw cur. map_of (cont s b) k = Some raw \<and> object_try_from raw = Inr ob \<and>
          usage_of (cont_del b k (cont s)) b = Inr cur \<and>
          cont s' = cont_ins DEFAULT_USAGE_TREE (as_bytes b) (u64_to_le_bytes (usage_after cur (- obj_size ob)))
            (cont_del b k (cont s))))
    (\<lambda>e s'. inv s' \<and> \<not> in_tx s' \<and> (cont s' = cont s \<or> (\<exists>ob raw v. map_of (cont s b) k = Some raw \<and>
       object_try_from raw = Inr ob \<and>
       cont s' = cont_ins DEFAULT_USAGE_TREE (as_bytes b) v (cont_del b k (cont s))))) s"
    (is "wp _ ?Q ?E s")
proof -
  let ?c = "cont_del b k (cont s)"
  let ?R = "\<lambda>ob t. inv t \<and> in_tx t \<and> cont t = cont s \<and> names s \<subseteq> names t \<and> (case ob of
      None \<Rightarrow> map_of (cont s b) k = None \<and> txv t = cont s
    | Some ob \<Rightarrow> \<exists>raw cur. map_of (cont s b) k = Some raw \<and> object_try_from raw = Inr ob \<and>
        usage_of ?c b = Inr cur \<and>
        txv t = cont_ins DEFAULT_USAGE_TREE (as_bytes b) (u64_to_le_bytes (usage_after cur (- obj_size ob))) ?c)"
  let ?F = "\<lambda>_ t. inv t \<and> in_tx t \<and> cont t = cont s \<and> {} \<subseteq> names t"
  have body: "wp (bindM (take_object S b k) (\<lambda>ob. case ob of
         Some o' \<Rightarrow> bindM (add_bucket_usage S b (- obj_size o')) (\<lambda>_. ret (Some o'))
       | None \<Rightarrow> ret None)) ?R ?F t"
    if t: "inv t" "in_tx t" "cont t = cont s" "txv t = cont s" "names t = names s" for t
  proof (rule wp_seq [OF wp_mono [OF take_object_spec [OF t(1,2)]]])
    fix ob t' assume *: "txf t t' \<and> (case ob of
        None \<Rightarrow> txv t' = txv t \<and> map_of (txv t b) k = None
      | Some ob \<Rightarrow> \<exists>raw. map_of (txv t b) k = Some raw \<and> object_try_from raw = Inr ob \<and> txv t' = cont_del b k (txv t))"
    show "wp (case ob of Some o' \<Rightarrow> bindM (add_bucket_usage S b (- obj_size o')) (\<lambda>_. ret (Some o'))
       | None \<Rightarrow> ret None) ?R ?F t'"
    proof (cases ob)
      case None
      with * t show ?thesis by simp
    next
      case (Some o')
      with * t have t': "inv t'" "in_tx t'" "cont t' = cont s" "names s \<subseteq> names t'" "txv t' = ?c" by auto
      from Some * t obtain raw where raw: "map_of (cont s b) k = Some raw" "object_try_from raw = Inr o'" by auto
      show ?thesis unfolding Some option.case wp_bindM wp_ret_fun
      proof (rule wp_mono [OF add_bucket_usage_spec [OF t'(1,2)]], goal_cases)
        case (1 u t'')
        then obtain cur where "txf t' t''" "u = usage_after cur (- obj_size o')" "usage_of ?c b = Inr cur"
          "txv t'' = cont_ins DEFAULT_USAGE_TREE (as_bytes b) (u64_to_le_bytes u) ?c"
          unfolding usage_of_def t'(5) by (auto split: option.splits)
        with t' raw show ?case by auto
      qed (use t' in auto)
    qed
  qed (use t in auto)
  show ?thesis
    unfolding take_object_record_def wp_bindM
  proof (rule wp_begin [OF assms], goal_cases)
    case (1 t)
    show ?case
    proof (rule wp_or_rollback [OF wp_mono [OF body [OF 1]]])
      fix ob u assume u: "?R ob u"
      show "wp (tx_commit S) (\<lambda>_. wp (ret ob) ?Q ?E) ?E u"
        unfolding wp_ret_fun
      proof (rule wp_tx_commit, goal_cases)
        case (3 s')
        with u show ?case by (cases ob) auto
      next
        case (4 e s')
        with u show ?case by (cases ob) auto
      qed (use u in auto)
    qed auto
  qed
qed

end

context cas_contract
begin

lemma decrement_one_block_spec:
  assumes ok: "cas_ok g s" and refs: "gh_refs g = add_refs L [h]" and wf: "wf_block_id h"
  shows "wp (decrement_one_block E h)
    (\<lambda>_ s'. cas_ok (g\<lparr>gh_refs := L\<rparr>) s' \<and> blocks_only s s')
    (\<lambda>_ s'. cas_ok (g\<lparr>gh_refs := L\<rparr>) s' \<and> blocks_only s s') s"
proof -
  let ?post = "\<lambda>s'. cas_ok (g\<lparr>gh_refs := L\<rparr>) s' \<and> blocks_only s s'"
  note D = cas_okD [OF ok]
  have cok: "cont_ok (scont (cs_sh s))" by (rule sh.inv_cont [OF D(4)])
  have keep: "?post (s\<lparr>cs_sh := t\<rparr>)" if "sinv t" "\<not> stx t" "scont t = scont (cs_sh s)" for t
  proof -
    from ok refs have "cas_ok (g\<lparr>gh_refs := add_refs L [h]\<rparr>) s" by (metis ghost.surjective ghost.update_convs(4))
    from drop_ref [OF this] that show ?thesis by (auto simp: cas_ok_def blocks_only_def)
  qed
  have dropped: "?post (s\<lparr>cs_sh := t\<rparr>)"
    if "sinv t" "\<not> stx t" "scont t = put_blk h (decrement_refcount b) (scont (cs_sh s))" "blk_of (scont (cs_sh s)) h = Some b"
    for t b
    using cas_ok_sh [OF ok that(1,2), of "g\<lparr>gh_refs := L\<rparr>"] cas_inv_drop [OF D(7) wf that(4) refs] that(3)
    by (simp add: blocks_only_def)
  have removed: "?post (s\<lparr>cs_sh := t\<rparr>)"
    if "sinv t" "\<not> stx t" "scont t = del_blk h (scont (cs_sh s))" "blk_of (scont (cs_sh s)) h = Some b" "blk_rc b = 1" for t b
    using cas_ok_sh [OF ok that(1,2), of "g\<lparr>gh_refs := L\<rparr>"] cas_inv_removed [OF D(1) cok D(7) wf that(4,5) refs] that(3)
    by (simp add: blocks_only_def)
  have unlinked: "wp (mapE (\<lambda>_. CMeta (OtherDBError ''unlinking block file''))
        (on_bs (unlink_block (en_disk E) (hex_of E) (writer_of E) h d))) (\<lambda>_. ?post) (\<lambda>_. ?post) u"
    if u: "?post u" and none: "blk_of (scont (cs_sh u)) h = None" for u d
  proof -
    note U = cas_okD [OF conjunct1 [OF u]]
    have set: "?post (u\<lparr>cs_bs := t\<rparr>)"
      if "dinv (bs_disk t)" "bs_nonce t = bs_nonce (cs_bs u)"
        "vis (bs_disk t) = (vis (bs_disk (cs_bs u)))(block_disk_path (hex_of E) h d (wr_root (writer_of E)) := v) \<or>
         vis (bs_disk t) = vis (bs_disk (cs_bs u))" for t v
    proof -
      have "cas_ok (g\<lparr>gh_refs := L\<rparr>) (u\<lparr>cs_bs := t\<rparr>)"
        using that(3)
      proof
        assume "vis (bs_disk t) = vis (bs_disk (cs_bs u))"
        then show ?thesis using cas_ok_bs [OF conjunct1 [OF u] that(1)] U(7) that(2) by simp
      next
        assume *: "vis (bs_disk t) = (vis (bs_disk (cs_bs u)))(block_disk_path (hex_of E) h d (wr_root (writer_of E)) := v)"
        have "cas_inv (en_params E) (g\<lparr>gh_refs := L\<rparr>) (ncont (cs_ns u)) (scont (cs_sh u)) (vis (bs_disk t)) (bs_nonce t)"
          unfolding * that(2) by (rule cas_inv_file [OF U(1,7) wf]) (simp add: none)
        then show ?thesis by (rule cas_ok_bs [OF conjunct1 [OF u] that(1)])
      qed
      with u show ?thesis by (simp add: blocks_only_def)
    qed
    show ?thesis unfolding unlink_block_def wp_mapE wp_on_bs wp_on_disk
    proof (rule dk.wp_remove_file [OF U(6)], goal_cases)
      case (1 d')
      then show ?case by (intro set [of _ None]) simp_all
    next
      case (2 e d')
      then show ?case by (intro set) simp_all
    qed
  qed
  have ends: "wp (case r of
        Missing \<Rightarrow> on_sh (rollback (en_sh E))
      | Decremented _ \<Rightarrow> on_sh (tx_commit (en_sh E))
      | Removed b \<Rightarrow> bindM (on_sh (tx_commit (en_sh E))) (\<lambda>_.
          mapE (\<lambda>_. CMeta (OtherDBError ''unlinking block file''))
            (on_bs (unlink_block (en_disk E) (hex_of E) (writer_of E) h (blk_depth b)))))
      (\<lambda>_. ?post) (\<lambda>_. ?post) (s\<lparr>cs_sh := t\<rparr>)"
    if t: "sinv t" "stx t" "scont t = scont (cs_sh s)"
      and r: "case r of
        Missing \<Rightarrow> stxv t = scont (cs_sh s) \<and> blk_of (scont (cs_sh s)) h = None
      | Removed b \<Rightarrow> blk_of (scont (cs_sh s)) h = Some b \<and> blk_rc b = 1 \<and> stxv t = del_blk h (scont (cs_sh s))
      | Decremented b' \<Rightarrow> \<exists>b. blk_of (scont (cs_sh s)) h = Some b \<and> blk_rc b \<noteq> 1 \<and> b' = decrement_refcount b \<and>
          stxv t = put_blk h b' (scont (cs_sh s))" for r t
  proof (cases r)
    case Missing
    show ?thesis unfolding Missing block_decrement.case wp_on_sh
      by (rule sh.wp_rollback) (simp_all add: t keep)
  next
    case (Decremented b')
    with r obtain b where b: "blk_of (scont (cs_sh s)) h = Some b" "stxv t = put_blk h (decrement_refcount b) (scont (cs_sh s))"
      by auto
    show ?thesis unfolding Decremented block_decrement.case wp_on_sh
    proof (rule sh.wp_tx_commit, goal_cases)
      case (3 t')
      then show ?case using dropped [OF 3(1,2) _ b(1)] b(2) by simp
    next
      case (4 e t')
      then show ?case using dropped [OF 4(1,2) _ b(1)] keep [OF 4(1,2)] b(2) t(3) by auto
    qed (simp_all add: t)
  next
    case (Removed b)
    with r have b: "blk_of (scont (cs_sh s)) h = Some b" "blk_rc b = 1" "stxv t = del_blk h (scont (cs_sh s))" by auto
    have gone: "blk_of (del_blk h (scont (cs_sh s))) h = None" using wf cok by (simp add: blk_of_del_blk)
    have "wp (on_sh (tx_commit (en_sh E)))
        (\<lambda>_ u. ?post u \<and> blk_of (scont (cs_sh u)) h = None) (\<lambda>_. ?post) (s\<lparr>cs_sh := t\<rparr>)"
      unfolding wp_on_sh
    proof (rule sh.wp_tx_commit, goal_cases)
      case (3 t')
      then show ?case using removed [OF 3(1,2) _ b(1,2)] b(3) gone by simp
    next
      case (4 e t')
      then show ?case using removed [OF 4(1,2) _ b(1,2)] keep [OF 4(1,2)] b(3) t(3) by auto
    qed (simp_all add: t)
    from wp_seq [OF this unlinked] Removed show ?thesis by simp
  qed
  show ?thesis
    unfolding decrement_one_block_def Let_def wp_bindM wp_on_sh
  proof (rule sh.wp_begin [OF D(4,5)], goal_cases)
    case (1 t)
    have "wp (or_rollback (en_sh E) (decrement_block_rc (en_sh E) h)) (\<lambda>r t'. wp (case r of
        Missing \<Rightarrow> on_sh (rollback (en_sh E))
      | Decremented _ \<Rightarrow> on_sh (tx_commit (en_sh E))
      | Removed b \<Rightarrow> bindM (on_sh (tx_commit (en_sh E))) (\<lambda>_.
          mapE (\<lambda>_. CMeta (OtherDBError ''unlinking block file''))
            (on_bs (unlink_block (en_disk E) (hex_of E) (writer_of E) h (blk_depth b)))))
      (\<lambda>_. ?post) (\<lambda>_. ?post) (s\<lparr>cs_sh := t'\<rparr>)) (\<lambda>_ t'. ?post (s\<lparr>cs_sh := t'\<rparr>)) t"
    proof (rule sh.wp_or_rollback [where c = "scont (cs_sh s)" and N = "{}"],
        rule wp_mono [OF sh.decrement_block_rc_spec [OF 1(1,2), unfolded 1(3) 1(4)]], goal_cases)
      case (1 r t')
      then show ?case by (elim conjE) (rule ends; assumption)
    next
      case (2 e t')
      with 1 show ?case by simp
    next
      case (3 e t')
      with keep show ?case by simp
    qed
    then show ?case by simp
  qed
qed

lemma release_blocks_spec:
  assumes "cas_ok (g\<lparr>gh_refs := add_refs L is\<rparr>) s" "\<forall>i \<in> set is. wf_block_id i"
  shows "wp (release_blocks E is) (\<lambda>_ s'. cas_ok (g\<lparr>gh_refs := L\<rparr>) s' \<and> blocks_only s s') (\<lambda>_ _. False) s"
  using assms
proof (induction "is" arbitrary: s)
  case (Cons i "is")
  have step: "wp (decrement_one_block E i)
      (\<lambda>_ s'. cas_ok (g\<lparr>gh_refs := add_refs L is\<rparr>) s' \<and> blocks_only s s')
      (\<lambda>_ s'. cas_ok (g\<lparr>gh_refs := add_refs L is\<rparr>) s' \<and> blocks_only s s') s"
    using decrement_one_block_spec [OF Cons.prems(1), of "add_refs L is" i] Cons.prems(2) add_refs_Cons [of L i "is"]
    by simp
  have rest: "wp (release_blocks E is) (\<lambda>_ s'. cas_ok (g\<lparr>gh_refs := L\<rparr>) s' \<and> blocks_only s s') (\<lambda>_ _. False) t"
    if "cas_ok (g\<lparr>gh_refs := add_refs L is\<rparr>) t \<and> blocks_only s t" for t
  proof (rule wp_mono [OF Cons.IH])
    fix s' assume "cas_ok (g\<lparr>gh_refs := L\<rparr>) s' \<and> blocks_only t s'"
    then show "cas_ok (g\<lparr>gh_refs := L\<rparr>) s' \<and> blocks_only s s'" using that blocks_only_trans [of s t s'] by simp
  qed (use that Cons.prems(2) in simp_all)
  show ?case
    unfolding release_blocks.simps wp_bindM wp_ignore
    by (rule wp_mono [OF step]) (rule rest, assumption)+
qed simp

lemma ns_step:
  assumes "cas_ok g s" "ninv t" "\<not> ntx t" "ncont t = ncont (cs_ns s)"
  shows "cas_ok g (s\<lparr>cs_ns := t\<rparr>)"
  using assms by (simp add: cas_ok_def)

lemma delete_object_spec:
  assumes ok: "cas_ok g s" and b: "\<not> reserved_name b"
  shows "wp (delete_object E b k)
    (\<lambda>r s'. cas_ok g s' \<and> r = (map_of (ncont (cs_ns s) b) k \<noteq> None) \<and>
       (\<forall>n. n \<noteq> DEFAULT_USAGE_TREE \<longrightarrow> ncont (cs_ns s') n = cont_del b k (ncont (cs_ns s)) n) \<and>
       (\<forall>n. n \<noteq> DEFAULT_BLOCK_TREE \<longrightarrow> scont (cs_sh s') n = scont (cs_sh s) n))
    (\<lambda>e s'. cas_ok g s' \<and> (\<exists>m. e = CMeta m) \<and> cs_sh s' = cs_sh s \<and> (ncont (cs_ns s') = ncont (cs_ns s) \<or>
       (\<forall>n. n \<noteq> DEFAULT_USAGE_TREE \<longrightarrow> ncont (cs_ns s') n = cont_del b k (ncont (cs_ns s)) n))) s"
    (is "wp _ ?Q ?E s")
proof -
  note D = cas_okD [OF ok]
  have cok: "cont_ok (ncont (cs_ns s))" by (rule ns.inv_cont [OF D(2)])
  have fin: "finite {n. ncont (cs_ns s) n \<noteq> []}" by (rule ns.finite_cont [OF D(2)])
  have taken: "cas_ok (g\<lparr>gh_refs := add_refs (gh_refs g) (object_blocks ob)\<rparr>) (s\<lparr>cs_ns := t\<rparr>)"
    if "ninv t" "\<not> ntx t" "ncont t = cont_ins DEFAULT_USAGE_TREE (as_bytes b) v (cont_del b k (ncont (cs_ns s)))"
      "map_of (ncont (cs_ns s) b) k = Some raw" "object_try_from raw = Inr ob" for t v raw ob
    using cas_inv_taken [OF D(7) cok fin b that(4,5), of "as_bytes b" v] that(1-3) by (intro cas_ok_ns [OF ok]) simp_all
  have gone: "omap_del k m = m" if "map_of m k = None" "omap_ok m" for m :: "(bytes, bytes) omap"
    using that by (induction m) (auto simp: omap_ok_Cons)
  show ?thesis
    unfolding delete_object_def wp_bindM wp_on_ns
  proof (rule wp_mono [OF ns.take_object_record_spec [OF D(2,3)]], goal_cases)
    case (1 r t)
    show ?case
    proof (cases r)
      case None
      have "cont_del b k (ncont (cs_ns s)) = ncont (cs_ns s)"
        using gone [of "ncont (cs_ns s) b"] 1 None cok by (simp add: cont_del_def cont_ok_def)
      with 1 None ns_step [OF ok, of t] show ?thesis by simp
    next
      case (Some ob)
      with 1 obtain raw v where t: "ninv t" "\<not> ntx t" "map_of (ncont (cs_ns s) b) k = Some raw" "object_try_from raw = Inr ob"
        "ncont t = cont_ins DEFAULT_USAGE_TREE (as_bytes b) v (cont_del b k (ncont (cs_ns s)))" by auto
      have rel: "wp (release_blocks E (object_blocks ob))
          (\<lambda>_ s'. cas_ok (g\<lparr>gh_refs := gh_refs g\<rparr>) s' \<and> blocks_only (s\<lparr>cs_ns := t\<rparr>) s') (\<lambda>_ _. False) (s\<lparr>cs_ns := t\<rparr>)"
        by (rule release_blocks_spec [OF taken [OF t(1,2,5,3,4)]]) (use object_blocks_wf [OF t(4)] in blast)
      show ?thesis unfolding Some option.case wp_bindM wp_ret_fun
        by (rule wp_mono [OF rel]) (use t in \<open>auto simp: blocks_only_def\<close>)
    qed
  next
    case (2 e t)
    then show ?case
    proof (elim conjE disjE exE)
      assume "ninv t" "\<not> ntx t" "ncont t = ncont (cs_ns s)"
      with ns_step [OF ok this] show ?thesis by simp
    next
      fix ob raw v assume t: "ninv t" "\<not> ntx t" "map_of (ncont (cs_ns s) b) k = Some raw" "object_try_from raw = Inr ob"
        "ncont t = cont_ins DEFAULT_USAGE_TREE (as_bytes b) v (cont_del b k (ncont (cs_ns s)))"
      then have "cas_ok (g\<lparr>gh_refs := add_refs (gh_refs g) (object_blocks ob)\<rparr>) (s\<lparr>cs_ns := t\<rparr>)"
        by (intro taken)
      from drop_ref [OF this] t(5) show ?thesis by simp
    qed
  qed
qed

end

end
