(* ===== verification/WritePath.thy ===== *)
theory WritePath
  imports DeletePath
begin

section \<open>Batches of blocks\<close>

text \<open>
  \<open>cas/write_path/batch.rs\<close>: the accumulator of a request's blocks, resolving an arriving chunk and closing
  a batch. \<open>commit_batch\<close> runs with every stripe of its blocks held, so it is one step of the store.

  A panic inside the blocking task of \<open>close_alone\<close> reaches the caller as an error; the panics of the code
  are \<open>CPanic\<close>. The write guards only move metrics and are left out.
\<close>

subsection \<open>The accumulator\<close>

definition DEFAULT_MAX_BLOCKS_PER_COMMIT :: nat where
  "DEFAULT_MAX_BLOCKS_PER_COMMIT = 64"

datatype payload = Staged staged_block | Deduped bytes

record batch_entry =
  be_id :: block_id
  be_len :: nat
  be_occurrences :: nat
  be_payload :: payload
  be_depth :: "u8 option"

record block_batch =
  bb_entries :: "batch_entry list"
  bb_seen :: "block_id \<rightharpoonup> nat"
  bb_cap :: nat

definition batch_new :: "nat \<Rightarrow> block_batch" where
  "batch_new cap = \<lparr>bb_entries = [], bb_seen = Map.empty, bb_cap = max cap 1\<rparr>"

definition add_occurrence :: "block_batch \<Rightarrow> block_id \<Rightarrow> cas_error + bool \<times> block_batch" where
  "add_occurrence b i = (case bb_seen b i of
     Some slot \<Rightarrow>
       if slot < length (bb_entries b) then
         let e = bb_entries b ! slot in
         Inr (True, b\<lparr>bb_entries := (bb_entries b)[slot := e\<lparr>be_occurrences := be_occurrences e + 1\<rparr>]\<rparr>)
       else Inl (CPanic ''index out of bounds'')
   | None \<Rightarrow> Inr (False, b))"

definition push :: "block_batch \<Rightarrow> batch_entry \<Rightarrow> block_batch" where
  "push b e = b\<lparr>bb_seen := (bb_seen b)(be_id e \<mapsto> length (bb_entries b)), bb_entries := bb_entries b @ [e]\<rparr>"

definition is_full :: "block_batch \<Rightarrow> bool" where
  "is_full b \<longleftrightarrow> bb_cap b \<le> length (bb_entries b)"

definition take_entries :: "block_batch \<Rightarrow> batch_entry list \<times> block_batch" where
  "take_entries b = (bb_entries b, b\<lparr>bb_seen := Map.empty, bb_entries := []\<rparr>)"

subsection \<open>Arriving chunks\<close>

definition has_live_record :: "('n, 's, 'd) env \<Rightarrow> block_id \<Rightarrow> ('n, 's, 'd, bool) cas_act" where
  "has_live_record E i =
    bindM (mapE (\<lambda>_. CIo (IoError OtherKind ''reading the block record''))
      (on_sh (get_block (en_sh E) (as_slice i)))) (\<lambda>r.
      ret (case r of Some b \<Rightarrow> \<not> is_degraded b | None \<Rightarrow> False))"

definition resolve_chunk :: "('n, 's, 'd) env \<Rightarrow> block_id \<Rightarrow> bytes \<Rightarrow> ('n, 's, 'd, payload) cas_act" where
  "resolve_chunk E i bs =
    bindM (has_live_record E i) (\<lambda>live.
      if live then ret (Deduped bs)
      else
        bindM (on_bs (choose_depth (en_disk E) (hex_of E) (placement_of E) i)) (\<lambda>depth.
        bindM (on_bs (stage_block (en_disk E) (hex_of E) (writer_of E) i depth bs)) (\<lambda>st.
          ret (Staged st))))"

definition new_entry :: "block_id \<Rightarrow> nat \<Rightarrow> payload \<Rightarrow> batch_entry" where
  "new_entry i n p =
    \<lparr>be_id = i, be_len = n, be_occurrences = 1, be_payload = p,
     be_depth = (case p of Staged st \<Rightarrow> Some (sg_depth st) | Deduped _ \<Rightarrow> None)\<rparr>"

definition accumulate ::
  "('n, 's, 'd) env \<Rightarrow> block_batch \<Rightarrow> block_id \<Rightarrow> bytes \<Rightarrow> ('n, 's, 'd, block_batch) cas_act" where
  "accumulate E batch i bs =
    bindM (liftE (add_occurrence batch i)) (\<lambda>(hit, batch).
      if hit then ret batch
      else bindM (resolve_chunk E i bs) (\<lambda>p. ret (push batch (new_entry i (length bs) p))))"

fun abandon :: "('n, 's, 'd) env \<Rightarrow> batch_entry list \<Rightarrow> ('n, 's, 'd, unit) cas_act" where
  "abandon E [] = ret ()"
| "abandon E (e # es) =
    bindM (case be_payload e of
        Staged st \<Rightarrow> on_bs (discard_staged (en_disk E) st)
      | Deduped _ \<Rightarrow> ret ()) (\<lambda>_. abandon E es)"

subsection \<open>Closing a batch\<close>

record flush_outcome =
  fo_written :: nat
  fo_ignored :: nat

fun bump_times :: "'s store_ops \<Rightarrow> block_id \<Rightarrow> nat \<Rightarrow> ('s, cas_error, unit) act" where
  "bump_times S i 0 = ret ()"
| "bump_times S i (Suc n) = bindM (mapE CMeta (bump_block_rc S i)) (\<lambda>_. bump_times S i n)"

definition record_entry :: "'s store_ops \<Rightarrow> batch_entry \<Rightarrow> ('s, cas_error, bool) act" where
  "record_entry S e =
    bindM (mapE CMeta (bump_block_rc S (be_id e))) (\<lambda>r.
    bindM (case r of
        None \<Rightarrow> (case be_depth e of
            None \<Rightarrow> raise (CPanic ''a block with no live record has had a file placed by this batch, so its depth is known'')
          | Some depth \<Rightarrow>
              bindM (mapE CMeta (insert_new_block S (be_id e) (of_nat (be_len e)) depth)) (\<lambda>_. ret True))
      | Some _ \<Rightarrow> ret False) (\<lambda>inserted.
      if be_occurrences e = 0 then raise (CPanic ''attempt to subtract with overflow'')
      else bindM (bump_times S (be_id e) (be_occurrences e - 1)) (\<lambda>_. ret inserted)))"

fun record_all :: "'s store_ops \<Rightarrow> batch_entry list \<Rightarrow> flush_outcome \<Rightarrow> ('s, cas_error, flush_outcome) act" where
  "record_all S [] out = ret out"
| "record_all S (e # es) out =
    bindM (record_entry S e) (\<lambda>inserted.
      record_all S es (if inserted then out\<lparr>fo_written := fo_written out + 1\<rparr>
        else out\<lparr>fo_ignored := fo_ignored out + 1\<rparr>))"

text \<open>The transaction that records a batch. A panic drops the transaction, which discards it.\<close>

definition commit_records :: "'s store_ops \<Rightarrow> batch_entry list \<Rightarrow> ('s, cas_error, flush_outcome) act" where
  "commit_records S es =
    bindM (begin_transaction S) (\<lambda>_.
    bindM (or_rollback S (record_all S es \<lparr>fo_written = 0, fo_ignored = 0\<rparr>)) (\<lambda>out.
    bindM (mapE CMeta (tx_commit S)) (\<lambda>_. ret out)))"

definition into_io :: "cas_error \<Rightarrow> cas_error" where
  "into_io e = (case e of CMeta m \<Rightarrow> CIo (IoMeta m) | _ \<Rightarrow> e)"

definition rewrite_overtaken ::
  "('n, 's, 'd) env \<Rightarrow> batch_entry \<Rightarrow> bool \<Rightarrow> ('n, 's, 'd, batch_entry) cas_act" where
  "rewrite_overtaken E e live =
    (if live then ret e
     else case be_payload e of
       Staged _ \<Rightarrow> ret e
     | Deduped bs \<Rightarrow>
         bindM (on_bs (choose_depth (en_disk E) (hex_of E) (placement_of E) (be_id e))) (\<lambda>depth.
         bindM (on_bs (write_block (en_disk E) (hex_of E) (writer_of E) (be_id e) depth bs)) (\<lambda>_.
           ret (e\<lparr>be_depth := Some depth\<rparr>))))"

fun plan_landing :: "('n, 's, 'd) env \<Rightarrow> (batch_entry \<times> bool) list \<Rightarrow> ('n, 's, 'd, staged_block list) cas_act" where
  "plan_landing E [] = ret []"
| "plan_landing E ((e, live) # es) =
    bindM (case be_payload e of
        Deduped _ \<Rightarrow> ret []
      | Staged st \<Rightarrow>
          if live then bindM (on_bs (discard_staged (en_disk E) st)) (\<lambda>_. ret [])
          else ret [st]) (\<lambda>now.
    bindM (plan_landing E es) (\<lambda>later. ret (now @ later)))"

definition commit_batch :: "('n, 's, 'd) env \<Rightarrow> batch_entry list \<Rightarrow> ('n, 's, 'd, flush_outcome) cas_act" where
  "commit_batch E es =
    bindM (forM es (\<lambda>e. has_live_record E (be_id e))) (\<lambda>live.
    bindM (forM (zip es live) (\<lambda>(e, l). rewrite_overtaken E e l)) (\<lambda>es.
    bindM (plan_landing E (zip es live)) (\<lambda>to_land.
    bindM (on_bs (land_batch (en_disk E) (writer_of E) to_land)) (\<lambda>_.
      mapE into_io (zoom cs_sh (\<lambda>t s. s\<lparr>cs_sh := t\<rparr>) (commit_records (en_sh E) es))))))"

definition task_error :: "cas_error \<Rightarrow> cas_error" where
  "task_error e = (case e of CPanic _ \<Rightarrow> CIo (IoError OtherKind ''block batch task did not complete'') | _ \<Rightarrow> e)"

definition close_alone :: "('n, 's, 'd) env \<Rightarrow> batch_entry list \<Rightarrow> ('n, 's, 'd, flush_outcome) cas_act" where
  "close_alone E es = mapE task_error (commit_batch E es)"

definition staged_paths :: "batch_entry list \<Rightarrow> path list" where
  "staged_paths es = List.map_filter (\<lambda>e. case be_payload e of Staged st \<Rightarrow> Some (sg_temp_path st) | Deduped _ \<Rightarrow> None) es"

subsection \<open>Recording a batch\<close>

definition live_rec :: "content \<Rightarrow> block_id \<Rightarrow> bool" where
  "live_rec c h \<longleftrightarrow> (\<exists>b. blk_of c h = Some b \<and> \<not> is_degraded b)"

text \<open>The file of a block is in place at the depth an entry names.\<close>

definition placed :: "cas_params \<Rightarrow> (path \<Rightarrow> bytes option) \<Rightarrow> batch_entry \<Rightarrow> bool" where
  "placed P f e \<longleftrightarrow> (\<exists>d. be_depth e = Some d \<and> at_depth P f (be_id e) d) \<and> has_len P (be_id e) (be_len e)"

definition occ_list :: "batch_entry list \<Rightarrow> block_id list" where
  "occ_list es = concat (map (\<lambda>e. replicate (be_occurrences e) (be_id e)) es)"

lemma occ_list_simps [simp]:
  "occ_list [] = []" "occ_list (e # es) = replicate (be_occurrences e) (be_id e) @ occ_list es"
  "occ_list (es @ fs) = occ_list es @ occ_list fs"
  by (simp_all add: occ_list_def)

lemma live_rec_put_blk:
  "wf_block_id h \<Longrightarrow> wf_block_id h' \<Longrightarrow>
   live_rec (put_blk h b c) h' \<longleftrightarrow> (if h' = h then \<not> is_degraded b else live_rec c h')"
  by (simp add: live_rec_def blk_of_put_blk)

lemma increment_not_degraded [simp]: "is_degraded (increment_refcount b) = is_degraded b"
  by (simp add: increment_refcount_def)

lemma healed_not_degraded: "\<not> is_degraded (block_from_parts n d r (blk_flags (set_degraded False p)))"
  by (simp add: is_degraded_def block_from_parts_def set_degraded_def and.assoc)

lemma new_not_degraded: "\<not> is_degraded (block_new n d)"
  by (simp add: is_degraded_def block_new_def)

definition inserted_block :: "content \<Rightarrow> block_id \<Rightarrow> usize \<Rightarrow> u8 \<Rightarrow> block" where
  "inserted_block c h n d = (case blk_of c h of
     None \<Rightarrow> block_new n d
   | Some p \<Rightarrow> block_from_parts n d (blk_rc p + 1) (blk_flags (set_degraded False p)))"

lemma inserted_block_not_degraded: "\<not> is_degraded (inserted_block c h n d)"
  by (simp add: inserted_block_def healed_not_degraded new_not_degraded split: option.split)

lemma inserted_block_fields:
  "blk_size (inserted_block c h n d) = n" "blk_depth (inserted_block c h n d) = d"
  "rc_of c h + 1 < 2 ^ 64 \<Longrightarrow> unat (blk_rc (inserted_block c h n d)) = rc_of c h + 1"
  by (auto simp: inserted_block_def block_new_def block_from_parts_def rc_of_def unat_inc split: option.split)

lemma cas_inv_insert:
  assumes inv: "cas_inv P g nc sc f nonce" and wf: "wf_block_id h" and room: "gh_room g = Suc n"
    and fl: "at_depth P f h d" "has_len P h l"
  shows "cas_inv P (g\<lparr>gh_room := n, gh_refs := add_refs (gh_refs g) [h]\<rparr>) nc
    (put_blk h (inserted_block sc h (of_nat l) d) sc) f nonce"
proof -
  let ?b = "inserted_block sc h (of_nat l) d" and ?sc = "put_blk h (inserted_block sc h (of_nat l) d) sc"
  have bound: "rc_of sc h' + Suc n < 2 ^ 64" if "wf_block_id h'" for h'
    using inv room that by (auto simp: cas_inv_def room_def)
  have rc: "rc_of ?sc h' = rc_of sc h' + (if h' = h then 1 else 0)" if "wf_block_id h'" for h'
    using wf that bound [OF wf] by (simp add: rc_of_put_blk inserted_block_fields)
  have "acct nc ?sc (add_refs (gh_refs g) [h])"
    using inv rc by (fastforce simp: cas_inv_def acct_def add_refs_def)
  moreover have "room n ?sc" using rc bound by (fastforce simp: room_def)
  moreover have "files_ok P ?sc f"
    using inv wf fl by (auto simp: cas_inv_def files_ok_def blk_of_put_blk inserted_block_fields split: if_splits)
  moreover have "degraded_in (gh_degraded g) ?sc"
    using inv wf by (auto simp: cas_inv_def degraded_in_def blk_of_put_blk inserted_block_not_degraded split: if_splits)
  ultimately show ?thesis using inv by (simp add: cas_inv_def)
qed

definition no_panic :: "cas_error \<Rightarrow> bool" where
  "no_panic e \<longleftrightarrow> (\<forall>m. e \<noteq> CPanic m)"

lemma no_panic_simps [simp]: "no_panic (CMeta m)" "no_panic (CIo i)"
  by (simp_all add: no_panic_def)

text \<open>What recording one entry, or several, makes of a transaction.\<close>

definition recorded ::
  "cas_params \<Rightarrow> ghost \<Rightarrow> content \<Rightarrow> (path \<Rightarrow> bytes option) \<Rightarrow> u64 \<Rightarrow> content \<Rightarrow> block_id list \<Rightarrow> content \<Rightarrow> bool" where
  "recorded P g nc f nonce c hs c' \<longleftrightarrow>
     cas_inv P (g\<lparr>gh_room := gh_room g - length hs, gh_refs := add_refs (gh_refs g) hs\<rparr>) nc c' f nonce \<and>
     (\<forall>h. wf_block_id h \<longrightarrow> live_rec c h \<or> h \<in> set hs \<longrightarrow> live_rec c' h) \<and>
     (\<forall>n. n \<noteq> DEFAULT_BLOCK_TREE \<longrightarrow> c' n = c n)"

lemma recorded_Nil: "cas_inv P g nc c f nonce \<Longrightarrow> recorded P g nc f nonce c [] c"
  by (simp add: recorded_def)

lemma recorded_trans:
  assumes "recorded P g nc f nonce c as c'"
    and "recorded P (g\<lparr>gh_room := gh_room g - length as, gh_refs := add_refs (gh_refs g) as\<rparr>) nc f nonce c' bs c''"
  shows "recorded P g nc f nonce c (as @ bs) c''"
  using assms by (simp add: recorded_def add_refs_append)

context store_contract
begin

lemma bump_recorded:
  assumes t: "inv t" "in_tx t" and cas: "cas_inv P g nc (txv t) f nonce" "wf_block_id h" "0 < gh_room g"
  shows "wp (bump_block_rc S h)
    (\<lambda>r t'. txf t t' \<and> (if live_rec (txv t) h then r \<noteq> None \<and> recorded P g nc f nonce (txv t) [h] (txv t')
       else r = None \<and> txv t' = txv t))
    (\<lambda>e t'. txf t t' \<and> txv t' = txv t) t"
proof (rule wp_mono [OF bump_block_rc_spec [OF t]], goal_cases)
  case (1 r t')
  show ?case
  proof (cases r)
    case None
    with 1 show ?thesis by (auto simp: live_rec_def)
  next
    case (Some b')
    with 1 obtain b where b: "blk_of (txv t) h = Some b" "\<not> is_degraded b" "txv t' = put_blk h (increment_refcount b) (txv t)"
      by auto
    have live: "live_rec (txv t) h" using b by (auto simp: live_rec_def)
    obtain n where n: "gh_room g = Suc n" using cas(3) by (cases "gh_room g") auto
    have "recorded P g nc f nonce (txv t) [h] (txv t')"
      using cas_inv_bump [OF cas(1,2) b(1) n] n b(2) cas(2) unfolding recorded_def b(3)
      by (simp add: live_rec_put_blk)
    with 1 Some live show ?thesis by simp
  qed
qed simp

lemma bump_times_recorded:
  assumes "inv t" "in_tx t" "cas_inv P g nc (txv t) f nonce" "wf_block_id h" "n \<le> gh_room g" "live_rec (txv t) h"
  shows "wp (bump_times S h n)
    (\<lambda>_ t'. txf t t' \<and> recorded P g nc f nonce (txv t) (replicate n h) (txv t'))
    (\<lambda>e t'. txf t t' \<and> no_panic e) t"
  using assms
proof (induction n arbitrary: t g)
  case (Suc n)
  have step: "wp (mapE CMeta (bump_block_rc S h))
      (\<lambda>_ t'. txf t t' \<and> recorded P g nc f nonce (txv t) [h] (txv t')) (\<lambda>e t'. txf t t' \<and> no_panic e) t"
    unfolding wp_mapE
    by (rule wp_mono [OF bump_recorded [OF Suc.prems(1-4)]]) (use Suc.prems in auto)
  show ?case unfolding bump_times.simps
  proof (rule wp_seq [OF step])
    fix x u assume u: "txf t u \<and> recorded P g nc f nonce (txv t) [h] (txv u)"
    let ?g = "g\<lparr>gh_room := gh_room g - 1, gh_refs := add_refs (gh_refs g) [h]\<rparr>"
    from u have cu: "cas_inv P ?g nc (txv u) f nonce" "live_rec (txv u) h"
      using Suc.prems(4) by (simp_all add: recorded_def)
    have "wp (bump_times S h n) (\<lambda>_ t'. txf u t' \<and> recorded P ?g nc f nonce (txv u) (replicate n h) (txv t'))
        (\<lambda>e t'. txf u t' \<and> no_panic e) u"
      by (rule Suc.IH) (use u cu Suc.prems in auto)
    then show "wp (bump_times S h n) (\<lambda>_ t'. txf t t' \<and> recorded P g nc f nonce (txv t) (replicate (Suc n) h) (txv t'))
        (\<lambda>e t'. txf t t' \<and> no_panic e) u"
    proof (rule wp_mono)
      fix y t' assume "txf u t' \<and> recorded P ?g nc f nonce (txv u) (replicate n h) (txv t')"
      with u recorded_trans [of P g nc f nonce "txv t" "[h]" "txv u" "replicate n h" "txv t'"]
      show "txf t t' \<and> recorded P g nc f nonce (txv t) (replicate (Suc n) h) (txv t')" by auto
    qed (use u in auto)
  qed
qed (simp add: recorded_Nil)

lemma record_entry_spec:
  assumes t: "inv t" "in_tx t" and cas: "cas_inv P g nc (txv t) f nonce" "wf_block_id (be_id e)"
    and occ: "be_occurrences e \<noteq> 0" "be_occurrences e \<le> gh_room g"
    and src: "live_rec (txv t) (be_id e) \<or> placed P f e"
  shows "wp (record_entry S e)
    (\<lambda>ins t'. txf t t' \<and> ins = (\<not> live_rec (txv t) (be_id e)) \<and>
       recorded P g nc f nonce (txv t) (replicate (be_occurrences e) (be_id e)) (txv t'))
    (\<lambda>e t'. txf t t' \<and> no_panic e) t"
    (is "wp _ ?Q ?E t")
proof -
  let ?h = "be_id e"
  let ?g = "g\<lparr>gh_room := gh_room g - 1, gh_refs := add_refs (gh_refs g) [?h]\<rparr>"
  let ?R = "\<lambda>ins u. txf t u \<and> ins = (\<not> live_rec (txv t) ?h) \<and> recorded P g nc f nonce (txv t) [?h] (txv u)"
  have rest: "wp (if be_occurrences e = 0 then raise (CPanic ''attempt to subtract with overflow'')
      else bindM (bump_times S ?h (be_occurrences e - 1)) (\<lambda>_. ret ins)) ?Q ?E u" if u: "?R ins u" for ins u
  proof -
    have cu: "cas_inv P ?g nc (txv u) f nonce" "live_rec (txv u) ?h" using u cas(2) by (simp_all add: recorded_def)
    have "wp (bump_times S ?h (be_occurrences e - 1))
        (\<lambda>_ t'. txf u t' \<and> recorded P ?g nc f nonce (txv u) (replicate (be_occurrences e - 1) ?h) (txv t')) (\<lambda>e t'. txf u t' \<and> no_panic e) u"
      by (rule bump_times_recorded) (use u cu cas occ in auto)
    then have "wp (bump_times S ?h (be_occurrences e - 1)) (\<lambda>_. ?Q ins) ?E u"
    proof (rule wp_mono)
      fix y t' assume "txf u t' \<and> recorded P ?g nc f nonce (txv u) (replicate (be_occurrences e - 1) ?h) (txv t')"
      with u recorded_trans [of P g nc f nonce "txv t" "[?h]" "txv u" "replicate (be_occurrences e - 1) ?h" "txv t'"] occ(1)
      show "?Q ins t'" by (cases "be_occurrences e") auto
    qed (use u in auto)
    with occ(1) show ?thesis by simp
  qed
  have first: "wp (case r of
        None \<Rightarrow> (case be_depth e of
            None \<Rightarrow> raise (CPanic ''a block with no live record has had a file placed by this batch, so its depth is known'')
          | Some depth \<Rightarrow> bindM (mapE CMeta (insert_new_block S ?h (of_nat (be_len e)) depth)) (\<lambda>_. ret True))
      | Some _ \<Rightarrow> ret False) ?R ?E u"
    if u: "txf t u" "if live_rec (txv t) ?h then r \<noteq> None \<and> recorded P g nc f nonce (txv t) [?h] (txv u)
       else r = None \<and> txv u = txv t" for r u
  proof (cases "live_rec (txv t) ?h")
    case True
    with u show ?thesis by (cases r) auto
  next
    case False
    with src obtain d where d: "be_depth e = Some d" "at_depth P f ?h d" "has_len P ?h (be_len e)" by (auto simp: placed_def)
    obtain n where n: "gh_room g = Suc n" using occ by (cases "gh_room g") auto
    from False u have u': "inv u" "in_tx u" "txv u = txv t" "r = None" by auto
    show ?thesis unfolding u'(4) option.case d(1) wp_bindM wp_mapE wp_ret_fun
    proof (rule wp_mono [OF insert_new_block_spec [OF u'(1,2)]], goal_cases)
      case (1 b v)
      then have v: "txf t v" "txv v = put_blk ?h (inserted_block (txv t) ?h (of_nat (be_len e)) d) (txv t)"
        using u u'(3) by (auto simp: inserted_block_def)
      have "recorded P g nc f nonce (txv t) [?h] (txv v)"
        using cas_inv_insert [OF cas n d(2,3)] n cas(2) unfolding recorded_def v(2)
        by (simp add: live_rec_put_blk inserted_block_not_degraded)
      with v False show ?case by simp
    qed (use u in auto)
  qed
  have bump: "wp (mapE CMeta (bump_block_rc S ?h))
      (\<lambda>r u. txf t u \<and> (if live_rec (txv t) ?h then r \<noteq> None \<and> recorded P g nc f nonce (txv t) [?h] (txv u)
         else r = None \<and> txv u = txv t)) ?E t"
    unfolding wp_mapE by (rule wp_mono [OF bump_recorded [OF t cas]]) (use occ in auto)
  show ?thesis unfolding record_entry_def
    by (rule wp_seq [OF bump], rule wp_seq [OF first]) (use rest in auto)
qed

lemma record_all_spec:
  assumes "inv t" "in_tx t" "cas_inv P g nc (txv t) f nonce" "length (occ_list es) \<le> gh_room g"
    "\<forall>e \<in> set es. wf_block_id (be_id e) \<and> be_occurrences e \<noteq> 0 \<and> (live_rec (txv t) (be_id e) \<or> placed P f e)"
  shows "wp (record_all S es out)
    (\<lambda>out' t'. txf t t' \<and> recorded P g nc f nonce (txv t) (occ_list es) (txv t') \<and>
       fo_written out' + fo_ignored out' = fo_written out + fo_ignored out + length es)
    (\<lambda>e t'. txf t t' \<and> no_panic e) t"
  using assms
proof (induction es arbitrary: t g out)
  case (Cons e es)
  let ?hs = "replicate (be_occurrences e) (be_id e)"
  let ?g = "g\<lparr>gh_room := gh_room g - length ?hs, gh_refs := add_refs (gh_refs g) ?hs\<rparr>"
  have step: "wp (record_entry S e) (\<lambda>_ t'. txf t t' \<and> recorded P g nc f nonce (txv t) ?hs (txv t'))
      (\<lambda>e t'. txf t t' \<and> no_panic e) t"
    by (rule wp_mono [OF record_entry_spec [OF Cons.prems(1-3)]]) (use Cons.prems in auto)
  show ?case unfolding record_all.simps
  proof (rule wp_seq [OF step])
    fix ins u assume u: "txf t u \<and> recorded P g nc f nonce (txv t) ?hs (txv u)"
    let ?out = "if ins then out\<lparr>fo_written := fo_written out + 1\<rparr> else out\<lparr>fo_ignored := fo_ignored out + 1\<rparr>"
    have live: "live_rec (txv u) h" if "wf_block_id h" "live_rec (txv t) h" for h
      using u that by (simp add: recorded_def)
    have "wp (record_all S es ?out)
      (\<lambda>out' t'. txf u t' \<and> recorded P ?g nc f nonce (txv u) (occ_list es) (txv t') \<and>
         fo_written out' + fo_ignored out' = fo_written ?out + fo_ignored ?out + length es)
      (\<lambda>e t'. txf u t' \<and> no_panic e) u"
      by (rule Cons.IH) (use u Cons.prems live in \<open>auto simp: recorded_def\<close>)
    then show "wp (record_all S es ?out)
      (\<lambda>out' t'. txf t t' \<and> recorded P g nc f nonce (txv t) (occ_list (e # es)) (txv t') \<and>
         fo_written out' + fo_ignored out' = fo_written out + fo_ignored out + length (e # es))
      (\<lambda>e t'. txf t t' \<and> no_panic e) u"
    proof (rule wp_mono)
      fix out' t' assume "txf u t' \<and> recorded P ?g nc f nonce (txv u) (occ_list es) (txv t') \<and>
         fo_written out' + fo_ignored out' = fo_written ?out + fo_ignored ?out + length es"
      with u recorded_trans [of P g nc f nonce "txv t" ?hs "txv u" "occ_list es" "txv t'"]
      show "txf t t' \<and> recorded P g nc f nonce (txv t) (occ_list (e # es)) (txv t') \<and>
         fo_written out' + fo_ignored out' = fo_written out + fo_ignored out + length (e # es)"
        by (auto split: if_splits)
    qed (use u in auto)
  qed
qed (simp add: recorded_Nil)

lemma wp_or_rollback_err:
  assumes "wp m Q (\<lambda>e s'. R e \<and> inv s' \<and> in_tx s' \<and> cont s' = c) s"
    and "\<And>e s'. R e \<Longrightarrow> inv s' \<Longrightarrow> \<not> in_tx s' \<Longrightarrow> cont s' = c \<Longrightarrow> E e s'"
  shows "wp (or_rollback S m) Q E s"
  unfolding or_rollback_def wp_bindM wp_tryM
proof (rule wp_mono [OF assms(1)])
  fix e s' assume *: "R e \<and> inv s' \<and> in_tx s' \<and> cont s' = c"
  have "wp (rollback S) (\<lambda>_. E e) E s'"
    by (rule wp_rollback) (use * assms(2) in auto)
  then show "wp (case Inl e of Inl e \<Rightarrow> bindM (rollback S) (\<lambda>_. raise e) | Inr x \<Rightarrow> ret x) Q E s'"
    by simp
qed simp

lemma commit_records_spec:
  assumes s: "inv s" "\<not> in_tx s" and cas: "cas_inv P g nc (cont s) f nonce" "length (occ_list es) \<le> gh_room g"
    "\<forall>e \<in> set es. wf_block_id (be_id e) \<and> be_occurrences e \<noteq> 0 \<and> (live_rec (cont s) (be_id e) \<or> placed P f e)"
  shows "wp (commit_records S es)
    (\<lambda>out s'. inv s' \<and> \<not> in_tx s' \<and> recorded P g nc f nonce (cont s) (occ_list es) (cont s') \<and>
       fo_written out + fo_ignored out = length es)
    (\<lambda>e s'. inv s' \<and> \<not> in_tx s' \<and> no_panic e \<and>
       (cont s' = cont s \<or> recorded P g nc f nonce (cont s) (occ_list es) (cont s'))) s"
    (is "wp _ ?Q ?E s")
proof -
  let ?R = "\<lambda>out u. inv u \<and> in_tx u \<and> cont u = cont s \<and> recorded P g nc f nonce (cont s) (occ_list es) (txv u) \<and>
    fo_written out + fo_ignored out = length es"
  have commit: "wp (mapE CMeta (tx_commit S)) (\<lambda>_. ?Q out) ?E u" if u: "?R out u" for out u
    unfolding wp_mapE by (rule wp_tx_commit) (use u in auto)
  have body: "wp (or_rollback S (record_all S es \<lparr>fo_written = 0, fo_ignored = 0\<rparr>)) ?R ?E t"
    if t: "inv t" "in_tx t" "cont t = cont s" "txv t = cont s" for t
  proof (rule wp_or_rollback_err [where R = no_panic and c = "cont s"])
    show "wp (record_all S es \<lparr>fo_written = 0, fo_ignored = 0\<rparr>) ?R
        (\<lambda>e s'. no_panic e \<and> inv s' \<and> in_tx s' \<and> cont s' = cont s) t"
      by (rule wp_mono [OF record_all_spec [OF t(1,2), where g = g and P = P and nc = nc and f = f and nonce = nonce]])
        (use t cas in auto)
  qed auto
  show ?thesis unfolding commit_records_def wp_bindM
  proof (rule wp_begin [OF s], goal_cases)
    case (1 t)
    from 1 show ?case
      unfolding wp_ret_fun by (intro wp_mono [OF body commit]) auto
  qed
qed

end

end
