(* ===== verification/BatchCommit.thy ===== *)
theory BatchCommit
  imports WritePath
begin

section \<open>What closing a batch does\<close>

text \<open>
  The correctness of the write path. An entry of a batch is good (\<open>entry_ok\<close>) when its bytes are a block of its id
  and, if it is staged, are in its temp file. Closing a batch of good entries adds one reference per
  occurrence, puts a file behind every block it records, and never panics; on an error the count of every
  block is still at least its holders.
\<close>

subsection \<open>Files and temp names\<close>

lemma cas_inv_nonce:
  assumes "cas_inv P g nc sc f nonce" "0 < gh_nonces g" "nonce' = nonce \<or> nonce' = nonce + 1"
  shows "cas_inv P (g\<lparr>gh_nonces := gh_nonces g - 1\<rparr>) nc sc f nonce'"
proof -
  have bound: "unat nonce + gh_nonces g < 2 ^ 64" and t: "temps_ok P f nonce (gh_temps g)"
    using assms(1) by (simp_all add: cas_inv_def)
  have inc: "unat (nonce + 1) = unat nonce + 1" using bound assms(2) by (intro unat_inc) simp
  have "temps_ok P f nonce' (gh_temps g)"
  proof (cases "nonce' = nonce")
    case False
    then have le: "nonce < nonce'" using assms(3) inc by (auto simp: word_less_nat_alt)
    show ?thesis unfolding temps_ok_def
    proof (intro conjI ballI)
      show "gh_temps g \<subseteq>\<^sub>m f" using t by (simp add: temps_ok_def)
      fix p assume "p \<in> dom (gh_temps g)"
      with t obtain i n where "p = wr_tmp (cp_writer P) @ [temp_name (cp_hex P) i n]" "n < nonce"
        unfolding temps_ok_def by meson
      with le show "\<exists>i n. p = wr_tmp (cp_writer P) @ [temp_name (cp_hex P) i n] \<and> n < nonce'"
        using less_trans by blast
    qed
  qed (use t in simp)
  moreover have "unat nonce' + (gh_nonces g - 1) < 2 ^ 64" using bound inc assms(2,3) by auto
  ultimately show ?thesis using assms(1) by (simp add: cas_inv_def)
qed

lemma fresh_temp:
  assumes "params_ok P" "temps_ok P f nonce T"
  shows "wr_tmp (cp_writer P) @ [temp_name (cp_hex P) i nonce] \<notin> dom T"
proof
  assume "wr_tmp (cp_writer P) @ [temp_name (cp_hex P) i nonce] \<in> dom T"
  with assms(2) obtain j n where "temp_name (cp_hex P) i nonce = temp_name (cp_hex P) j n" "n < nonce"
    unfolding temps_ok_def by (metis append1_eq_conv)
  with temp_name_inject [of "cp_hex P" i nonce j n] assms(1) show False by (simp add: params_ok_def)
qed

lemma cas_inv_temp:
  assumes "params_ok P" "cas_inv P g nc sc f nonce" "butlast q = wr_tmp (cp_writer P)" "q \<notin> dom (gh_temps g)"
  shows "cas_inv P g nc sc (f(q := v)) nonce"
  using assms files_ok_temp [OF assms(1) _ assms(3), of sc f v] temps_ok_upd [of P f nonce "gh_temps g" q v]
  by (simp add: cas_inv_def)

text \<open>A temp file and a file of one block are the only ones that changed.\<close>

lemma cas_inv_disk:
  assumes P: "params_ok P" and inv: "cas_inv P g nc sc f nonce" and h: "wf_block_id h"
    and t: "butlast q = wr_tmp (cp_writer P)" "q \<notin> dom (gh_temps g)"
    and f': "\<And>p. p \<noteq> q \<Longrightarrow> f' p = f p \<or> p = block_disk_path (cp_hex P) h d (wr_root (cp_writer P)) \<and> f' p = Some bs"
    and bs: "is_block P bs h"
  shows "cas_inv P g nc sc f' nonce"
proof -
  let ?p = "block_disk_path (cp_hex P) h d (wr_root (cp_writer P))"
  have pq: "?p \<noteq> q" using block_path_dir [OF P h] t(1) by metis
  have "f' = (f(?p := f' ?p))(q := f' q)"
  proof
    fix p show "f' p = ((f(?p := f' ?p))(q := f' q)) p" using f' [of p] pq by auto
  qed
  moreover have "cas_inv P g nc sc (f(?p := f' ?p)) nonce"
  proof (cases "f' ?p = f ?p")
    case True
    then show ?thesis using inv by (simp add: fun_upd_idem)
  next
    case False
    then show ?thesis using f' [OF pq] bs by (intro cas_inv_file [OF P inv h]) simp
  qed
  ultimately show ?thesis using cas_inv_temp [OF P _ t] by metis
qed

text \<open>Every file of a block that was in place still is.\<close>

definition grows :: "cas_params \<Rightarrow> (path \<Rightarrow> bytes option) \<Rightarrow> (path \<Rightarrow> bytes option) \<Rightarrow> bool" where
  "grows P f f' \<longleftrightarrow> (\<forall>h d. wf_block_id h \<longrightarrow> at_depth P f h d \<longrightarrow> at_depth P f' h d)"

lemma grows_refl [simp]: "grows P f f"
  by (simp add: grows_def)

lemma grows_trans: "grows P f f' \<Longrightarrow> grows P f' f'' \<Longrightarrow> grows P f f''"
  by (simp add: grows_def)

lemma grows_temp: "params_ok P \<Longrightarrow> butlast q = wr_tmp (cp_writer P) \<Longrightarrow> grows P f (f(q := v))"
  by (simp add: grows_def at_depth_temp)

lemma grows_block:
  "params_ok P \<Longrightarrow> wf_block_id h \<Longrightarrow> is_block P bs h \<Longrightarrow>
   grows P f (f(block_disk_path (cp_hex P) h d (wr_root (cp_writer P)) \<mapsto> bs))"
  unfolding grows_def using at_depth_upd [of P _ h f _ "Some bs" d] by blast

lemma at_depth_written:
  "is_block P bs h \<Longrightarrow> at_depth P (f(block_disk_path (cp_hex P) h d (wr_root (cp_writer P)) \<mapsto> bs)) h d"
  by (simp add: at_depth_def)

lemma placed_grows: "grows P f f' \<Longrightarrow> wf_block_id (be_id e) \<Longrightarrow> placed P f e \<Longrightarrow> placed P f' e"
  by (auto simp: grows_def placed_def)

lemma cas_inv_unuse:
  assumes "cas_inv P g nc sc f nonce"
  shows "cas_inv P (g\<lparr>gh_temps := gh_temps g |` A\<rparr>) nc sc f nonce"
  by (rule cas_inv_weaken [OF assms]) (auto simp: map_le_def)

subsection \<open>Good entries\<close>

definition entry_ok :: "cas_params \<Rightarrow> (path \<Rightarrow> bytes option) \<Rightarrow> batch_entry \<Rightarrow> bool" where
  "entry_ok P T e \<longleftrightarrow> wf_block_id (be_id e) \<and> be_occurrences e \<noteq> 0 \<and> (case be_payload e of
     Deduped bs \<Rightarrow> is_block P bs (be_id e) \<and> length bs = be_len e
   | Staged st \<Rightarrow> be_depth e = Some (sg_depth st) \<and>
       sg_final_path st = block_disk_path (cp_hex P) (be_id e) (sg_depth st) (wr_root (cp_writer P)) \<and>
       (\<exists>bs. T (sg_temp_path st) = Some bs \<and> is_block P bs (be_id e) \<and> length bs = be_len e))"

definition entries_ok :: "cas_params \<Rightarrow> (path \<Rightarrow> bytes option) \<Rightarrow> batch_entry list \<Rightarrow> bool" where
  "entries_ok P T es \<longleftrightarrow> distinct (staged_paths es) \<and> (\<forall>e \<in> set es. entry_ok P T e)"

lemma entry_ok_len: "entry_ok P T e \<Longrightarrow> has_len P (be_id e) (be_len e)"
  by (auto simp: entry_ok_def has_len_def split: payload.splits)

definition is_deduped :: "batch_entry \<Rightarrow> bool" where
  "is_deduped e \<longleftrightarrow> (case be_payload e of Deduped _ \<Rightarrow> True | Staged _ \<Rightarrow> False)"

lemma staged_paths_simps [simp]:
  "staged_paths [] = []"
  "staged_paths (e # es) = (case be_payload e of Staged st \<Rightarrow> [sg_temp_path st] | Deduped _ \<Rightarrow> []) @ staged_paths es"
  by (auto simp: staged_paths_def List.map_filter_simps split: payload.split)

lemma staged_paths_append [simp]: "staged_paths (es @ fs) = staged_paths es @ staged_paths fs"
  by (induction es) simp_all

lemma staged_paths_in: "e \<in> set es \<Longrightarrow> be_payload e = Staged st \<Longrightarrow> sg_temp_path st \<in> set (staged_paths es)"
  by (induction es) (auto split: payload.splits)

lemma temp_dir:
  assumes "temps_ok P f nonce T" "p \<in> dom T"
  shows "butlast p = wr_tmp (cp_writer P)"
  using assms unfolding temps_ok_def by (metis butlast_snoc)

text \<open>Landing one staged file.\<close>

lemma cas_inv_land:
  assumes P: "params_ok P" and inv: "cas_inv P g nc sc f nonce" and e: "entry_ok P (gh_temps g) e" "be_payload e = Staged st"
    and f'_def: "f' = f(sg_temp_path st := None, sg_final_path st := f (sg_temp_path st))"
  shows "cas_inv P (g\<lparr>gh_temps := (gh_temps g)(sg_temp_path st := None)\<rparr>) nc sc f' nonce"
    "at_depth P f' (be_id e) (sg_depth st)" "grows P f f'"
proof -
  let ?q = "sg_temp_path st" and ?T = "(gh_temps g)(sg_temp_path st := None)"
  from e obtain bs where bs: "gh_temps g ?q = Some bs" "is_block P bs (be_id e)"
    and p: "sg_final_path st = block_disk_path (cp_hex P) (be_id e) (sg_depth st) (wr_root (cp_writer P))" and wf: "wf_block_id (be_id e)"
    by (auto simp: entry_ok_def)
  have t: "temps_ok P f nonce (gh_temps g)" using inv by (simp add: cas_inv_def)
  then have dir: "butlast ?q = wr_tmp (cp_writer P)" using bs(1) by (intro temp_dir) auto
  have fq: "f ?q = Some bs" using t bs(1) unfolding temps_ok_def map_le_def by (metis domI)
  have "cas_inv P (g\<lparr>gh_temps := ?T\<rparr>) nc sc f nonce"
    by (rule cas_inv_weaken [OF inv]) (auto simp: map_le_def)
  then have "cas_inv P (g\<lparr>gh_temps := ?T\<rparr>) nc sc (f(?q := None)) nonce"
    by (rule cas_inv_temp [OF P _ dir]) simp
  then show "cas_inv P (g\<lparr>gh_temps := ?T\<rparr>) nc sc f' nonce"
    unfolding f'_def p fq by (rule cas_inv_file [OF P _ wf]) (use bs(2) in simp)
  show "at_depth P f' (be_id e) (sg_depth st)"
    unfolding f'_def p fq by (rule at_depth_written [OF bs(2)])
  show "grows P f f'" unfolding f'_def p fq
    by (rule grows_trans [OF grows_temp [OF P dir] grows_block [OF P wf bs(2)]])
qed

definition staged_of :: "batch_entry \<Rightarrow> staged_block option" where
  "staged_of e = (case be_payload e of Staged st \<Rightarrow> Some st | Deduped _ \<Rightarrow> None)"

lemma entry_ok_temps:
  assumes "entry_ok P T e" "\<And>st. be_payload e = Staged st \<Longrightarrow> T' (sg_temp_path st) = T (sg_temp_path st)"
  shows "entry_ok P T' e"
  using assms by (auto simp: entry_ok_def split: payload.splits)

lemma entries_ok_drop:
  assumes "entries_ok P (gh_temps g) (e # es)" "be_payload e = Staged st"
  shows "entries_ok P (gh_temps (g\<lparr>gh_temps := (gh_temps g)(sg_temp_path st := None)\<rparr>)) es"
  unfolding entries_ok_def
proof (intro conjI ballI)
  show "distinct (staged_paths es)" using assms(1) by (auto simp: entries_ok_def)
  fix x assume x: "x \<in> set es"
  show "entry_ok P (gh_temps (g\<lparr>gh_temps := (gh_temps g)(sg_temp_path st := None)\<rparr>)) x"
  proof (rule entry_ok_temps)
    show "entry_ok P (gh_temps g) x" using assms(1) x by (simp add: entries_ok_def)
    fix sx assume "be_payload x = Staged sx"
    from staged_paths_in [OF x this] assms
    show "gh_temps (g\<lparr>gh_temps := (gh_temps g)(sg_temp_path st := None)\<rparr>) (sg_temp_path sx) = gh_temps g (sg_temp_path sx)"
      by (auto simp: entries_ok_def)
  qed
qed

lemma land_all:
  assumes "params_ok P" "cas_inv P g nc sc f nonce" "entries_ok P (gh_temps g) es" "\<forall>e \<in> set es. \<not> is_deduped e"
  shows "cas_inv P (g\<lparr>gh_temps := gh_temps g |` (- set (staged_paths es))\<rparr>) nc sc
      (land_files (List.map_filter staged_of es) f) nonce \<and>
    (\<forall>e \<in> set es. \<forall>st. be_payload e = Staged st \<longrightarrow>
       at_depth P (land_files (List.map_filter staged_of es) f) (be_id e) (sg_depth st)) \<and>
    grows P f (land_files (List.map_filter staged_of es) f)"
  using assms(2-4)
proof (induction es arbitrary: g f)
  case Nil
  then show ?case by (simp add: List.map_filter_simps)
next
  case (Cons e es)
  obtain st where st: "be_payload e = Staged st" using Cons.prems(3) by (auto simp: is_deduped_def split: payload.splits)
  let ?f = "f(sg_temp_path st := None, sg_final_path st := f (sg_temp_path st))"
  let ?g = "g\<lparr>gh_temps := (gh_temps g)(sg_temp_path st := None)\<rparr>"
  have e: "entry_ok P (gh_temps g) e" using Cons.prems by (auto simp: entries_ok_def)
  note step = cas_inv_land [OF assms(1) Cons.prems(1) e st refl]
  have es: "entries_ok P (gh_temps ?g) es" by (rule entries_ok_drop [OF Cons.prems(2) st])
  have staged: "\<forall>e \<in> set es. \<not> is_deduped e" using Cons.prems(3) by simp
  note IH = Cons.IH [OF step(1) es staged]
  have T: "gh_temps ?g |` (- set (staged_paths es)) = gh_temps g |` (- set (staged_paths (e # es)))"
    using st by (auto simp: fun_eq_iff restrict_map_def)
  have G: "?g\<lparr>gh_temps := A\<rparr> = g\<lparr>gh_temps := A\<rparr>" for A by simp
  have L: "land_files (List.map_filter staged_of (e # es)) f = land_files (List.map_filter staged_of es) ?f"
    using st by (simp add: List.map_filter_simps staged_of_def)
  have gr: "grows P ?f (land_files (List.map_filter staged_of es) ?f)" using IH by blast
  have "at_depth P (land_files (List.map_filter staged_of es) ?f) (be_id e) (sg_depth st)"
    using gr step(2) e by (simp add: grows_def entry_ok_def)
  then have all: "\<forall>e \<in> set (e # es). \<forall>st. be_payload e = Staged st \<longrightarrow>
       at_depth P (land_files (List.map_filter staged_of es) ?f) (be_id e) (sg_depth st)"
    using IH [THEN conjunct2, THEN conjunct1] st unfolding list.set by (metis insertE payload.inject(1))
  have inv: "cas_inv P (g\<lparr>gh_temps := gh_temps g |` (- set (staged_paths (e # es)))\<rparr>) nc sc
      (land_files (List.map_filter staged_of es) ?f) nonce"
    using IH [THEN conjunct1] unfolding T by (simp only: G)
  show ?case unfolding L using inv all grows_trans [OF step(3) gr] by blast
qed

subsection \<open>The phases of a close\<close>

lemma staged_paths_filter:
  "set (staged_paths (filter p es)) \<subseteq> set (staged_paths es)"
  "distinct (staged_paths es) \<Longrightarrow> distinct (staged_paths (filter p es))"
proof -
  show sub: "set (staged_paths (filter p es)) \<subseteq> set (staged_paths es)" for es
    by (induction es) (auto split: payload.splits)
  show "distinct (staged_paths es) \<Longrightarrow> distinct (staged_paths (filter p es))"
    by (induction es) (use sub in \<open>auto split: payload.splits\<close>)
qed

lemma staged_paths_disjoint:
  assumes "distinct (staged_paths es)" "e \<in> set es" "\<not> p e" "be_payload e = Staged st"
  shows "sg_temp_path st \<notin> set (staged_paths (filter p es))"
  using assms
proof (induction es)
  case (Cons x es)
  then show ?case
    using staged_paths_filter(1) [of p es] staged_paths_in [of e es st] by (auto split: payload.splits)
qed simp

lemma staged_paths_split:
  "set (staged_paths (filter p es)) \<union> set (staged_paths (filter (\<lambda>e. \<not> p e \<and> \<not> is_deduped e) es)) = set (staged_paths es)"
  by (induction es) (auto simp: is_deduped_def split: payload.splits)

lemma entries_ok_filter: "entries_ok P T es \<Longrightarrow> entries_ok P T (filter p es)"
  by (auto simp: entries_ok_def staged_paths_filter(2))

lemma entries_ok_take:
  assumes "entries_ok P T es"
  shows "entries_ok P T (take n es)"
proof -
  have "distinct (staged_paths (take n es @ drop n es))" using assms by (simp add: entries_ok_def)
  then have "distinct (staged_paths (take n es))" unfolding staged_paths_append by simp
  then show ?thesis using assms by (auto simp: entries_ok_def dest: in_set_takeD)
qed

lemma entries_ok_rest:
  assumes "entries_ok P T es"
  shows "entries_ok P (T |` (- set (staged_paths (filter p es)))) (filter (\<lambda>e. \<not> p e \<and> q e) es)"
proof -
  have "entry_ok P (T |` (- set (staged_paths (filter p es)))) e" if "e \<in> set es" "\<not> p e" for e
    by (rule entry_ok_temps [of P T])
      (use assms that staged_paths_disjoint [of es e p] in \<open>auto simp: entries_ok_def\<close>)
  then show ?thesis using entries_ok_filter [OF assms, of "\<lambda>e. \<not> p e \<and> q e"] by (auto simp: entries_ok_def)
qed

lemma take_staged:
  assumes "\<forall>e \<in> set es. \<not> is_deduped e"
  shows "take n (List.map_filter staged_of es) = List.map_filter staged_of (take n es)"
  using assms
proof (induction es arbitrary: n)
  case (Cons e es)
  then show ?case
    by (cases n) (auto simp: List.map_filter_simps staged_of_def is_deduped_def split: payload.splits)
qed (simp add: List.map_filter_simps)

text \<open>An entry before and after the overtaken blocks were rewritten.\<close>

definition redone :: "content \<Rightarrow> cas_params \<Rightarrow> (path \<Rightarrow> bytes option) \<Rightarrow> batch_entry \<Rightarrow> batch_entry \<Rightarrow> bool" where
  "redone c P f e e' \<longleftrightarrow> (\<exists>d. e' = e\<lparr>be_depth := d\<rparr>) \<and>
     (if \<not> live_rec c (be_id e) \<and> is_deduped e then placed P f e' else e' = e)"

lemma redone_one:
  assumes "redone c P f e e'"
  shows "be_id e' = be_id e" "be_occurrences e' = be_occurrences e" "be_payload e' = be_payload e" "is_deduped e' = is_deduped e"
    "entry_ok P T e \<Longrightarrow> entry_ok P T e'" "\<not> live_rec c (be_id e) \<Longrightarrow> is_deduped e \<Longrightarrow> placed P f e'"
proof -
  from assms obtain d where d: "e' = e\<lparr>be_depth := d\<rparr>" by (auto simp: redone_def)
  then show "be_id e' = be_id e" "be_occurrences e' = be_occurrences e" "be_payload e' = be_payload e" "is_deduped e' = is_deduped e"
    by (simp_all add: is_deduped_def)
  show "\<not> live_rec c (be_id e) \<Longrightarrow> is_deduped e \<Longrightarrow> placed P f e'" using assms by (simp add: redone_def)
  show "entry_ok P T e'" if "entry_ok P T e"
  proof (cases "is_deduped e")
    case True
    with that d show ?thesis by (simp add: entry_ok_def is_deduped_def split: payload.splits)
  qed (use assms that in \<open>simp add: redone_def\<close>)
qed

lemma redone_grows: "redone c P f e e' \<Longrightarrow> grows P f f' \<Longrightarrow> wf_block_id (be_id e) \<Longrightarrow> redone c P f' e e'"
  using redone_one(1) [of c P f e e'] placed_grows [of P f f' e'] unfolding redone_def by metis

lemma redone_same:
  assumes "list_all2 (redone c P f) es es'"
  shows "map be_id es' = map be_id es" "occ_list es' = occ_list es" "staged_paths es' = staged_paths es"
    "length es' = length es"
  using assms by (induction rule: list_all2_induct) (simp_all add: redone_one)

lemma redone_ok:
  assumes "list_all2 (redone c P f) es es'"
  shows "\<forall>e \<in> set es. entry_ok P T e \<Longrightarrow> \<forall>e \<in> set es'. entry_ok P T e"
    "\<forall>e \<in> set es'. \<not> live_rec c (be_id e) \<longrightarrow> is_deduped e \<longrightarrow> placed P f e"
  using assms by (induction rule: list_all2_induct) (simp_all add: redone_one)

lemma redone_entries_ok:
  "list_all2 (redone c P f) es es' \<Longrightarrow> entries_ok P T es \<Longrightarrow> entries_ok P T es'"
  using redone_same [of c P f es es'] redone_ok(1) [of c P f es es' T] by (simp add: entries_ok_def)

context cas_contract
begin

abbreviation cfil where
  "cfil s \<equiv> vis (bs_disk (cs_bs s))"

text \<open>Only files changed so far, and the block tree was read.\<close>

definition files_only :: "('n, 's, 'd) cas \<Rightarrow> ghost \<Rightarrow> ('n, 's, 'd) cas \<Rightarrow> bool" where
  "files_only s g u \<longleftrightarrow> cas_ok g u \<and> cs_ns u = cs_ns s \<and> scont (cs_sh u) = scont (cs_sh s)"

lemma files_only_start: "cas_ok g s \<Longrightarrow> files_only s g s"
  by (simp add: files_only_def)

lemma files_only_blocks: "files_only s g u \<Longrightarrow> blocks_only s u"
  by (simp add: files_only_def blocks_only_def)

lemma files_only_ok: "files_only s g u \<Longrightarrow> cas_ok g u"
  by (simp add: files_only_def)

lemma files_only_bs:
  assumes "files_only s g u" "dinv (bs_disk t)"
    "cas_inv (en_params E) g' (ncont (cs_ns u)) (scont (cs_sh u)) (vis (bs_disk t)) (bs_nonce t)"
  shows "files_only s g' (u\<lparr>cs_bs := t\<rparr>)"
  using assms cas_ok_bs [of g u t g'] by (simp add: files_only_def)

lemma has_live_record_spec:
  assumes "files_only s g u"
  shows "wp (has_live_record E i)
    (\<lambda>r u'. files_only s g u' \<and> cs_bs u' = cs_bs u \<and> r = live_rec (scont (cs_sh s)) i)
    (\<lambda>e u'. no_panic e \<and> files_only s g u' \<and> cs_bs u' = cs_bs u) u"
proof -
  note U = cas_okD [OF files_only_ok [OF assms]]
  have reread: "files_only s g (u\<lparr>cs_sh := t\<rparr>)" if "sinv t" "stx t = stx (cs_sh u)" "scont t = scont (cs_sh u)" for t
    using cas_ok_sh [OF files_only_ok [OF assms] that(1)] assms that U(5,7) by (simp add: files_only_def)
  have c: "scont (cs_sh u) = scont (cs_sh s)" using assms by (simp add: files_only_def)
  show ?thesis
    unfolding has_live_record_def wp_bindM wp_mapE wp_on_sh wp_ret_fun
    by (rule wp_mono [OF sh.get_block_spec [OF U(4)]])
      (use reread c in \<open>auto simp: live_rec_def split: option.split\<close>)
qed

lemma has_live_records:
  assumes "files_only s g u"
  shows "wp (forM es (\<lambda>e. has_live_record E (be_id e)))
    (\<lambda>live u'. files_only s g u' \<and> cs_bs u' = cs_bs u \<and> live = map (\<lambda>e. live_rec (scont (cs_sh s)) (be_id e)) es)
    (\<lambda>e u'. no_panic e \<and> files_only s g u') u"
proof -
  let ?I = "\<lambda>done u'. files_only s g u' \<and> cs_bs u' = cs_bs u \<and> (\<forall>(e, l) \<in> set done. l = live_rec (scont (cs_sh s)) (be_id e))"
  have "wp (forM es (\<lambda>e. has_live_record E (be_id e))) (\<lambda>ys v. ?I (zip es ys) v \<and> length ys = length es)
      (\<lambda>e u'. no_panic e \<and> files_only s g u') u"
  proof (rule wp_forM_rel, goal_cases)
    case (2 e "done" rest v)
    then show ?case by (intro wp_mono [OF has_live_record_spec [of s g v]]) auto
  qed (use assms in simp)
  then show ?thesis
  proof (rule wp_mono)
    fix ys v assume *: "?I (zip es ys) v \<and> length ys = length es"
    have "ys = map (\<lambda>e. live_rec (scont (cs_sh s)) (be_id e)) es"
    proof (rule nth_equalityI)
      fix i assume i: "i < length ys"
      then have "(es ! i, ys ! i) \<in> set (zip es ys)" using * by (subst in_set_zip) auto
      then have "ys ! i = live_rec (scont (cs_sh s)) (be_id (es ! i))" using * by blast
      then show "ys ! i = map (\<lambda>e. live_rec (scont (cs_sh s)) (be_id e)) es ! i" using i * by simp
    qed (use * in simp)
    with * show "files_only s g v \<and> cs_bs v = cs_bs u \<and> ys = map (\<lambda>e. live_rec (scont (cs_sh s)) (be_id e)) es" by simp
  qed
qed

lemma choose_depth_files:
  assumes "files_only s g u" "wf_block_id i"
  shows "wp (on_bs (choose_depth (en_disk E) (hex_of E) (placement_of E) i))
    (\<lambda>d u'. files_only s g u' \<and> cfil u' = cfil u \<and> bs_nonce (cs_bs u') = bs_nonce (cs_bs u) \<and> 1 \<le> unat d \<and> unat d \<le> block_id_len i)
    (\<lambda>_ _. False) u"
proof -
  note U = cas_okD [OF files_only_ok [OF assms(1)]]
  show ?thesis unfolding wp_on_bs
    by (rule wp_mono [OF wp_keeps_nonce [OF keeps_nonce_choose_depth dk.choose_depth_spec [OF U(6) assms(2)]]])
      (use assms(1) U(7) in \<open>auto intro!: files_only_bs [OF assms(1)]\<close>)
qed

lemma write_block_files:
  assumes fo: "files_only s g u" and h: "wf_block_id h" and n: "0 < gh_nonces g"
    and bs: "is_block (en_params E) bs h"
  shows "wp (on_bs (write_block (en_disk E) (hex_of E) (writer_of E) h d bs))
    (\<lambda>p u'. files_only s (g\<lparr>gh_nonces := gh_nonces g - 1\<rparr>) u' \<and> at_depth (en_params E) (cfil u') h d \<and>
       grows (en_params E) (cfil u) (cfil u'))
    (\<lambda>e u'. no_panic e \<and> files_only s (g\<lparr>gh_nonces := gh_nonces g - 1\<rparr>) u' \<and> grows (en_params E) (cfil u) (cfil u')) u"
proof -
  note U = cas_okD [OF files_only_ok [OF fo]]
  let ?P = "en_params E" and ?p = "block_disk_path (hex_of E) h d (wr_root (writer_of E))"
  let ?t = "wr_tmp (writer_of E) @ [temp_name (hex_of E) h (bs_nonce (cs_bs u))]"
  have fresh: "?t \<notin> dom (gh_temps g)" using U(7) by (intro fresh_temp [OF U(1)]) (auto simp: cas_inv_def)
  have dir: "butlast ?p \<noteq> wr_tmp (writer_of E)" by (rule block_path_dir [OF U(1) h])
  have ok: "files_only s (g\<lparr>gh_nonces := gh_nonces g - 1\<rparr>) (u\<lparr>cs_bs := t\<rparr>)" "grows ?P (cfil u) (vis (bs_disk t))"
    if t: "dk.ok t" "\<And>q. q \<noteq> ?t \<Longrightarrow> vis (bs_disk t) q = cfil u q \<or> q = ?p \<and> vis (bs_disk t) q = Some bs"
      "bs_nonce t = bs_nonce (cs_bs u) \<or> bs_nonce t = bs_nonce (cs_bs u) + 1" for t
  proof -
    have "cas_inv ?P g (ncont (cs_ns u)) (scont (cs_sh u)) (vis (bs_disk t)) (bs_nonce (cs_bs u))"
      by (rule cas_inv_disk [OF U(1,7) h _ fresh t(2) bs]) simp
    from cas_inv_nonce [OF this n t(3)] show "files_only s (g\<lparr>gh_nonces := gh_nonces g - 1\<rparr>) (u\<lparr>cs_bs := t\<rparr>)"
      by (rule files_only_bs [OF fo t(1)])
    show "grows ?P (cfil u) (vis (bs_disk t))" unfolding grows_def
    proof (intro allI impI)
      fix h' d' assume h': "wf_block_id h'" "at_depth ?P (cfil u) h' d'"
      let ?q = "block_disk_path (hex_of E) h' d' (wr_root (writer_of E))"
      have q: "?q \<noteq> ?t" using block_path_dir [OF U(1) h'(1), of d'] by (metis butlast_snoc)
      show "at_depth ?P (vis (bs_disk t)) h' d'"
        using t(2) [OF q] h' block_paths_differ [OF U(1) h'(1) h] bs by (cases "h' = h") (auto simp: at_depth_def)
    qed
  qed
  show ?thesis unfolding wp_on_bs
  proof (rule wp_mono [OF write_block_nonce [OF dk.write_block_spec [OF U(6) dir]]], goal_cases)
    case (1 p t)
    then show ?case using ok [of t] at_depth_written [OF bs, of "cfil u" d] by simp
  next
    case (2 e t)
    then have "files_only s (g\<lparr>gh_nonces := gh_nonces g - 1\<rparr>) (u\<lparr>cs_bs := t\<rparr>)" "grows ?P (cfil u) (vis (bs_disk t))"
      by (intro ok; blast)+
    then show ?case by simp
  qed
qed

lemma rewrite_overtaken_spec:
  assumes fo: "files_only s g u" and e: "entry_ok (en_params E) (gh_temps g) e"
    and n: "is_deduped e \<Longrightarrow> 0 < gh_nonces g"
  shows "wp (rewrite_overtaken E e l)
    (\<lambda>e' u'. files_only s (g\<lparr>gh_nonces := gh_nonces g - (if is_deduped e then 1 else 0)\<rparr>) u' \<and>
       (\<exists>d. e' = e\<lparr>be_depth := d\<rparr>) \<and> (if \<not> l \<and> is_deduped e then placed (en_params E) (cfil u') e' else e' = e) \<and>
       grows (en_params E) (cfil u) (cfil u'))
    (\<lambda>err u'. no_panic err \<and> files_only s (g\<lparr>gh_nonces := gh_nonces g - (if is_deduped e then 1 else 0)\<rparr>) u') u"
    (is "wp _ ?Q ?Er u")
proof (cases "\<not> l \<and> is_deduped e")
  case True
  then obtain bs where bs: "be_payload e = Deduped bs" by (auto simp: is_deduped_def split: payload.splits)
  let ?P = "en_params E" and ?h = "be_id e"
  have h: "wf_block_id ?h" "is_block ?P bs ?h" using True e bs by (auto simp: entry_ok_def)
  have R: "rewrite_overtaken E e l =
      bindM (on_bs (choose_depth (en_disk E) (hex_of E) (placement_of E) ?h)) (\<lambda>depth.
      bindM (on_bs (write_block (en_disk E) (hex_of E) (writer_of E) ?h depth bs)) (\<lambda>_.
        ret (e\<lparr>be_depth := Some depth\<rparr>)))"
    using True bs by (simp add: rewrite_overtaken_def)
  have N: "g\<lparr>gh_nonces := gh_nonces g - (if is_deduped e then 1 else 0)\<rparr> = g\<lparr>gh_nonces := gh_nonces g - 1\<rparr>"
    using True by simp
  show ?thesis unfolding R N
  proof (rule wp_seq [where R = "\<lambda>d v. files_only s g v \<and> cfil v = cfil u"], goal_cases)
    case 1
    show ?case by (rule wp_mono [OF choose_depth_files [OF fo h(1)]]) simp_all
  next
    case (2 d v)
    show ?case unfolding wp_bindM
    proof (rule wp_mono [OF write_block_files [of s g v ?h bs d]], goal_cases)
      case (5 p w)
      then have "placed ?P (cfil w) (e\<lparr>be_depth := Some d\<rparr>)" using entry_ok_len [OF e] by (simp add: placed_def)
      then show ?case using 5 2 True by auto
    qed (use 2 n True h in auto)
  qed
next
  case False
  have F: "files_only s (g\<lparr>gh_nonces := gh_nonces g - (if is_deduped e then 1 else 0)\<rparr>) u"
    using fo cas_ok_weaken [of g u "g\<lparr>gh_nonces := gh_nonces g - (if is_deduped e then 1 else 0)\<rparr>"]
    by (auto simp: files_only_def)
  have R: "rewrite_overtaken E e l = ret e"
    using False by (auto simp: rewrite_overtaken_def is_deduped_def split: payload.splits)
  have D: "\<exists>d. e = e\<lparr>be_depth := d\<rparr>" by (rule exI [of _ "be_depth e"]) simp
  show ?thesis unfolding R wp_ret if_not_P [OF False] by (intro conjI F D refl grows_refl)
qed

abbreviation less_nonces :: "ghost \<Rightarrow> batch_entry list \<Rightarrow> ghost" where
  "less_nonces g es \<equiv> g\<lparr>gh_nonces := gh_nonces g - length (filter is_deduped es)\<rparr>"

lemma files_only_weaken:
  assumes "files_only s g u" "gh_degraded g \<subseteq> gh_degraded g'" "gh_room g' \<le> gh_room g"
    "gh_nonces g' \<le> gh_nonces g" "\<And>h. gh_refs g' h \<le> gh_refs g h" "gh_temps g' \<subseteq>\<^sub>m gh_temps g"
  shows "files_only s g' u"
  using assms(1) cas_ok_weaken [OF files_only_ok [OF assms(1)] assms(2-6)] by (simp add: files_only_def)

lemma rewrite_all_overtaken:
  assumes fo: "files_only s g u" and es: "entries_ok (en_params E) (gh_temps g) es"
    and n: "length (filter is_deduped es) \<le> gh_nonces g"
  shows "wp (forM (map (\<lambda>e. (e, live_rec (scont (cs_sh s)) (be_id e))) es) (\<lambda>(e, l). rewrite_overtaken E e l))
    (\<lambda>es' u'. files_only s (less_nonces g es) u' \<and> list_all2 (redone (scont (cs_sh s)) (en_params E) (cfil u')) es es')
    (\<lambda>err u'. no_panic err \<and> files_only s (less_nonces g es) u') u"
proof -
  let ?P = "en_params E" and ?c = "scont (cs_sh s)"
  let ?I = "\<lambda>done v. files_only s (less_nonces g (map fst done)) v \<and> (\<forall>(e, e') \<in> set done. redone ?c ?P (cfil v) e e')"
  have map_forM: "forM (map (\<lambda>e. (e, live_rec ?c (be_id e))) es) (\<lambda>(e, l). rewrite_overtaken E e l) =
      forM es (\<lambda>e. rewrite_overtaken E e (live_rec ?c (be_id e)))"
    by (induction es) simp_all
  have "wp (forM es (\<lambda>e. rewrite_overtaken E e (live_rec ?c (be_id e)))) (\<lambda>ys v. ?I (zip es ys) v \<and> length ys = length es)
      (\<lambda>err u'. no_panic err \<and> files_only s (less_nonces g es) u') u"
  proof (rule wp_forM_rel, goal_cases)
    case 1
    then show ?case using fo by simp
  next
    case (2 e "done" rest v)
    let ?g = "less_nonces g (map fst done)"
    have ok: "entry_ok ?P (gh_temps ?g) e" using es 2(1) by (simp add: entries_ok_def)
    have count: "length (filter is_deduped es) =
        length (filter is_deduped (map fst done)) + (if is_deduped e then 1 else 0) + length (filter is_deduped rest)"
      unfolding 2(1) by simp
    have ng: "?g\<lparr>gh_nonces := gh_nonces ?g - (if is_deduped e then 1 else 0)\<rparr> = less_nonces g (map fst done @ [e])"
      by simp
    have wf: "\<forall>x \<in> fst ` set done. wf_block_id (be_id x)"
      using es unfolding entries_ok_def 2(1) by (auto simp: entry_ok_def)
    show ?case
    proof (rule wp_mono [OF rewrite_overtaken_spec [of s ?g v e "live_rec ?c (be_id e)"]], goal_cases)
      case (4 e' w)
      have "redone ?c ?P (cfil w) x y" if xy: "(x, y) \<in> set done" for x y
      proof -
        have "redone ?c ?P (cfil v) x y" using 2(2) xy by auto
        moreover have "wf_block_id (be_id x)" using wf xy by (metis fst_conv imageI)
        ultimately show ?thesis using 4 redone_grows by blast
      qed
      moreover have "redone ?c ?P (cfil w) e e'" using 4 unfolding redone_def by blast
      ultimately have "\<forall>(x, y) \<in> set (done @ [(e, e')]). redone ?c ?P (cfil w) x y" by auto
      then show ?case using 4 unfolding ng by simp
    next
      case (5 err w)
      from 5 have "files_only s (less_nonces g es) w"
        unfolding ng by (intro files_only_weaken [OF conjunct2]) (use count in auto)
      with 5 show ?case by simp
    qed (use 2 ok n count in auto)
  qed
  then show ?thesis unfolding map_forM
  proof (rule wp_mono)
    fix ys v assume "?I (zip es ys) v \<and> length ys = length es"
    moreover from this have "map fst (zip es ys) = es" by (simp add: map_fst_zip)
    ultimately show "files_only s (less_nonces g es) v \<and> list_all2 (redone ?c ?P (cfil v)) es ys"
      unfolding list_all2_iff by metis
  qed
qed

lemma discard_files:
  assumes fo: "files_only s g u" and dir: "butlast p = wr_tmp (writer_of E)" and p: "p = sg_temp_path st"
  shows "wp (on_bs (discard_staged (en_disk E) st))
    (\<lambda>_ u'. files_only s (g\<lparr>gh_temps := (gh_temps g)(p := None)\<rparr>) u' \<and> grows (en_params E) (cfil u) (cfil u'))
    (\<lambda>_ _. False) u"
proof -
  note U = cas_okD [OF files_only_ok [OF fo]]
  let ?g = "g\<lparr>gh_temps := (gh_temps g)(p := None)\<rparr>"
  have inv: "cas_inv (en_params E) ?g (ncont (cs_ns u)) (scont (cs_sh u)) (cfil u) (bs_nonce (cs_bs u))"
    by (rule cas_inv_weaken [OF U(7)]) (auto simp: map_le_def)
  then have inv': "cas_inv (en_params E) ?g (ncont (cs_ns u)) (scont (cs_sh u)) ((cfil u)(p := None)) (bs_nonce (cs_bs u))"
    by (rule cas_inv_temp [OF U(1) _ dir]) simp
  show ?thesis unfolding wp_on_bs
  proof (rule wp_mono [OF wp_keeps_nonce [OF keeps_nonce_discard dk.discard_staged_spec [OF U(6)]]], goal_cases)
    case (1 x t)
    then have t: "dinv (bs_disk t)" "bs_nonce t = bs_nonce (cs_bs u)" "vis (bs_disk t) = cfil u \<or> vis (bs_disk t) = (cfil u)(p := None)"
      by (simp_all add: p)
    then have "cas_inv (en_params E) ?g (ncont (cs_ns u)) (scont (cs_sh u)) (vis (bs_disk t)) (bs_nonce t)"
      using inv inv' by metis
    moreover have "grows (en_params E) (cfil u) (vis (bs_disk t))"
      using t(3) grows_temp [OF U(1) dir, of "cfil u" None] by auto
    ultimately show ?case using files_only_bs [OF fo t(1)] by simp
  qed simp
qed

lemma plan_landing_spec:
  assumes "files_only s g u" "entries_ok (en_params E) (gh_temps g) es"
  shows "wp (plan_landing E (map (\<lambda>e. (e, p e)) es))
    (\<lambda>r u'. r = List.map_filter staged_of (filter (\<lambda>e. \<not> p e \<and> \<not> is_deduped e) es) \<and>
       files_only s (g\<lparr>gh_temps := gh_temps g |` (- set (staged_paths (filter p es)))\<rparr>) u' \<and>
       grows (en_params E) (cfil u) (cfil u'))
    (\<lambda>_ _. False) u"
  using assms
proof (induction es arbitrary: g u)
  case Nil
  then show ?case by (simp add: List.map_filter_simps)
next
  case (Cons e es)
  note U = cas_okD [OF files_only_ok [OF Cons.prems(1)]]
  show ?case
  proof (cases "\<exists>st. be_payload e = Staged st \<and> p e")
    case True
    then obtain st where st: "be_payload e = Staged st" "p e" by blast
    let ?q = "sg_temp_path st" and ?g = "g\<lparr>gh_temps := (gh_temps g)(sg_temp_path st := None)\<rparr>"
    have "?q \<in> dom (gh_temps g)" using Cons.prems(2) st by (auto simp: entries_ok_def entry_ok_def)
    then have dir: "butlast ?q = wr_tmp (writer_of E)" using U(7) by (auto simp: cas_inv_def intro: temp_dir)
    have es: "entries_ok (en_params E) (gh_temps ?g) es" by (rule entries_ok_drop [OF Cons.prems(2) st(1)])
    have T: "gh_temps ?g |` (- set (staged_paths (filter p es))) = gh_temps g |` (- set (staged_paths (filter p (e # es))))"
      using st by (auto simp: fun_eq_iff restrict_map_def)
    show ?thesis unfolding list.map plan_landing.simps st(1) payload.case if_P [OF st(2)] wp_bindM wp_ret_fun
    proof (rule wp_mono [OF discard_files [OF Cons.prems(1) dir refl]], goal_cases)
      case (1 x v)
      have "wp (plan_landing E (map (\<lambda>e. (e, p e)) es))
        (\<lambda>r u'. r = List.map_filter staged_of (filter (\<lambda>e. \<not> p e \<and> \<not> is_deduped e) es) \<and>
           files_only s (?g\<lparr>gh_temps := gh_temps ?g |` (- set (staged_paths (filter p es)))\<rparr>) u' \<and>
           grows (en_params E) (cfil v) (cfil u'))
        (\<lambda>_ _. False) v"
        by (rule Cons.IH [OF _ es]) (use 1 in simp)
      with 1 show ?case using T st(2) grows_trans by (auto elim!: wp_mono)
    qed simp
  next
    case False
    have es: "entries_ok (en_params E) (gh_temps g) es" using Cons.prems(2) by (simp add: entries_ok_def)
    have none: "staged_paths (filter p (e # es)) = staged_paths (filter p es)"
      using False by (auto split: payload.split)
    have head: "(case be_payload e of Staged st \<Rightarrow> if p e then bindM (on_bs (discard_staged (en_disk E) st)) (\<lambda>_. ret []) else ret [st]
        | Deduped _ \<Rightarrow> ret []) = ret (if \<not> p e \<and> \<not> is_deduped e then [the (staged_of e)] else [])"
      using False by (auto simp: is_deduped_def staged_of_def split: payload.split)
    have res: "List.map_filter staged_of (filter (\<lambda>e. \<not> p e \<and> \<not> is_deduped e) (e # es)) =
        (if \<not> p e \<and> \<not> is_deduped e then [the (staged_of e)] else []) @ List.map_filter staged_of (filter (\<lambda>e. \<not> p e \<and> \<not> is_deduped e) es)"
      by (auto simp: List.map_filter_simps is_deduped_def staged_of_def split: payload.split)
    show ?thesis unfolding list.map plan_landing.simps head none res wp_bindM wp_ret_fun
      by (rule wp_mono [OF Cons.IH [OF Cons.prems(1) es]]) auto
  qed
qed

lemma land_batch_files:
  assumes fo: "files_only s g u" and es: "entries_ok (en_params E) (gh_temps g) es"
    and staged: "\<forall>e \<in> set es. \<not> is_deduped e"
  shows "wp (on_bs (land_batch (en_disk E) (writer_of E) (List.map_filter staged_of es)))
    (\<lambda>_ u'. files_only s (g\<lparr>gh_temps := gh_temps g |` (- set (staged_paths es))\<rparr>) u' \<and>
       (\<forall>e \<in> set es. \<forall>st. be_payload e = Staged st \<longrightarrow> at_depth (en_params E) (cfil u') (be_id e) (sg_depth st)) \<and>
       grows (en_params E) (cfil u) (cfil u'))
    (\<lambda>e u'. no_panic e \<and> files_only s (g\<lparr>gh_temps := gh_temps g |` (- set (staged_paths es))\<rparr>) u') u"
proof -
  note U = cas_okD [OF files_only_ok [OF fo]]
  have land: "cas_inv (en_params E) (g\<lparr>gh_temps := gh_temps g |` (- set (staged_paths fs))\<rparr>) (ncont (cs_ns u)) (scont (cs_sh u))
        (land_files (List.map_filter staged_of fs) (cfil u)) (bs_nonce (cs_bs u)) \<and>
      (\<forall>e \<in> set fs. \<forall>st. be_payload e = Staged st \<longrightarrow>
         at_depth (en_params E) (land_files (List.map_filter staged_of fs) (cfil u)) (be_id e) (sg_depth st)) \<and>
      grows (en_params E) (cfil u) (land_files (List.map_filter staged_of fs) (cfil u))"
    if "entries_ok (en_params E) (gh_temps g) fs" "set fs \<subseteq> set es" for fs
    by (rule land_all [OF U(1,7) that(1)]) (use staged that in auto)
  show ?thesis unfolding wp_on_bs
  proof (rule wp_mono [OF wp_keeps_nonce [OF keeps_nonce_land_batch dk.land_batch_spec [OF U(6)]]], goal_cases)
    case (1 x t)
    then have t: "dinv (bs_disk t)" "vis (bs_disk t) = land_files (List.map_filter staged_of es) (cfil u)" "bs_nonce t = bs_nonce (cs_bs u)"
      by simp_all
    show ?case using land [OF es order_refl] files_only_bs [OF fo t(1)] t(2,3) by simp
  next
    case (2 e t)
    then obtain n where t: "dinv (bs_disk t)" "bs_nonce t = bs_nonce (cs_bs u)"
      "vis (bs_disk t) = land_files (take n (List.map_filter staged_of es)) (cfil u)"
      by blast
    have tk: "take n (List.map_filter staged_of es) = List.map_filter staged_of (take n es)"
      by (rule take_staged [OF staged])
    let ?g = "g\<lparr>gh_temps := gh_temps g |` (- set (staged_paths (take n es)))\<rparr>"
    have "files_only s ?g (u\<lparr>cs_bs := t\<rparr>)"
      using land [OF entries_ok_take [OF es], of n] files_only_bs [OF fo t(1), of ?g] t(2,3) set_take_subset [of n es]
      unfolding tk by simp
    moreover have "set (staged_paths (take n es)) \<subseteq> set (staged_paths es)"
      using staged_paths_append [of "take n es" "drop n es"] by simp
    ultimately have "files_only s (g\<lparr>gh_temps := gh_temps g |` (- set (staged_paths es))\<rparr>) (u\<lparr>cs_bs := t\<rparr>)"
      by (elim files_only_weaken) (auto simp: map_le_def restrict_map_def)
    then show ?case by simp
  qed
qed

text \<open>The bookkeeping after a batch was closed: its temp names and its share of the room are used up.\<close>

abbreviation closed :: "ghost \<Rightarrow> batch_entry list \<Rightarrow> ghost" where
  "closed g es \<equiv> g\<lparr>gh_nonces := gh_nonces g - length (filter is_deduped es),
     gh_temps := gh_temps g |` (- set (staged_paths es)), gh_room := gh_room g - length (occ_list es)\<rparr>"

text \<open>Files and usable records stay.\<close>

definition kept :: "('n, 's, 'd) cas \<Rightarrow> ('n, 's, 'd) cas \<Rightarrow> bool" where
  "kept u u' \<longleftrightarrow> cs_bs u' = cs_bs u \<and>
     (\<forall>h. wf_block_id h \<longrightarrow> live_rec (scont (cs_sh u)) h \<longrightarrow> live_rec (scont (cs_sh u')) h)"

lemma kept_trans: "kept u v \<Longrightarrow> kept v w \<Longrightarrow> kept u w"
  by (simp add: kept_def)

abbreviation with_refs :: "ghost \<Rightarrow> block_id list \<Rightarrow> ghost" where
  "with_refs g hs \<equiv> g\<lparr>gh_room := gh_room g - length hs, gh_refs := add_refs (gh_refs g) hs\<rparr>"

lemma recorded_state:
  assumes "cas_ok g u" "sinv t" "\<not> stx t"
    "recorded (en_params E) g (ncont (cs_ns u)) (cfil u) (bs_nonce (cs_bs u)) (scont (cs_sh u)) hs (scont t)"
  shows "cas_ok (with_refs g hs) (u\<lparr>cs_sh := t\<rparr>)" "blocks_only u (u\<lparr>cs_sh := t\<rparr>)" "kept u (u\<lparr>cs_sh := t\<rparr>)"
  using assms cas_ok_sh [OF assms(1-3)] by (simp_all add: recorded_def blocks_only_def kept_def)

lemma maybe_recorded_state:
  assumes ok: "cas_ok g u" and t: "sinv t" "\<not> stx t"
    and r: "scont t = scont (cs_sh u) \<or>
      recorded (en_params E) g (ncont (cs_ns u)) (cfil u) (bs_nonce (cs_bs u)) (scont (cs_sh u)) hs (scont t)"
  shows "cas_ok (g\<lparr>gh_room := gh_room g - length hs\<rparr>) (u\<lparr>cs_sh := t\<rparr>)" "blocks_only u (u\<lparr>cs_sh := t\<rparr>)" "kept u (u\<lparr>cs_sh := t\<rparr>)"
proof -
  have *: "cas_ok (g\<lparr>gh_room := gh_room g - length hs\<rparr>) (u\<lparr>cs_sh := t\<rparr>) \<and> blocks_only u (u\<lparr>cs_sh := t\<rparr>) \<and> kept u (u\<lparr>cs_sh := t\<rparr>)"
    using r
  proof
    assume same: "scont t = scont (cs_sh u)"
    have "cas_ok g (u\<lparr>cs_sh := t\<rparr>)" using cas_ok_sh [OF ok t, of g] cas_okD(7) [OF ok] same by simp
    then have "cas_ok (g\<lparr>gh_room := gh_room g - length hs\<rparr>) (u\<lparr>cs_sh := t\<rparr>)" by (rule cas_ok_weaken) simp_all
    then show ?thesis using same by (simp add: blocks_only_def kept_def)
  next
    assume "recorded (en_params E) g (ncont (cs_ns u)) (cfil u) (bs_nonce (cs_bs u)) (scont (cs_sh u)) hs (scont t)"
    note R = recorded_state [OF ok t this]
    have "cas_ok (g\<lparr>gh_room := gh_room g - length hs\<rparr>) (u\<lparr>cs_sh := t\<rparr>)"
      using R(1) by (rule cas_ok_weaken) (simp_all add: add_refs_def)
    with R show ?thesis by blast
  qed
  then show "cas_ok (g\<lparr>gh_room := gh_room g - length hs\<rparr>) (u\<lparr>cs_sh := t\<rparr>)" "blocks_only u (u\<lparr>cs_sh := t\<rparr>)" "kept u (u\<lparr>cs_sh := t\<rparr>)"
    by blast+
qed

lemma into_io_no_panic: "no_panic e \<Longrightarrow> no_panic (into_io e)"
  by (cases e) (auto simp: into_io_def no_panic_def)

lemma commit_records_blocks:
  assumes ok: "cas_ok g u" and room: "length (occ_list es) \<le> gh_room g"
    and es: "\<forall>e \<in> set es. wf_block_id (be_id e) \<and> be_occurrences e \<noteq> 0 \<and>
      (live_rec (scont (cs_sh u)) (be_id e) \<or> placed (en_params E) (cfil u) e)"
  shows "wp (mapE into_io (zoom cs_sh (\<lambda>t s. s\<lparr>cs_sh := t\<rparr>) (commit_records (en_sh E) es)))
    (\<lambda>out u'. cas_ok (with_refs g (occ_list es)) u' \<and> blocks_only u u' \<and> kept u u' \<and>
       fo_written out + fo_ignored out = length es)
    (\<lambda>e u'. no_panic e \<and> cas_ok (g\<lparr>gh_room := gh_room g - length (occ_list es)\<rparr>) u' \<and> blocks_only u u' \<and> kept u u') u"
proof -
  note U = cas_okD [OF ok]
  show ?thesis unfolding wp_mapE wp_zoom
  proof (rule wp_mono [OF sh.commit_records_spec [OF U(4,5,7) room es]], goal_cases)
    case (1 out t)
    then show ?case using recorded_state [OF ok, of t "occ_list es"] by blast
  next
    case (2 e t)
    then show ?case using maybe_recorded_state [OF ok, of t "occ_list es"] into_io_no_panic by blast
  qed
qed

lemma commit_batch_spec:
  assumes ok: "cas_ok g s" and es: "entries_ok (en_params E) (gh_temps g) es"
    and room: "length (occ_list es) \<le> gh_room g" and n: "length (filter is_deduped es) \<le> gh_nonces g"
  shows "wp (commit_batch E es)
    (\<lambda>out u. cas_ok ((closed g es)\<lparr>gh_refs := add_refs (gh_refs g) (occ_list es)\<rparr>) u \<and> blocks_only s u \<and>
       fo_written out + fo_ignored out = length es)
    (\<lambda>e u. no_panic e \<and> cas_ok (closed g es) u \<and> blocks_only s u) s"
    (is "wp _ ?Q ?R s")
proof -
  let ?P = "en_params E" and ?p = "\<lambda>e. live_rec (scont (cs_sh s)) (be_id e)"
  have closed_weak: "cas_ok (closed g es) u \<and> blocks_only s u"
    if "files_only s g' u" "gh_degraded g' = gh_degraded g" "gh_room g' = gh_room g" "gh_nonces g' \<ge> gh_nonces g - length (filter is_deduped es)"
      "gh_refs g' = gh_refs g" "gh_temps g |` (- set (staged_paths es)) \<subseteq>\<^sub>m gh_temps g'" for g' u
    using files_only_blocks [OF that(1)] cas_ok_weaken [OF files_only_ok [OF that(1)], of "closed g es"] that by simp
  have sub: "gh_temps g |` (- set (staged_paths es)) \<subseteq>\<^sub>m gh_temps g" by (auto simp: map_le_def)
  have A: "wp (forM es (\<lambda>e. has_live_record E (be_id e))) (\<lambda>live u. files_only s g u \<and> live = map ?p es) ?R s"
    by (rule wp_mono [OF has_live_records [OF files_only_start [OF ok]]]) (use closed_weak [of g] sub in simp_all)
  have B: "wp (forM (zip es (map ?p es)) (\<lambda>(e, l). rewrite_overtaken E e l))
      (\<lambda>es' u. files_only s (less_nonces g es) u \<and> list_all2 (redone (scont (cs_sh s)) ?P (cfil u)) es es') ?R u"
    if u: "files_only s g u" for u
    unfolding zip_map2 zip_same_conv_map map_map comp_def prod.case
    by (rule wp_mono [OF rewrite_all_overtaken [OF u es n]]) (use closed_weak [of "less_nonces g es"] sub in simp_all)
  have CDE: "wp (bindM (plan_landing E (zip es' (map ?p es))) (\<lambda>to_land.
      bindM (on_bs (land_batch (en_disk E) (writer_of E) to_land)) (\<lambda>_.
        mapE into_io (zoom cs_sh (\<lambda>t s. s\<lparr>cs_sh := t\<rparr>) (commit_records (en_sh E) es'))))) ?Q ?R u"
    if u: "files_only s (less_nonces g es) u" "list_all2 (redone (scont (cs_sh s)) ?P (cfil u)) es es'" for u es'
  proof -
    note same = redone_same [OF u(2)]
    have es': "entries_ok ?P (gh_temps (less_nonces g es)) es'" using redone_entries_ok [OF u(2) es] by simp
    have "map ?p es = map (live_rec (scont (cs_sh s))) (map be_id es')" using same(1) by simp
    then have z: "zip es' (map ?p es) = map (\<lambda>e. (e, ?p e)) es'" by (simp add: zip_map2 zip_same_conv_map)
    let ?ds = "filter (\<lambda>e. \<not> ?p e \<and> \<not> is_deduped e) es'"
    let ?g2 = "less_nonces g es\<lparr>gh_temps := gh_temps g |` (- set (staged_paths (filter ?p es')))\<rparr>"
    let ?g3 = "?g2\<lparr>gh_temps := gh_temps ?g2 |` (- set (staged_paths ?ds))\<rparr>"
    have T: "gh_temps ?g3 = gh_temps g |` (- set (staged_paths es))"
      using staged_paths_split [of ?p es'] same(3) by (simp add: Int_commute flip: Compl_Un)
    have ds: "entries_ok ?P (gh_temps ?g2) ?ds" using entries_ok_rest [OF es', of ?p] by simp
    have g3: "?g3 = less_nonces g es\<lparr>gh_temps := gh_temps g |` (- set (staged_paths es))\<rparr>" using T by simp
    have fin: "wp (mapE into_io (zoom cs_sh (\<lambda>t s. s\<lparr>cs_sh := t\<rparr>) (commit_records (en_sh E) es'))) ?Q ?R w"
      if w: "files_only s ?g3 w" "\<forall>e \<in> set es'. \<not> ?p e \<longrightarrow> placed ?P (cfil w) e" for w
    proof -
      have "\<forall>e \<in> set es'. wf_block_id (be_id e) \<and> be_occurrences e \<noteq> 0 \<and> (?p e \<or> placed ?P (cfil w) e)"
        using es' w(2) by (auto simp: entries_ok_def entry_ok_def)
      moreover have "length (occ_list es') \<le> gh_room g" using room same(2) by simp
      ultimately show ?thesis
        using w(1) blocks_only_trans [OF files_only_blocks [OF w(1)]]
        by (intro wp_mono [OF commit_records_blocks [OF files_only_ok [OF w(1) [unfolded g3]]]])
          (auto simp: same files_only_def)
    qed
    show ?thesis unfolding z
    proof (rule wp_seq [OF wp_mono [OF plan_landing_spec [OF u(1) es']]], assumption, simp, goal_cases)
      case (1 to_land v)
      then have L: "wp (on_bs (land_batch (en_disk E) (writer_of E) to_land))
        (\<lambda>_ w. files_only s ?g3 w \<and> (\<forall>e \<in> set es'. \<not> ?p e \<longrightarrow> placed ?P (cfil w) e)) ?R v"
      proof -
        have v: "files_only s ?g2 v" and tl: "to_land = List.map_filter staged_of ?ds" using 1 by simp_all
        show ?thesis unfolding tl
        proof (rule wp_mono [OF land_batch_files [OF v ds]], goal_cases)
          case 1
          then show ?case by simp
        next
          case (2 x w)
          have gr: "grows ?P (cfil u) (cfil w)" using 1 2 grows_trans by blast
          have "placed ?P (cfil w) e" if e: "e \<in> set es'" "\<not> ?p e" for e
          proof -
            have ok: "entry_ok ?P (gh_temps g) e" using es' e by (simp add: entries_ok_def)
            show ?thesis
            proof (cases "be_payload e")
              case (Staged st)
              then have "be_depth e = Some (sg_depth st)" using ok by (simp add: entry_ok_def)
              moreover have "e \<in> set ?ds" using e Staged by (simp add: is_deduped_def)
              then have "at_depth ?P (cfil w) (be_id e) (sg_depth st)" using 2 Staged by blast
              ultimately show ?thesis using entry_ok_len [OF ok] by (simp add: placed_def)
            next
              case (Deduped bs)
              then have "placed ?P (cfil u) e" using redone_ok(2) [OF u(2)] e by (simp add: is_deduped_def)
              then show ?thesis using placed_grows [OF gr] ok by (simp add: entry_ok_def)
            qed
          qed
          with 2 show ?case by blast
        next
          case (3 e w)
          then show ?case using closed_weak [of ?g3 w] T by simp
        qed
      qed
      show ?case by (rule wp_seq [OF L]) (use fin in blast)
    qed
  qed
  show ?thesis unfolding commit_batch_def
    by (rule wp_seq [OF A], elim conjE, hypsubst, rule wp_seq [OF B], assumption, elim conjE, rule CDE)
qed

end

end
