(* ===== verification/GroupCommit.thy ===== *)
theory GroupCommit
  imports BatchCommit
begin

section \<open>The commit station\<close>

text \<open>
  \<open>cas/group_commit.rs\<close>: one committer closes the sealed batches of several requests together.
  \<open>close_group\<close> runs with the stripes of every block of the group held, so it is one step of the store.
  \<open>gather\<close> and \<open>drain\<close> are the committer's loop over its queue. Statistics and metrics are left out.
\<close>

subsection \<open>Closing a group\<close>

text \<open>The loop that fills \<open>live\<close>: one read per distinct id; a failed read counts as no record.\<close>

fun read_live ::
  "('n, 's, 'd) env \<Rightarrow> batch_entry list \<Rightarrow> (block_id \<rightharpoonup> bool) \<Rightarrow> ('n, 's, 'd, block_id \<rightharpoonup> bool) cas_act" where
  "read_live E [] live = ret live"
| "read_live E (e # es) live = (case live (be_id e) of
     Some _ \<Rightarrow> read_live E es live
   | None \<Rightarrow>
       bindM (orElse (has_live_record E (be_id e)) (\<lambda>_. ret False)) (\<lambda>answer.
         read_live E es (live(be_id e \<mapsto> answer))))"

definition is_live :: "(block_id \<rightharpoonup> bool) \<Rightarrow> batch_entry \<Rightarrow> bool" where
  "is_live live e \<longleftrightarrow> live (be_id e) = Some True"

definition rewrite_entry ::
  "('n, 's, 'd) env \<Rightarrow> (block_id \<rightharpoonup> bool) \<Rightarrow> batch_entry \<Rightarrow> (block_id \<rightharpoonup> u8) \<Rightarrow>
   ('n, 's, 'd, batch_entry \<times> (block_id \<rightharpoonup> u8)) cas_act" where
  "rewrite_entry E live e pl =
    (if is_live live e then ret (e, pl)
     else case be_payload e of
       Staged _ \<Rightarrow> ret (e, pl)
     | Deduped bs \<Rightarrow> (case pl (be_id e) of
         Some depth \<Rightarrow> ret (e\<lparr>be_depth := Some depth\<rparr>, pl)
       | None \<Rightarrow>
           bindM (on_bs (choose_depth (en_disk E) (hex_of E) (placement_of E) (be_id e))) (\<lambda>depth.
           bindM (tryM (on_bs (write_block (en_disk E) (hex_of E) (writer_of E) (be_id e) depth bs))) (\<lambda>r. case r of
             Inl _ \<Rightarrow> ret (e, pl)
           | Inr _ \<Rightarrow> ret (e\<lparr>be_depth := Some depth\<rparr>, pl(be_id e \<mapsto> depth))))))"

fun rewrite_member ::
  "('n, 's, 'd) env \<Rightarrow> (block_id \<rightharpoonup> bool) \<Rightarrow> batch_entry list \<Rightarrow> (block_id \<rightharpoonup> u8) \<Rightarrow>
   ('n, 's, 'd, batch_entry list \<times> (block_id \<rightharpoonup> u8)) cas_act" where
  "rewrite_member E live [] pl = ret ([], pl)"
| "rewrite_member E live (e # es) pl =
    bindM (rewrite_entry E live e pl) (\<lambda>(e, pl).
    bindM (rewrite_member E live es pl) (\<lambda>(es, pl). ret (e # es, pl)))"

fun rewrite_members ::
  "('n, 's, 'd) env \<Rightarrow> (block_id \<rightharpoonup> bool) \<Rightarrow> batch_entry list list \<Rightarrow> (block_id \<rightharpoonup> u8) \<Rightarrow>
   ('n, 's, 'd, batch_entry list list \<times> (block_id \<rightharpoonup> u8)) cas_act" where
  "rewrite_members E live [] pl = ret ([], pl)"
| "rewrite_members E live (m # ms) pl =
    bindM (rewrite_member E live m pl) (\<lambda>(m, pl).
    bindM (rewrite_members E live ms pl) (\<lambda>(ms, pl). ret (m # ms, pl)))"

fun plan_group ::
  "('n, 's, 'd) env \<Rightarrow> (block_id \<rightharpoonup> bool) \<Rightarrow> batch_entry list \<Rightarrow> (block_id \<rightharpoonup> u8) \<Rightarrow>
   ('n, 's, 'd, staged_block list \<times> (block_id \<rightharpoonup> u8)) cas_act" where
  "plan_group E live [] pl = ret ([], pl)"
| "plan_group E live (e # es) pl = (case be_payload e of
     Deduped _ \<Rightarrow> plan_group E live es pl
   | Staged st \<Rightarrow>
       if is_live live e \<or> pl (be_id e) \<noteq> None then
         bindM (on_bs (discard_staged (en_disk E) st)) (\<lambda>_. plan_group E live es pl)
       else
         bindM (plan_group E live es (pl(be_id e \<mapsto> sg_depth st))) (\<lambda>(to_land, pl). ret (st # to_land, pl)))"

text \<open>The pass after the landing: every entry learns its depth, and a member with an entry that has no file is refused.\<close>

definition settle_entry :: "(block_id \<rightharpoonup> bool) \<Rightarrow> (block_id \<rightharpoonup> u8) \<Rightarrow> batch_entry \<Rightarrow> batch_entry" where
  "settle_entry live pl e =
    (if is_live live e then e
     else case pl (be_id e) of Some depth \<Rightarrow> e\<lparr>be_depth := Some depth\<rparr> | None \<Rightarrow> e)"

definition member_refused :: "(block_id \<rightharpoonup> bool) \<Rightarrow> (block_id \<rightharpoonup> u8) \<Rightarrow> batch_entry list \<Rightarrow> cas_error option" where
  "member_refused live pl es =
    (if \<exists>e \<in> set es. \<not> is_live live e \<and> pl (be_id e) = None
     then Some (CIo (IoError OtherKind ''no block file could be placed by this group'')) else None)"

fun record_group ::
  "'s store_ops \<Rightarrow> (batch_entry list \<times> cas_error option) list \<Rightarrow> ('s, cas_error, flush_outcome list) act" where
  "record_group S [] = ret []"
| "record_group S ((es, refused) # ms) =
    bindM (if refused = None then record_all S es \<lparr>fo_written = 0, fo_ignored = 0\<rparr>
      else ret \<lparr>fo_written = 0, fo_ignored = 0\<rparr>) (\<lambda>out.
    bindM (record_group S ms) (\<lambda>outs. ret (out # outs)))"

text \<open>The shared transaction; \<open>None\<close> sends the group to the degrade path. A panic drops the transaction.\<close>

definition group_transaction ::
  "'s store_ops \<Rightarrow> (batch_entry list \<times> cas_error option) list \<Rightarrow> ('s, cas_error, flush_outcome list option) act" where
  "group_transaction S ms =
    bindM (begin_transaction S) (\<lambda>_.
    bindM (tryM (record_group S ms)) (\<lambda>r. case r of
      Inl e \<Rightarrow> bindM (rollback S) (\<lambda>_. case e of CPanic _ \<Rightarrow> raise e | _ \<Rightarrow> ret None)
    | Inr outs \<Rightarrow>
        bindM (tryM (mapE CMeta (tx_commit S))) (\<lambda>c. case c of
          Inl _ \<Rightarrow> ret None
        | Inr _ \<Rightarrow> ret (Some outs))))"

definition replay_alone :: "('n, 's, 'd) env \<Rightarrow> batch_entry list \<Rightarrow> ('n, 's, 'd, flush_outcome) cas_act" where
  "replay_alone E es = mapE into_io (zoom cs_sh (\<lambda>t s. s\<lparr>cs_sh := t\<rparr>) (commit_records (en_sh E) es))"

text \<open>An error of a member is its outcome; a panic ends the closing task.\<close>

definition outcome_of :: "('s, cas_error, 'a) act \<Rightarrow> ('s, cas_error, cas_error + 'a) act" where
  "outcome_of m = bindM (tryM m) (\<lambda>r. case r of Inl (CPanic p) \<Rightarrow> raise (CPanic p) | _ \<Rightarrow> ret r)"

definition landing_error :: "cas_error \<Rightarrow> cas_error" where
  "landing_error e = (case e of CIo i \<Rightarrow> CIo (IoError (io_kind_of i) ''landing the group's block files'') | _ \<Rightarrow> e)"

definition finish_group ::
  "('n, 's, 'd) env \<Rightarrow> (batch_entry list \<times> cas_error option) list \<Rightarrow>
   ('n, 's, 'd, (cas_error + flush_outcome) list) cas_act" where
  "finish_group E ms =
    bindM (zoom cs_sh (\<lambda>t s. s\<lparr>cs_sh := t\<rparr>) (group_transaction (en_sh E) ms)) (\<lambda>r. case r of
      Some outs \<Rightarrow>
        ret (map (\<lambda>((_, refused), out). case refused of Some e \<Rightarrow> Inl e | None \<Rightarrow> Inr out) (zip ms outs))
    | None \<Rightarrow>
        forM ms (\<lambda>(es, refused). case refused of
          Some e \<Rightarrow> ret (Inl e)
        | None \<Rightarrow> outcome_of (replay_alone E es)))"

definition close_group ::
  "('n, 's, 'd) env \<Rightarrow> batch_entry list list \<Rightarrow> ('n, 's, 'd, (cas_error + flush_outcome) list) cas_act" where
  "close_group E members =
    bindM (read_live E (concat members) Map.empty) (\<lambda>live.
    bindM (rewrite_members E live members Map.empty) (\<lambda>(members, pl).
    bindM (plan_group E live (concat members) pl) (\<lambda>(to_land, pl).
    bindM (tryM (on_bs (land_batch (en_disk E) (writer_of E) to_land))) (\<lambda>r. case r of
      Inl e \<Rightarrow> ret (map (\<lambda>_. Inl (landing_error e)) members)
    | Inr _ \<Rightarrow>
        finish_group E (map (\<lambda>es. (map (settle_entry live pl) es, member_refused live pl es)) members)))))"

text \<open>What a request that meets an idle station waits for: the outcome of a group of its own.\<close>

definition group_task_error :: "cas_error \<Rightarrow> cas_error" where
  "group_task_error e =
    (case e of CPanic _ \<Rightarrow> CIo (IoError OtherKind ''the group commit task did not complete'') | _ \<Rightarrow> e)"

definition station_close :: "('n, 's, 'd) env \<Rightarrow> batch_entry list \<Rightarrow> ('n, 's, 'd, flush_outcome) cas_act" where
  "station_close E es =
    bindM (mapE group_task_error (close_group E [es])) (\<lambda>outs. case outs of
      r # _ \<Rightarrow> liftE r
    | [] \<Rightarrow> raise (CIo (IoError OtherKind ''the commit station dropped a batch without an outcome'')))"

subsection \<open>The committer's queue\<close>

text \<open>The gathering loop: batches join while the group is below the cap; the first that would push it past
  the cap is carried over. The result is the members taken, the batch carried and the queue left.\<close>

fun gather :: "nat \<Rightarrow> nat \<Rightarrow> 'b list list \<Rightarrow> 'b list list \<times> 'b list option \<times> 'b list list" where
  "gather cap blocks [] = ([], None, [])"
| "gather cap blocks (b # queue) =
    (if blocks < cap then
       if blocks + length b > cap then ([], Some b, queue)
       else (let (taken, carried, rest) = gather cap (blocks + length b) queue in (b # taken, carried, rest))
     else ([], None, b # queue))"

text \<open>One turn with a window: \<open>early\<close> arrives before the deadline, \<open>late\<close> is queued when it has passed.\<close>

definition gather_window ::
  "nat \<Rightarrow> nat \<Rightarrow> 'b list list \<Rightarrow> 'b list list \<Rightarrow> 'b list list \<times> 'b list option \<times> 'b list list" where
  "gather_window cap blocks early late =
    (case gather cap blocks early of
       (g1, Some c, rest) \<Rightarrow> (g1, Some c, rest @ late)
     | (g1, None, rest) \<Rightarrow>
         (let (g2, c, rest') = gather cap (blocks + length (concat g1)) (rest @ late) in (g1 @ g2, c, rest')))"

lemma gather_length: "gather cap n q = (g, c, r) \<Longrightarrow> length g + (case c of None \<Rightarrow> 0 | Some _ \<Rightarrow> 1) + length r = length q"
  by (induction cap n q arbitrary: g c r rule: gather.induct) (auto split: if_splits prod.splits option.splits)

text \<open>The committer over a queue nobody adds to any more. The store lives for so many turns of the loop (\<open>turns\<close>); when it
  is gone the batch at hand is answered with an error and the loop ends. The result is the groups committed, the batch
  failed and the batches left in the queue, whose senders find their reply dropped.\<close>

function drain ::
  "nat \<Rightarrow> nat \<Rightarrow> 'b list option \<Rightarrow> 'b list list \<Rightarrow> 'b list list list \<times> 'b list option \<times> 'b list list" where
  "drain turns cap (Some b) queue =
    (if turns = 0 then ([], Some b, queue)
     else case gather cap (length b) queue of (g, c, rest) \<Rightarrow>
       (case drain (turns - 1) cap c rest of (gs, failed, left) \<Rightarrow> ((b # g) # gs, failed, left)))"
| "drain turns cap None (b # queue) =
    (if turns = 0 then ([], Some b, queue)
     else case gather cap (length b) queue of (g, c, rest) \<Rightarrow>
       (case drain (turns - 1) cap c rest of (gs, failed, left) \<Rightarrow> ((b # g) # gs, failed, left)))"
| "drain turns cap None [] = ([], None, [])"
  by pat_completeness auto

termination drain
  by (relation "measure (\<lambda>(turns, cap, c, q). length q + (case c of None \<Rightarrow> 0 | Some _ \<Rightarrow> 1))")
    (auto dest!: sym [THEN gather_length] split: option.splits)

lemma gather_all: "gather cap n q = (g, c, r) \<Longrightarrow> g @ (case c of None \<Rightarrow> [] | Some b \<Rightarrow> [b]) @ r = q"
  by (induction cap n q arbitrary: g c r rule: gather.induct) (auto split: if_splits prod.splits option.splits)

lemma gather_cap: "gather cap n q = (g, c, r) \<Longrightarrow> g = [] \<or> n + length (concat g) \<le> cap"
proof (induction cap n q arbitrary: g c r rule: gather.induct)
  case (2 cap n b q)
  show ?case
  proof (cases "n < cap \<and> n + length b \<le> cap")
    case True
    obtain g' c' r' where g': "gather cap (n + length b) q = (g', c', r')" by (cases "gather cap (n + length b) q") auto
    with 2 True show ?thesis using "2.IH" [of g' c' r'] by (cases "g' = []") auto
  qed (use 2 in \<open>auto split: if_splits\<close>)
qed simp

lemma gather_append:
  assumes "gather cap n q = (g, None, r)"
  shows "gather cap n (q @ q') = (case gather cap (n + length (concat g)) (r @ q') of (g', c, r') \<Rightarrow> (g @ g', c, r'))"
  using assms
proof (induction cap n q arbitrary: g r rule: gather.induct)
  case (2 cap n b q)
  show ?case
  proof (cases "n < cap")
    case True
    with 2 have le: "\<not> n + length b > cap" by (auto split: if_splits)
    obtain g1 r1 where g1: "gather cap (n + length b) q = (g1, None, r1)" "g = b # g1" "r = r1"
      using 2 True le by (auto split: prod.splits)
    show ?thesis using True le g1 "2.IH" [OF True le g1(1)] by (simp add: add.assoc split: prod.splits)
  qed (use 2 in \<open>simp split: prod.splits\<close>)
qed (auto split: prod.splits)

lemma gather_append_carried:
  "gather cap n q = (g, Some c, r) \<Longrightarrow> gather cap n (q @ q') = (g, Some c, r @ q')"
  by (induction cap n q arbitrary: g r rule: gather.induct) (auto split: if_splits prod.splits)

text \<open>A queue and the batch carried over, as the committer leaves them.\<close>

definition drained :: "nat \<Rightarrow> 'b list list \<Rightarrow> 'b list list list \<times> 'b list option \<times> 'b list list \<Rightarrow> nat \<Rightarrow> bool" where
  "drained cap q r turns = (case r of (gs, failed, left) \<Rightarrow>
     concat gs @ (case failed of None \<Rightarrow> [] | Some b \<Rightarrow> [b]) @ left = q \<and>
     (\<forall>g \<in> set gs. g \<noteq> [] \<and> (1 < length g \<longrightarrow> length (concat g) \<le> cap)) \<and>
     (failed = None \<longrightarrow> left = []) \<and> (length q \<le> turns \<longrightarrow> failed = None))"

lemma drained_step:
  assumes g: "gather cap (length b) q = (g, c, r)" and "turns \<noteq> 0"
    and IH: "drained cap ((case c of None \<Rightarrow> [] | Some b \<Rightarrow> [b]) @ r) (drain (turns - 1) cap c r) (turns - 1)"
  shows "drained cap (b # q) (case drain (turns - 1) cap c r of (gs, failed, left) \<Rightarrow> ((b # g) # gs, failed, left)) turns"
proof -
  obtain gs failed left where d: "drain (turns - 1) cap c r = (gs, failed, left)"
    by (cases "drain (turns - 1) cap c r") auto
  have q: "q = g @ (case c of None \<Rightarrow> [] | Some b \<Rightarrow> [b]) @ r" using gather_all [OF g] by simp
  show ?thesis using IH gather_cap [OF g] \<open>turns \<noteq> 0\<close> unfolding d q drained_def
    by (cases "g = []") auto
qed

text \<open>C16: The committer loses nobody and keeps the order: the groups it forms, the batch it fails when the store is gone
  and the batches then left behind are the queue; each group has a member, and a group of more than one member
  carries at most \<open>cap\<close> blocks. While the store lives, every batch is in a group.\<close>
theorem drain_groups:
  "case drain turns cap None q of (gs, failed, left) \<Rightarrow>
     concat gs @ (case failed of None \<Rightarrow> [] | Some b \<Rightarrow> [b]) @ left = q \<and>
     (\<forall>g \<in> set gs. g \<noteq> [] \<and> (1 < length g \<longrightarrow> length (concat g) \<le> cap)) \<and>
     (failed = None \<longrightarrow> left = []) \<and> (length q \<le> turns \<longrightarrow> failed = None)"
proof -
  have "drained cap ((case c of None \<Rightarrow> [] | Some b \<Rightarrow> [b]) @ q) (drain turns cap c q) turns" for c
  proof (induction turns cap c q rule: drain.induct)
    case (1 turns cap b q)
    obtain g c r where g: "gather cap (length b) q = (g, c, r)" by (cases "gather cap (length b) q") auto
    show ?case
    proof (cases "turns = 0")
      case False
      from drained_step [OF g False "1.IH" [OF False g [symmetric] refl]] show ?thesis using False by (simp add: g)
    qed (simp add: drained_def)
  next
    case (2 turns cap b q)
    obtain g c r where g: "gather cap (length b) q = (g, c, r)" by (cases "gather cap (length b) q") auto
    show ?case
    proof (cases "turns = 0")
      case False
      from drained_step [OF g False "2.IH" [OF False g [symmetric] refl]] show ?thesis using False by (simp add: g)
    qed (simp add: drained_def)
  qed (simp add: drained_def)
  from this [of None] show ?thesis by (simp add: drained_def)
qed

theorem drain_groups_witness:
  "drain 4 4 None [[1, 2], [3], [4, 5], [6 :: nat]] = ([[[1, 2], [3]], [[4, 5], [6]]], None, []) \<and>
   drain 1 4 None [[1, 2], [3], [4, 5], [6 :: nat]] = ([[[1, 2], [3]]], Some [4, 5], [[6]]) \<and>
   concat [[[1, 2], [3]], [[4, 5], [6 :: nat]]] = [[1, 2], [3], [4, 5], [6]]"
  using drain_groups [where turns = 4 and cap = 4 and q = "[[1, 2], [3], [4, 5], [6 :: nat]]"] by simp

text \<open>C17: The window changes when a group closes, not how it is formed: waiting for the early arrivals and then
  draining the queue takes the same members, carries the same batch and leaves the same queue as one pass
  over both.\<close>
theorem gather_window_eq: "gather_window cap blocks early late = gather cap blocks (early @ late)"
proof (cases "gather cap blocks early")
  case (fields g c r)
  then show ?thesis
    by (cases c) (simp_all add: gather_window_def gather_append gather_append_carried)
qed

subsection \<open>What closing a group does\<close>

definition redepth :: "batch_entry \<Rightarrow> batch_entry \<Rightarrow> bool" where
  "redepth e e' \<longleftrightarrow> (\<exists>d. e' = e\<lparr>be_depth := d\<rparr>) \<and> (\<not> is_deduped e \<longrightarrow> e' = e)"

lemma redepth_refl [simp]: "redepth e e"
  unfolding redepth_def by (metis batch_entry.surjective batch_entry.update_convs(5))

lemma redepth_one:
  assumes "redepth e e'"
  shows "be_id e' = be_id e" "be_occurrences e' = be_occurrences e" "be_payload e' = be_payload e" "be_len e' = be_len e"
    "entry_ok P T e' = entry_ok P T e"
proof -
  from assms obtain d where d: "e' = e\<lparr>be_depth := d\<rparr>" by (auto simp: redepth_def)
  then show "be_id e' = be_id e" "be_occurrences e' = be_occurrences e" "be_payload e' = be_payload e" "be_len e' = be_len e"
    by simp_all
  show "entry_ok P T e' = entry_ok P T e"
  proof (cases "is_deduped e")
    case True
    then show ?thesis unfolding d by (simp add: entry_ok_def is_deduped_def split: payload.splits)
  qed (use assms in \<open>simp add: redepth_def\<close>)
qed

lemma redepth_list:
  assumes "list_all2 redepth es es'"
  shows "occ_list es' = occ_list es" "staged_paths es' = staged_paths es" "entries_ok P T es' = entries_ok P T es"
proof -
  show "occ_list es' = occ_list es" using assms by (induction rule: list_all2_induct) (simp_all add: redepth_one)
  show sp: "staged_paths es' = staged_paths es" using assms by (induction rule: list_all2_induct) (simp_all add: redepth_one)
  have "(\<forall>e \<in> set es'. entry_ok P T e) = (\<forall>e \<in> set es. entry_ok P T e)"
    using assms by (induction rule: list_all2_induct) (simp_all add: redepth_one)
  then show "entries_ok P T es' = entries_ok P T es" using sp by (simp add: entries_ok_def)
qed

definition pl_ok :: "cas_params \<Rightarrow> (path \<Rightarrow> bytes option) \<Rightarrow> (block_id \<rightharpoonup> u8) \<Rightarrow> bool" where
  "pl_ok P f pl \<longleftrightarrow> (\<forall>i d. pl i = Some d \<longrightarrow> wf_block_id i \<and> at_depth P f i d)"

lemma pl_ok_grows: "pl_ok P f pl \<Longrightarrow> grows P f f' \<Longrightarrow> pl_ok P f' pl"
  by (auto simp: pl_ok_def grows_def)

lemma pl_ok_upd: "pl_ok P f pl \<Longrightarrow> wf_block_id i \<Longrightarrow> at_depth P f i d \<Longrightarrow> pl_ok P f (pl(i \<mapsto> d))"
  by (simp add: pl_ok_def)

text \<open>What the members with a successful outcome brought.\<close>

definition shares :: "batch_entry list list \<Rightarrow> (cas_error + flush_outcome) list \<Rightarrow> batch_entry list" where
  "shares ms outs = concat (map (\<lambda>(es, r). case r of Inr _ \<Rightarrow> es | Inl _ \<Rightarrow> []) (zip ms outs))"

lemma shares_simps [simp]:
  "shares [] outs = []" "shares (es # ms) (r # outs) = (case r of Inr _ \<Rightarrow> es | Inl _ \<Rightarrow> []) @ shares ms outs"
  by (simp_all add: shares_def)

lemma shares_failed: "shares ms (map (\<lambda>_. Inl e) ms') = []"
  by (induction ms arbitrary: ms') (auto simp: shares_def zip_map2 split: list.splits sum.splits)

lemma settle_same [simp]:
  "be_id (settle_entry live pl e) = be_id e" "be_occurrences (settle_entry live pl e) = be_occurrences e"
  "be_len (settle_entry live pl e) = be_len e"
  by (simp_all add: settle_entry_def split: option.split)

lemma occ_list_settle [simp]: "occ_list (map (settle_entry live pl) es) = occ_list es"
  by (induction es) simp_all

abbreviation recordable :: "cas_params \<Rightarrow> content \<Rightarrow> (path \<Rightarrow> bytes option) \<Rightarrow> batch_entry list \<Rightarrow> bool" where
  "recordable P c f es \<equiv> \<forall>e \<in> set es. wf_block_id (be_id e) \<and> be_occurrences e \<noteq> 0 \<and> (live_rec c (be_id e) \<or> placed P f e)"

definition accepted :: "(batch_entry list \<times> cas_error option) list \<Rightarrow> batch_entry list" where
  "accepted ms = concat (map (\<lambda>(es, refused). if refused = None then es else []) ms)"

lemma accepted_simps [simp]:
  "accepted [] = []" "accepted ((es, refused) # ms) = (if refused = None then es else []) @ accepted ms"
  "accepted (ms @ ms') = accepted ms @ accepted ms'"
  by (simp_all add: accepted_def)

text \<open>No outcome is a panic.\<close>

definition sound :: "(cas_error + 'a) list \<Rightarrow> bool" where
  "sound outs \<longleftrightarrow> (\<forall>e. Inl e \<in> set outs \<longrightarrow> no_panic e)"

definition refusals_ok :: "('b \<times> cas_error option) list \<Rightarrow> bool" where
  "refusals_ok ms \<longleftrightarrow> (\<forall>e. Some e \<in> snd ` set ms \<longrightarrow> no_panic e)"

lemma sound_map:
  "refusals_ok ms \<Longrightarrow> length outs = length ms \<Longrightarrow>
   sound (map (\<lambda>((_, refused), out). case refused of Some e \<Rightarrow> Inl e | None \<Rightarrow> Inr out) (zip ms outs))"
  by (force simp: sound_def refusals_ok_def dest!: set_zip_leftD split: option.splits)

lemma refusals_settled: "refusals_ok (map (\<lambda>es. (F es, member_refused live pl es)) ms)"
  by (auto simp: refusals_ok_def member_refused_def split: if_splits)

text \<open>The entries of the members whose outcome is a success.\<close>

definition granted :: "((batch_entry list \<times> cas_error option) \<times> (cas_error + flush_outcome)) list \<Rightarrow> batch_entry list" where
  "granted rs = concat (map (\<lambda>((es, _), r). case r of Inr _ \<Rightarrow> es | Inl _ \<Rightarrow> []) rs)"

lemma granted_simps [simp]:
  "granted [] = []" "granted (((es, refused), r) # rs) = (case r of Inr _ \<Rightarrow> es | Inl _ \<Rightarrow> []) @ granted rs"
  "granted (rs @ rs') = granted rs @ granted rs'"
  by (simp_all add: granted_def)

lemma granted_accepted:
  "length outs = length ms \<Longrightarrow>
   granted (zip ms (map (\<lambda>((_, refused), out). case refused of Some e \<Rightarrow> Inl e | None \<Rightarrow> Inr out) (zip ms outs))) = accepted ms"
  by (induction outs ms rule: list_induct2) (auto split: option.split)

lemma granted_shares:
  assumes "list_all2 (list_all2 redepth) ms ms'" "length outs = length ms'"
  shows "occ_list (granted (zip (map (\<lambda>es. (map (settle_entry live pl) es, member_refused live pl es)) ms') outs)) =
    occ_list (shares ms outs)"
  using assms
proof (induction arbitrary: outs rule: list_all2_induct)
  case (Cons m ms m' ms')
  then obtain r rs where "outs = r # rs" by (cases outs) auto
  with Cons show ?case using redepth_list(1) [OF Cons.hyps(1)] by (auto split: sum.split)
qed simp

lemma accepted_settled:
  "e \<in> set (accepted (map (\<lambda>es. (map (settle_entry live pl) es, member_refused live pl es)) ms)) \<longleftrightarrow>
   (\<exists>es \<in> set ms. member_refused live pl es = None \<and> e \<in> settle_entry live pl ` set es)"
  by (auto simp: accepted_def split: if_splits)

lemma accepted_less:
  "length (occ_list (accepted (map (\<lambda>es. (map (settle_entry live pl) es, member_refused live pl es)) ms))) \<le> length (occ_list (concat ms))"
  by (induction ms) auto

lemma settled_recordable:
  assumes "pl_ok P f pl" "\<forall>i. live i = Some True \<longrightarrow> live_rec c i" "\<forall>e \<in> set (concat ms). entry_ok P T e"
  shows "recordable P c f (accepted (map (\<lambda>es. (map (settle_entry live pl) es, member_refused live pl es)) ms))"
proof
  fix e assume "e \<in> set (accepted (map (\<lambda>es. (map (settle_entry live pl) es, member_refused live pl es)) ms))"
  then obtain es x where x: "es \<in> set ms" "member_refused live pl es = None" "x \<in> set es" "e = settle_entry live pl x"
    unfolding accepted_settled by blast
  then have ok: "entry_ok P T x" using assms(3) by auto
  have "is_live live x \<or> (\<exists>d. pl (be_id x) = Some d)" using x(2,3) by (auto simp: member_refused_def split: if_splits)
  then have "live_rec c (be_id e) \<or> placed P f e"
  proof
    assume "is_live live x"
    then show ?thesis using assms(2) x(4) by (simp add: is_live_def)
  next
    assume "\<exists>d. pl (be_id x) = Some d"
    then obtain d where d: "pl (be_id x) = Some d" ..
    show ?thesis
    proof (cases "is_live live x")
      case True
      then show ?thesis using assms(2) x(4) by (simp add: is_live_def)
    next
      case False
      then have "e = x\<lparr>be_depth := Some d\<rparr>" using x(4) d by (simp add: settle_entry_def)
      then show ?thesis using assms(1) d entry_ok_len [OF ok] by (simp add: placed_def pl_ok_def)
    qed
  qed
  then show "wf_block_id (be_id e) \<and> be_occurrences e \<noteq> 0 \<and> (live_rec c (be_id e) \<or> placed P f e)"
    using ok x(4) by (simp add: entry_ok_def)
qed

context store_contract
begin

lemma record_group_spec:
  assumes "inv t" "in_tx t" "cas_inv P g nc (txv t) f nonce" "length (occ_list (accepted ms)) \<le> gh_room g"
    "recordable P (txv t) f (accepted ms)"
  shows "wp (record_group S ms)
    (\<lambda>outs t'. txf t t' \<and> recorded P g nc f nonce (txv t) (occ_list (accepted ms)) (txv t') \<and> length outs = length ms)
    (\<lambda>e t'. txf t t' \<and> no_panic e) t"
  using assms
proof (induction ms arbitrary: t g)
  case (Cons m ms)
  obtain es refused where m: "m = (es, refused)" by (cases m)
  let ?es = "if refused = None then es else []"
  let ?g = "g\<lparr>gh_room := gh_room g - length (occ_list ?es), gh_refs := add_refs (gh_refs g) (occ_list ?es)\<rparr>"
  have step: "wp (if refused = None then record_all S es \<lparr>fo_written = 0, fo_ignored = 0\<rparr> else ret \<lparr>fo_written = 0, fo_ignored = 0\<rparr>)
      (\<lambda>_ t'. txf t t' \<and> recorded P g nc f nonce (txv t) (occ_list ?es) (txv t')) (\<lambda>e t'. txf t t' \<and> no_panic e) t"
  proof (cases "refused = None")
    case True
    then show ?thesis using Cons.prems
      by (auto simp: m intro!: wp_mono [OF record_all_spec [where P = P and g = g and nc = nc and f = f and nonce = nonce]])
  next
    case False
    then obtain r where "refused = Some r" by blast
    then show ?thesis using Cons.prems by (simp add: recorded_Nil)
  qed
  show ?case unfolding m record_group.simps
  proof (rule wp_seq [OF step])
    fix out u assume u: "txf t u \<and> recorded P g nc f nonce (txv t) (occ_list ?es) (txv u)"
    have live: "live_rec (txv u) h" if "wf_block_id h" "live_rec (txv t) h" for h
      using u that by (simp add: recorded_def)
    have "wp (record_group S ms)
      (\<lambda>outs t'. txf u t' \<and> recorded P ?g nc f nonce (txv u) (occ_list (accepted ms)) (txv t') \<and> length outs = length ms)
      (\<lambda>e t'. txf u t' \<and> no_panic e) u"
    proof (rule Cons.IH)
      show "cas_inv P ?g nc (txv u) f nonce" using u by (simp add: recorded_def)
      show "length (occ_list (accepted ms)) \<le> gh_room ?g" using Cons.prems(4) by (simp add: m)
      show "recordable P (txv u) f (accepted ms)" using Cons.prems(5) live by (auto simp: m)
    qed (use u in auto)
    then show "wp (bindM (record_group S ms) (\<lambda>outs. ret (out # outs)))
      (\<lambda>outs t'. txf t t' \<and> recorded P g nc f nonce (txv t) (occ_list (accepted ((es, refused) # ms))) (txv t') \<and>
         length outs = length ((es, refused) # ms))
      (\<lambda>e t'. txf t t' \<and> no_panic e) u"
      unfolding wp_bindM
    proof (rule wp_mono)
      fix outs :: "flush_outcome list" and t' assume o: "txf u t' \<and> recorded P ?g nc f nonce (txv u) (occ_list (accepted ms)) (txv t') \<and> length outs = length ms"
      have "recorded P g nc f nonce (txv t) (occ_list ?es @ occ_list (accepted ms)) (txv t')"
        by (rule recorded_trans) (use u o in blast)+
      with o u show "wp (ret (out # outs)) (\<lambda>outs t'. txf t t' \<and>
          recorded P g nc f nonce (txv t) (occ_list (accepted ((es, refused) # ms))) (txv t') \<and>
          length outs = length ((es, refused) # ms)) (\<lambda>e t'. txf t t' \<and> no_panic e) t'"
        unfolding wp_ret accepted_simps occ_list_simps by (simp, blast)
    qed (use u in auto)
  qed
qed (simp add: recorded_Nil)

lemma group_transaction_spec:
  assumes s: "inv s" "\<not> in_tx s" and cas: "cas_inv P g nc (cont s) f nonce" "length (occ_list (accepted ms)) \<le> gh_room g"
    and ms: "recordable P (cont s) f (accepted ms)"
  shows "wp (group_transaction S ms)
    (\<lambda>r s'. inv s' \<and> \<not> in_tx s' \<and> (case r of
        Some outs \<Rightarrow> recorded P g nc f nonce (cont s) (occ_list (accepted ms)) (cont s') \<and> length outs = length ms
      | None \<Rightarrow> cont s' = cont s \<or> recorded P g nc f nonce (cont s) (occ_list (accepted ms)) (cont s')))
    (\<lambda>_ _. False) s"
    (is "wp _ ?Q ?E s")
proof -
  have commit: "wp (bindM (tryM (mapE CMeta (tx_commit S))) (\<lambda>c. case c of Inl _ \<Rightarrow> ret None | Inr _ \<Rightarrow> ret (Some outs))) ?Q ?E u"
    if u: "inv u" "in_tx u" "cont u = cont s" "recorded P g nc f nonce (cont s) (occ_list (accepted ms)) (txv u)" "length outs = length ms"
    for outs u
    unfolding wp_bindM wp_tryM wp_mapE by (rule wp_tx_commit) (use u in auto)
  have undo: "wp (bindM (rollback S) (\<lambda>_. case e of CPanic _ \<Rightarrow> raise e | _ \<Rightarrow> ret None)) ?Q ?E u"
    if u: "inv u" "in_tx u" "cont u = cont s" "no_panic e" for e u
    unfolding wp_bindM by (rule wp_rollback) (use u in \<open>auto simp: no_panic_def split: cas_error.split\<close>)
  show ?thesis unfolding group_transaction_def wp_bindM
  proof (rule wp_begin [OF s])
    fix t assume t: "inv t" "in_tx t" "cont t = cont s" "txv t = cont s"
    show "wp (tryM (record_group S ms)) (\<lambda>r. wp (case r of
        Inl e \<Rightarrow> bindM (rollback S) (\<lambda>_. case e of CPanic _ \<Rightarrow> raise e | _ \<Rightarrow> ret None)
      | Inr outs \<Rightarrow> bindM (tryM (mapE CMeta (tx_commit S))) (\<lambda>c. case c of Inl _ \<Rightarrow> ret None | Inr _ \<Rightarrow> ret (Some outs))) ?Q ?E) ?E t"
      unfolding wp_tryM sum.case
    proof (rule wp_mono [OF record_group_spec [OF t(1,2), where P = P and g = g and nc = nc and f = f and nonce = nonce]], goal_cases)
      case (4 outs u)
      then show ?case by (intro commit) (use t in auto)
    next
      case (5 e u)
      then show ?case by (intro undo) (use t in auto)
    qed (use t cas ms in auto)
  qed
qed

end

context cas_contract
begin

lemma read_live_spec:
  assumes "files_only s g u" "\<forall>i. live i = Some True \<longrightarrow> live_rec (scont (cs_sh s)) i"
  shows "wp (read_live E es live)
    (\<lambda>live' u'. files_only s g u' \<and> cs_bs u' = cs_bs u \<and> (\<forall>i. live' i = Some True \<longrightarrow> live_rec (scont (cs_sh s)) i) \<and>
       be_id ` set es \<union> dom live \<subseteq> dom live')
    (\<lambda>_ _. False) u"
  using assms
proof (induction es arbitrary: u live)
  case (Cons e es)
  show ?case
  proof (cases "live (be_id e)")
    case (Some l)
    show ?thesis unfolding read_live.simps Some option.case
      by (rule wp_mono [OF Cons.IH [OF Cons.prems]]) (use Some in auto)
  next
    case None
    have step: "wp (orElse (has_live_record E (be_id e)) (\<lambda>_. ret False))
        (\<lambda>l u'. files_only s g u' \<and> cs_bs u' = cs_bs u \<and> (l \<longrightarrow> live_rec (scont (cs_sh s)) (be_id e))) (\<lambda>_ _. False) u"
      unfolding wp_orElse wp_ret_fun by (rule wp_mono [OF has_live_record_spec [OF Cons.prems(1)]]) auto
    show ?thesis unfolding read_live.simps None option.case
    proof (rule wp_seq [OF step])
      fix l v assume v: "files_only s g v \<and> cs_bs v = cs_bs u \<and> (l \<longrightarrow> live_rec (scont (cs_sh s)) (be_id e))"
      show "wp (read_live E es (live(be_id e \<mapsto> l)))
        (\<lambda>live' u'. files_only s g u' \<and> cs_bs u' = cs_bs u \<and> (\<forall>i. live' i = Some True \<longrightarrow> live_rec (scont (cs_sh s)) i) \<and>
           be_id ` set (e # es) \<union> dom live \<subseteq> dom live') (\<lambda>_ _. False) v"
      proof (rule wp_mono [OF Cons.IH [of v "live(be_id e \<mapsto> l)"]], goal_cases)
        case (3 live' w)
        have "dom (live(be_id e \<mapsto> l)) = insert (be_id e) (dom live)" unfolding dom_fun_upd by simp
        then have "insert (be_id e) (dom live) \<subseteq> dom live'" using 3 by (metis Un_subset_iff)
        with 3 v show ?case by simp
      qed (use v Cons.prems in auto)
    qed
  qed
qed auto

lemma rewrite_entry_spec:
  assumes fo: "files_only s g u" and e: "entry_ok (en_params E) (gh_temps g) e" and n: "is_deduped e \<Longrightarrow> 0 < gh_nonces g"
    and pl: "pl_ok (en_params E) (cfil u) pl"
  shows "wp (rewrite_entry E live e pl)
    (\<lambda>(e', pl') u'. files_only s (less_nonces g [e]) u' \<and> redepth e e' \<and> pl_ok (en_params E) (cfil u') pl')
    (\<lambda>_ _. False) u"
proof -
  have F: "files_only s (less_nonces g [e]) u" by (rule files_only_weaken [OF fo]) simp_all
  show ?thesis
  proof (cases "\<exists>bs. \<not> is_live live e \<and> be_payload e = Deduped bs \<and> pl (be_id e) = None")
    case False
    have "rewrite_entry E live e pl = ret (e, pl) \<or>
        (\<exists>d. rewrite_entry E live e pl = ret (e\<lparr>be_depth := Some d\<rparr>, pl) \<and> is_deduped e)"
      using False by (auto simp: rewrite_entry_def is_deduped_def split: payload.splits option.splits)
    then show ?thesis
    proof (elim disjE exE conjE)
      assume R: "rewrite_entry E live e pl = ret (e, pl)"
      show ?thesis unfolding R wp_ret prod.case by (intro conjI F redepth_refl pl)
    next
      fix d assume R: "rewrite_entry E live e pl = ret (e\<lparr>be_depth := Some d\<rparr>, pl)" and dd: "is_deduped e"
      have "redepth e (e\<lparr>be_depth := Some d\<rparr>)" unfolding redepth_def using dd by blast
      then show ?thesis unfolding R wp_ret prod.case by (intro conjI F pl)
    qed
  next
    case True
    then obtain bs where bs: "\<not> is_live live e" "be_payload e = Deduped bs" "pl (be_id e) = None" by blast
    have dd: "is_deduped e" using bs by (simp add: is_deduped_def)
    have h: "wf_block_id (be_id e)" "is_block (en_params E) bs (be_id e)" using e bs by (auto simp: entry_ok_def)
    have G: "less_nonces g [e] = g\<lparr>gh_nonces := gh_nonces g - 1\<rparr>" using dd by simp
    have R: "rewrite_entry E live e pl =
      bindM (on_bs (choose_depth (en_disk E) (hex_of E) (placement_of E) (be_id e))) (\<lambda>depth.
      bindM (tryM (on_bs (write_block (en_disk E) (hex_of E) (writer_of E) (be_id e) depth bs))) (\<lambda>r. case r of
        Inl _ \<Rightarrow> ret (e, pl)
      | Inr _ \<Rightarrow> ret (e\<lparr>be_depth := Some depth\<rparr>, pl(be_id e \<mapsto> depth))))"
      using bs by (simp add: rewrite_entry_def)
    show ?thesis unfolding R G
    proof (rule wp_seq [where R = "\<lambda>d v. files_only s g v \<and> cfil v = cfil u"], goal_cases)
      case 1
      show ?case by (rule wp_mono [OF choose_depth_files [OF fo h(1)]]) simp_all
    next
      case (2 d v)
      have red: "redepth e (e\<lparr>be_depth := Some d\<rparr>)" unfolding redepth_def using dd by blast
      show ?case unfolding wp_bindM wp_tryM
      proof (rule wp_mono [OF write_block_files [of s g v "be_id e" bs d]], goal_cases)
        case (5 p w)
        then have "pl_ok (en_params E) (cfil w) (pl(be_id e \<mapsto> d))"
          using 2 pl h by (intro pl_ok_upd) (auto elim: pl_ok_grows)
        then show ?case using 5 red by simp
      next
        case (6 err w)
        then show ?case using 2 pl by (auto elim: pl_ok_grows)
      qed (use 2 n dd h in auto)
    qed
  qed
qed

lemma rewrite_member_spec:
  assumes "files_only s g u" "\<forall>e \<in> set es. entry_ok (en_params E) (gh_temps g) e" "length (filter is_deduped es) \<le> gh_nonces g"
    "pl_ok (en_params E) (cfil u) pl"
  shows "wp (rewrite_member E live es pl)
    (\<lambda>(es', pl') u'. files_only s (less_nonces g es) u' \<and> list_all2 redepth es es' \<and> pl_ok (en_params E) (cfil u') pl')
    (\<lambda>_ _. False) u"
  using assms
proof (induction es arbitrary: g u pl)
  case (Cons e es)
  have step: "wp (rewrite_entry E live e pl)
    (\<lambda>(e', pl') u'. files_only s (less_nonces g [e]) u' \<and> redepth e e' \<and> pl_ok (en_params E) (cfil u') pl') (\<lambda>_ _. False) u"
    by (rule rewrite_entry_spec) (use Cons.prems in auto)
  show ?case unfolding rewrite_member.simps
  proof (rule wp_seq [OF step], clarify)
    fix e' pl' v assume v: "files_only s (less_nonces g [e]) v" "redepth e e'" "pl_ok (en_params E) (cfil v) pl'"
    have N: "less_nonces (less_nonces g [e]) es = less_nonces g (e # es)" by simp
    have "wp (rewrite_member E live es pl')
      (\<lambda>(es', pl') u'. files_only s (less_nonces (less_nonces g [e]) es) u' \<and> list_all2 redepth es es' \<and> pl_ok (en_params E) (cfil u') pl')
      (\<lambda>_ _. False) v"
      by (rule Cons.IH [OF v(1) _ _ v(3)]) (use Cons.prems in auto)
    then show "wp (bindM (rewrite_member E live es pl') (\<lambda>(es, pl). ret (e' # es, pl)))
      (\<lambda>(es', pl') u'. files_only s (less_nonces g (e # es)) u' \<and> list_all2 redepth (e # es) es' \<and> pl_ok (en_params E) (cfil u') pl')
      (\<lambda>_ _. False) v"
      unfolding N wp_bindM by (rule wp_mono) (use v(2) in auto)
  qed
qed simp

lemma rewrite_members_spec:
  assumes "files_only s g u" "\<forall>e \<in> set (concat ms). entry_ok (en_params E) (gh_temps g) e"
    "length (filter is_deduped (concat ms)) \<le> gh_nonces g" "pl_ok (en_params E) (cfil u) pl"
  shows "wp (rewrite_members E live ms pl)
    (\<lambda>(ms', pl') u'. files_only s (less_nonces g (concat ms)) u' \<and> list_all2 (list_all2 redepth) ms ms' \<and>
       pl_ok (en_params E) (cfil u') pl')
    (\<lambda>_ _. False) u"
  using assms
proof (induction ms arbitrary: g u pl)
  case (Cons m ms)
  have step: "wp (rewrite_member E live m pl)
    (\<lambda>(m', pl') u'. files_only s (less_nonces g m) u' \<and> list_all2 redepth m m' \<and> pl_ok (en_params E) (cfil u') pl') (\<lambda>_ _. False) u"
    by (rule rewrite_member_spec) (use Cons.prems in auto)
  show ?case unfolding rewrite_members.simps
  proof (rule wp_seq [OF step], clarify)
    fix m' pl' v assume v: "files_only s (less_nonces g m) v" "list_all2 redepth m m'" "pl_ok (en_params E) (cfil v) pl'"
    have N: "less_nonces (less_nonces g m) (concat ms) = less_nonces g (concat (m # ms))" by simp
    have "wp (rewrite_members E live ms pl')
      (\<lambda>(ms', pl') u'. files_only s (less_nonces (less_nonces g m) (concat ms)) u' \<and> list_all2 (list_all2 redepth) ms ms' \<and>
         pl_ok (en_params E) (cfil u') pl')
      (\<lambda>_ _. False) v"
      by (rule Cons.IH [OF v(1) _ _ v(3)]) (use Cons.prems in auto)
    then show "wp (bindM (rewrite_members E live ms pl') (\<lambda>(ms, pl). ret (m' # ms, pl)))
      (\<lambda>(ms', pl') u'. files_only s (less_nonces g (concat (m # ms))) u' \<and> list_all2 (list_all2 redepth) (m # ms) ms' \<and>
         pl_ok (en_params E) (cfil u') pl')
      (\<lambda>_ _. False) v"
      unfolding N wp_bindM by (rule wp_mono) (use v(2) in auto)
  qed
qed simp

text \<open>The plan splits the staged files into surplus, which is discarded, and \<open>ds\<close>, which lands.\<close>

definition planned ::
  "(block_id \<rightharpoonup> u8) \<Rightarrow> batch_entry list \<Rightarrow> path set \<Rightarrow> batch_entry list \<Rightarrow> staged_block list \<Rightarrow> (block_id \<rightharpoonup> u8) \<Rightarrow> bool" where
  "planned pl es A ds to_land pl' \<longleftrightarrow> to_land = List.map_filter staged_of ds \<and> (\<forall>e \<in> set ds. \<not> is_deduped e) \<and>
     set ds \<subseteq> set es \<and> A \<union> set (staged_paths ds) = set (staged_paths es) \<and>
     (\<forall>i d. pl' i = Some d \<longrightarrow> pl i = Some d \<or> (\<exists>e \<in> set ds. \<exists>st. be_payload e = Staged st \<and> be_id e = i \<and> d = sg_depth st))"

lemma plan_group_spec:
  assumes "files_only s g u" "entries_ok (en_params E) (gh_temps g) es"
  shows "wp (plan_group E live es pl)
    (\<lambda>(to_land, pl') u'. \<exists>A ds. planned pl es A ds to_land pl' \<and>
       files_only s (g\<lparr>gh_temps := gh_temps g |` (- A)\<rparr>) u' \<and> entries_ok (en_params E) (gh_temps g |` (- A)) ds \<and>
       grows (en_params E) (cfil u) (cfil u'))
    (\<lambda>_ _. False) u"
  using assms
proof (induction es arbitrary: g u pl)
  case Nil
  have "planned pl [] {} [] [] pl" by (simp add: planned_def List.map_filter_simps)
  moreover have "gh_temps g |` (- {}) = gh_temps g" by (simp add: restrict_map_def)
  ultimately show ?case unfolding plan_group.simps wp_ret prod.case using Nil
    by (intro exI [of _ "{}"] exI [of _ "[]"]) simp
next
  case (Cons e es)
  note U = cas_okD [OF files_only_ok [OF Cons.prems(1)]]
  have tail: "entries_ok (en_params E) (gh_temps g) es" using Cons.prems(2) by (simp add: entries_ok_def)
  show ?case
  proof (cases "be_payload e")
    case (Deduped bs)
    have sub: "planned pl (e # es) A ds to_land pl'" if "planned pl es A ds to_land pl'" for A ds to_land pl'
      using that Deduped by (auto simp: planned_def)
    show ?thesis unfolding plan_group.simps Deduped payload.case
      by (rule wp_mono [OF Cons.IH [OF Cons.prems(1) tail]]) (use sub in blast)+
  next
    case (Staged st)
    let ?q = "sg_temp_path st" and ?g = "g\<lparr>gh_temps := (gh_temps g)(sg_temp_path st := None)\<rparr>"
    have qT: "?q \<in> dom (gh_temps g)" using Cons.prems(2) Staged by (auto simp: entries_ok_def entry_ok_def)
    have dir: "butlast ?q = wr_tmp (writer_of E)" using U(7) qT by (auto simp: cas_inv_def intro: temp_dir)
    have es: "entries_ok (en_params E) (gh_temps ?g) es" by (rule entries_ok_drop [OF Cons.prems(2) Staged])
    show ?thesis
    proof (cases "is_live live e \<or> pl (be_id e) \<noteq> None")
      case True
      have sub: "planned pl (e # es) (insert ?q A) ds to_land pl'" if "planned pl es A ds to_land pl'" for A ds to_land pl'
        using that Staged by (auto simp: planned_def)
      have T: "gh_temps ?g |` (- A) = gh_temps g |` (- insert ?q A)" for A by (auto simp: fun_eq_iff restrict_map_def)
      have G: "?g\<lparr>gh_temps := B\<rparr> = g\<lparr>gh_temps := B\<rparr>" for B by simp
      show ?thesis unfolding plan_group.simps Staged payload.case if_P [OF True]
      proof (rule wp_seq [OF discard_files [OF Cons.prems(1) dir refl]])
        fix x v assume v: "files_only s ?g v \<and> grows (en_params E) (cfil u) (cfil v)"
        have "wp (plan_group E live es pl)
          (\<lambda>(to_land, pl') u'. \<exists>A ds. planned pl es A ds to_land pl' \<and>
             files_only s (?g\<lparr>gh_temps := gh_temps ?g |` (- A)\<rparr>) u' \<and> entries_ok (en_params E) (gh_temps ?g |` (- A)) ds \<and>
             grows (en_params E) (cfil v) (cfil u')) (\<lambda>_ _. False) v"
          by (rule Cons.IH [OF _ es]) (use v in blast)
        then show "wp (plan_group E live es pl)
          (\<lambda>(to_land, pl') u'. \<exists>A ds. planned pl (e # es) A ds to_land pl' \<and>
             files_only s (g\<lparr>gh_temps := gh_temps g |` (- A)\<rparr>) u' \<and> entries_ok (en_params E) (gh_temps g |` (- A)) ds \<and>
             grows (en_params E) (cfil u) (cfil u')) (\<lambda>_ _. False) v"
          unfolding T G using sub v by (elim wp_mono) (blast intro: grows_trans)+
      qed
    next
      case False
      have e: "entry_ok (en_params E) (gh_temps g) e" "?q \<notin> set (staged_paths es)"
        using Cons.prems(2) Staged by (auto simp: entries_ok_def)
      have sub: "planned pl (e # es) A (e # ds) (st # to_land) pl' \<and> entries_ok (en_params E) (gh_temps g |` (- A)) (e # ds)"
        if p: "planned (pl(be_id e \<mapsto> sg_depth st)) es A ds to_land pl'" "entries_ok (en_params E) (gh_temps g |` (- A)) ds" for A ds to_land pl'
      proof
        show "planned pl (e # es) A (e # ds) (st # to_land) pl'"
          unfolding planned_def
        proof (intro conjI allI impI)
          fix i d assume d: "pl' i = Some d"
          show "pl i = Some d \<or> (\<exists>e' \<in> set (e # ds). \<exists>st. be_payload e' = Staged st \<and> be_id e' = i \<and> d = sg_depth st)"
          proof (cases "i = be_id e \<and> d = sg_depth st")
            case True
            with Staged show ?thesis by auto
          next
            case False
            have "(pl(be_id e \<mapsto> sg_depth st)) i = Some d \<or> (\<exists>e \<in> set ds. \<exists>st. be_payload e = Staged st \<and> be_id e = i \<and> d = sg_depth st)"
              using p(1) d unfolding planned_def by blast
            with False show ?thesis by (auto split: if_splits)
          qed
        qed (use p(1) Staged in \<open>auto simp: planned_def List.map_filter_simps staged_of_def is_deduped_def\<close>)
        have "?q \<notin> A" "?q \<notin> set (staged_paths ds)" using p(1) e(2) by (auto simp: planned_def)
        moreover from this have "entry_ok (en_params E) (gh_temps g |` (- A)) e"
          by (intro entry_ok_temps [OF e(1)]) (use Staged in auto)
        ultimately show "entries_ok (en_params E) (gh_temps g |` (- A)) (e # ds)"
          using p(2) Staged by (simp add: entries_ok_def)
      qed
      show ?thesis unfolding plan_group.simps Staged payload.case if_not_P [OF False] wp_bindM
      proof (rule wp_mono [OF Cons.IH [OF Cons.prems(1) tail]], goal_cases)
        case (1 x w)
        obtain to_land pl' where x: "x = (to_land, pl')" by (cases x)
        from 1 show ?case unfolding x prod.case wp_ret by (elim exE conjE) (use sub in blast)
      qed
    qed
  qed
qed

lemma replay_members:
  assumes ok: "cas_ok g u" and room: "length (occ_list (accepted ms)) \<le> gh_room g"
    and ms: "recordable (en_params E) (scont (cs_sh u)) (cfil u) (accepted ms)" and rf: "refusals_ok ms"
  shows "wp (forM ms (\<lambda>(es, refused). case refused of Some e \<Rightarrow> ret (Inl e) | None \<Rightarrow> outcome_of (replay_alone E es)))
    (\<lambda>outs u'. length outs = length ms \<and> sound outs \<and> blocks_only u u' \<and>
       cas_ok (g\<lparr>gh_room := gh_room g - length (occ_list (accepted ms)),
         gh_refs := add_refs (gh_refs g) (occ_list (granted (zip ms outs)))\<rparr>) u')
    (\<lambda>_ _. False) u"
proof -
  let ?h = "\<lambda>done. g\<lparr>gh_room := gh_room g - length (occ_list (accepted (map fst done))),
    gh_refs := add_refs (gh_refs g) (occ_list (granted done))\<rparr>"
  let ?I = "\<lambda>done v. sound (map snd done) \<and> blocks_only u v \<and> kept u v \<and> cas_ok (?h done) v"
  have "wp (forM ms (\<lambda>(es, refused). case refused of Some e \<Rightarrow> ret (Inl e) | None \<Rightarrow> outcome_of (replay_alone E es)))
      (\<lambda>outs v. ?I (zip ms outs) v \<and> length outs = length ms) (\<lambda>_ _. False) u"
  proof (rule wp_forM_rel, goal_cases)
    case 1
    then show ?case using ok by (simp add: kept_def sound_def)
  next
    case (2 m "done" rest v)
    obtain es refused where m: "m = (es, refused)" by (cases m)
    have v: "blocks_only u v" "kept u v" "cas_ok (?h done) v" and so: "sound (map snd done)" using 2 by blast+
    show ?case
    proof (cases refused)
      case (Some e)
      have "no_panic e" using rf unfolding 2(1) by (simp add: refusals_ok_def m Some)
      then show ?thesis unfolding m Some prod.case option.case wp_ret using v so by (auto simp: sound_def)
    next
      case None
      have occ: "length (occ_list (accepted ms)) =
          length (occ_list (accepted (map fst done))) + length (occ_list es) + length (occ_list (accepted rest))"
        unfolding 2(1) by (simp add: m None)
      have es: "recordable (en_params E) (scont (cs_sh v)) (cfil v) es"
        using ms v(2) unfolding 2(1) by (auto simp: m None kept_def)
      have W: "wp (replay_alone E es)
          (\<lambda>out w. cas_ok (with_refs (?h done) (occ_list es)) w \<and> blocks_only v w \<and> kept v w)
          (\<lambda>e w. no_panic e \<and> cas_ok ((?h done)\<lparr>gh_room := gh_room (?h done) - length (occ_list es)\<rparr>) w \<and> blocks_only v w \<and> kept v w) v"
        unfolding replay_alone_def
        by (rule wp_mono [OF commit_records_blocks [OF v(3) _ es]]) (use room occ in auto)
      have R: "with_refs (?h done) (occ_list es) = ?h (done @ [((es, None), Inr out)])" for out
        by (simp add: add_refs_append)
      have L: "(?h done)\<lparr>gh_room := gh_room (?h done) - length (occ_list es)\<rparr> = ?h (done @ [((es, None), Inl e)])" for e
        by simp
      show ?thesis unfolding m None prod.case option.case outcome_of_def wp_bindM wp_tryM
      proof (rule wp_mono [OF W])
        fix out w assume w: "cas_ok (with_refs (?h done) (occ_list es)) w \<and> blocks_only v w \<and> kept v w"
        have "sound (map snd (done @ [((es, None), Inr out)]))" using so by (simp add: sound_def)
        then have "?I (done @ [((es, None), Inr out)]) w"
          using w v blocks_only_trans kept_trans unfolding R [of out] by blast
        then show "wp (case Inr out of Inl (CPanic p) \<Rightarrow> raise (CPanic p) | _ \<Rightarrow> ret (Inr out))
            (\<lambda>y. ?I (done @ [((es, None), y)])) (\<lambda>_ _. False) w" by simp
      next
        fix e w assume w: "no_panic e \<and> cas_ok ((?h done)\<lparr>gh_room := gh_room (?h done) - length (occ_list es)\<rparr>) w \<and>
          blocks_only v w \<and> kept v w"
        have "sound (map snd (done @ [((es, None), Inl e)]))" using so w by (auto simp: sound_def)
        then have "?I (done @ [((es, None), Inl e)]) w"
          using w v blocks_only_trans kept_trans unfolding L [of e] by blast
        then show "wp (case Inl e of Inl (CPanic p) \<Rightarrow> raise (CPanic p) | _ \<Rightarrow> ret (Inl e))
            (\<lambda>y. ?I (done @ [((es, None), y)])) (\<lambda>_ _. False) w"
          using w by (cases e) (simp_all add: no_panic_def)
      qed
    qed
  qed
  then show ?thesis
  proof (rule wp_mono)
    fix outs v assume "?I (zip ms outs) v \<and> length outs = length ms"
    moreover from this have "map fst (zip ms outs) = ms" "map snd (zip ms outs) = outs" by (simp_all add: map_fst_zip map_snd_zip)
    ultimately show "length outs = length ms \<and> sound outs \<and> blocks_only u v \<and>
       cas_ok (g\<lparr>gh_room := gh_room g - length (occ_list (accepted ms)),
         gh_refs := add_refs (gh_refs g) (occ_list (granted (zip ms outs)))\<rparr>) v" by metis
  qed
qed

lemma finish_group_spec:
  assumes ok: "cas_ok g u" and room: "2 * length (occ_list (accepted ms)) \<le> gh_room g"
    and ms: "recordable (en_params E) (scont (cs_sh u)) (cfil u) (accepted ms)" and rf: "refusals_ok ms"
  shows "wp (finish_group E ms)
    (\<lambda>outs u'. length outs = length ms \<and> sound outs \<and> blocks_only u u' \<and>
       cas_ok (g\<lparr>gh_room := gh_room g - 2 * length (occ_list (accepted ms)),
         gh_refs := add_refs (gh_refs g) (occ_list (granted (zip ms outs)))\<rparr>) u')
    (\<lambda>_ _. False) u"
proof -
  note U = cas_okD [OF ok]
  let ?n = "length (occ_list (accepted ms))"
  have le: "?n \<le> gh_room g" using room by simp
  show ?thesis unfolding finish_group_def wp_bindM wp_zoom
  proof (rule wp_mono [OF sh.group_transaction_spec [OF U(4,5,7) le ms]])
    fix r :: "flush_outcome list option" and t assume r: "sinv t \<and> \<not> stx t \<and> (case r of
        Some outs \<Rightarrow> recorded (en_params E) g (ncont (cs_ns u)) (cfil u) (bs_nonce (cs_bs u)) (scont (cs_sh u)) (occ_list (accepted ms)) (scont t) \<and>
          length outs = length ms
      | None \<Rightarrow> scont t = scont (cs_sh u) \<or>
          recorded (en_params E) g (ncont (cs_ns u)) (cfil u) (bs_nonce (cs_bs u)) (scont (cs_sh u)) (occ_list (accepted ms)) (scont t))"
    let ?u = "u\<lparr>cs_sh := t\<rparr>"
    show "wp (case r of
        Some outs \<Rightarrow> ret (map (\<lambda>((_, refused), out). case refused of Some e \<Rightarrow> Inl e | None \<Rightarrow> Inr out) (zip ms outs))
      | None \<Rightarrow> forM ms (\<lambda>(es, refused). case refused of Some e \<Rightarrow> ret (Inl e) | None \<Rightarrow> outcome_of (replay_alone E es)))
      (\<lambda>outs u'. length outs = length ms \<and> sound outs \<and> blocks_only u u' \<and>
         cas_ok (g\<lparr>gh_room := gh_room g - 2 * ?n, gh_refs := add_refs (gh_refs g) (occ_list (granted (zip ms outs)))\<rparr>) u')
      (\<lambda>_ _. False) ?u"
    proof (cases r)
      case (Some outs)
      with r have R: "recorded (en_params E) g (ncont (cs_ns u)) (cfil u) (bs_nonce (cs_bs u)) (scont (cs_sh u)) (occ_list (accepted ms)) (scont t)"
        and len: "length outs = length ms" by simp_all
      note S = recorded_state [OF ok conjunct1 [OF r] conjunct1 [OF conjunct2 [OF r]] R]
      have "cas_ok (g\<lparr>gh_room := gh_room g - 2 * ?n, gh_refs := add_refs (gh_refs g) (occ_list (accepted ms))\<rparr>) ?u"
        using S(1) by (rule cas_ok_weaken) simp_all
      then show ?thesis using S(2) len granted_accepted [OF len] sound_map [OF rf len] by (simp add: Some)
    next
      case None
      with r have R: "scont t = scont (cs_sh u) \<or>
          recorded (en_params E) g (ncont (cs_ns u)) (cfil u) (bs_nonce (cs_bs u)) (scont (cs_sh u)) (occ_list (accepted ms)) (scont t)" by simp
      note S = maybe_recorded_state [OF ok conjunct1 [OF r] conjunct1 [OF conjunct2 [OF r]] R]
      have ms': "recordable (en_params E) (scont (cs_sh ?u)) (cfil ?u) (accepted ms)"
        using ms S(3) by (auto simp: kept_def)
      have N: "gh_room g - ?n - ?n = gh_room g - 2 * ?n" by simp
      show ?thesis unfolding None option.case
        by (rule wp_mono [OF replay_members [OF S(1) _ ms' rf]]) (use room S(2) N blocks_only_trans in auto)
    qed
  qed simp
qed

abbreviation closed_twice :: "ghost \<Rightarrow> batch_entry list \<Rightarrow> ghost" where
  "closed_twice g es \<equiv> g\<lparr>gh_nonces := gh_nonces g - length (filter is_deduped es),
     gh_temps := gh_temps g |` (- set (staged_paths es)), gh_room := gh_room g - 2 * length (occ_list es)\<rparr>"

lemma close_group_spec:
  assumes ok: "cas_ok g s" and es: "entries_ok (en_params E) (gh_temps g) (concat ms)"
    and room: "2 * length (occ_list (concat ms)) \<le> gh_room g" and n: "length (filter is_deduped (concat ms)) \<le> gh_nonces g"
  shows "wp (close_group E ms)
    (\<lambda>outs u. length outs = length ms \<and> sound outs \<and> blocks_only s u \<and>
       cas_ok ((closed_twice g (concat ms))\<lparr>gh_refs := add_refs (gh_refs g) (occ_list (shares ms outs))\<rparr>) u)
    (\<lambda>_ _. False) s"
    (is "wp _ ?Q _ s")
proof -
  let ?P = "en_params E" and ?c = "scont (cs_sh s)"
  have A: "wp (read_live E (concat ms) Map.empty)
      (\<lambda>live u. files_only s g u \<and> (\<forall>i. live i = Some True \<longrightarrow> live_rec ?c i)) (\<lambda>_ _. False) s"
    by (rule wp_mono [OF read_live_spec [OF files_only_start [OF ok]]]) auto
  have B: "wp (rewrite_members E live ms Map.empty)
      (\<lambda>(ms', pl) u. files_only s (less_nonces g (concat ms)) u \<and> list_all2 (list_all2 redepth) ms ms' \<and> pl_ok ?P (cfil u) pl)
      (\<lambda>_ _. False) u" if "files_only s g u" for live u
    by (rule rewrite_members_spec [OF that _ n]) (use es in \<open>simp_all add: entries_ok_def pl_ok_def\<close>)
  have CD: "wp (bindM (plan_group E live (concat ms') pl) (\<lambda>(to_land, pl).
    bindM (tryM (on_bs (land_batch (en_disk E) (writer_of E) to_land))) (\<lambda>r. case r of
      Inl e \<Rightarrow> ret (map (\<lambda>_. Inl (landing_error e)) ms')
    | Inr _ \<Rightarrow>
        finish_group E (map (\<lambda>es. (map (settle_entry live pl) es, member_refused live pl es)) ms')))) ?Q (\<lambda>_ _. False) u"
    if u: "files_only s (less_nonces g (concat ms)) u" "list_all2 (list_all2 redepth) ms ms'" "pl_ok ?P (cfil u) pl"
      and live: "\<forall>i. live i = Some True \<longrightarrow> live_rec ?c i" for u ms' pl live
  proof -
    have "list_all2 redepth (concat ms) (concat ms')"
      using u(2) by (induction rule: list_all2_induct) (auto intro: list_all2_appendI)
    note same = redepth_list [OF this]
    have es': "entries_ok ?P (gh_temps (less_nonces g (concat ms))) (concat ms')" using es same(3) by simp
    have len: "length ms' = length ms" using u(2) by (simp add: list_all2_lengthD)
    let ?g3 = "(less_nonces g (concat ms))\<lparr>gh_temps := gh_temps g |` (- set (staged_paths (concat ms)))\<rparr>"
    have land: "wp (on_bs (land_batch (en_disk E) (writer_of E) to_land))
        (\<lambda>_ w. files_only s ?g3 w \<and> pl_ok ?P (cfil w) pl') (\<lambda>e w. no_panic e \<and> files_only s ?g3 w) v"
      if v: "planned pl (concat ms') A ds to_land pl'"
        "files_only s ((less_nonces g (concat ms))\<lparr>gh_temps := gh_temps g |` (- A)\<rparr>) v"
        "entries_ok ?P (gh_temps g |` (- A)) ds" "grows ?P (cfil u) (cfil v)" for to_land pl' A ds v
    proof -
      let ?g2 = "(less_nonces g (concat ms))\<lparr>gh_temps := gh_temps g |` (- A)\<rparr>"
      have tl: "to_land = List.map_filter staged_of ds" and st: "\<forall>e \<in> set ds. \<not> is_deduped e"
        and AA: "A \<union> set (staged_paths ds) = set (staged_paths (concat ms))"
        using v(1) same(2) by (simp_all add: planned_def)
      have T: "?g2\<lparr>gh_temps := gh_temps ?g2 |` (- set (staged_paths ds))\<rparr> = ?g3"
        using AA by (simp add: Int_commute flip: Compl_Un)
      have ds: "entries_ok ?P (gh_temps ?g2) ds" using v(3) by simp
      show ?thesis unfolding tl
      proof (rule wp_mono [OF land_batch_files [OF v(2) ds st, unfolded T]])
        fix x w assume w: "files_only s ?g3 w \<and>
          (\<forall>e \<in> set ds. \<forall>st. be_payload e = Staged st \<longrightarrow> at_depth ?P (cfil w) (be_id e) (sg_depth st)) \<and> grows ?P (cfil v) (cfil w)"
        have gr: "grows ?P (cfil u) (cfil w)" using v(4) w grows_trans by blast
        have "pl_ok ?P (cfil w) pl'" unfolding pl_ok_def
        proof (intro allI impI)
          fix i d assume "pl' i = Some d"
          then have "pl i = Some d \<or> (\<exists>e \<in> set ds. \<exists>st. be_payload e = Staged st \<and> be_id e = i \<and> d = sg_depth st)"
            using v(1) by (simp add: planned_def)
          then show "wf_block_id i \<and> at_depth ?P (cfil w) i d"
          proof
            assume "pl i = Some d"
            then show ?thesis using pl_ok_grows [OF u(3) gr] by (simp add: pl_ok_def)
          next
            assume "\<exists>e \<in> set ds. \<exists>st. be_payload e = Staged st \<and> be_id e = i \<and> d = sg_depth st"
            then show ?thesis using w v(3) by (auto simp: entries_ok_def entry_ok_def)
          qed
        qed
        with w show "files_only s ?g3 w \<and> pl_ok ?P (cfil w) pl'" by blast
      qed simp
    qed
    have fail: "?Q (map (\<lambda>_. Inl (landing_error e)) ms') w" if w: "no_panic e \<and> files_only s ?g3 w" for e w
    proof -
      have np: "no_panic (landing_error e)" using w by (cases e) (auto simp: landing_error_def no_panic_def)
      have "cas_ok (closed_twice g (concat ms)) w" by (rule cas_ok_weaken [OF files_only_ok [OF conjunct2 [OF w]]]) simp_all
      then show ?thesis using files_only_blocks [OF conjunct2 [OF w]] len np by (auto simp: shares_failed sound_def)
    qed
    have fin: "wp (finish_group E (map (\<lambda>es. (map (settle_entry live pl') es, member_refused live pl' es)) ms')) ?Q (\<lambda>_ _. False) w"
      if w: "files_only s ?g3 w" "pl_ok ?P (cfil w) pl'" for w pl'
    proof -
      let ?ms = "map (\<lambda>es. (map (settle_entry live pl') es, member_refused live pl' es)) ms'"
      have c: "scont (cs_sh w) = ?c" using w(1) by (simp add: files_only_def)
      have R: "recordable ?P (scont (cs_sh w)) (cfil w) (accepted ?ms)"
        unfolding c by (rule settled_recordable [OF w(2) live, of _ "gh_temps g"]) (use es' in \<open>simp add: entries_ok_def\<close>)
      have occ: "length (occ_list (accepted ?ms)) \<le> length (occ_list (concat ms))"
        using accepted_less [of live pl' ms'] same(1) by simp
      show ?thesis
      proof (rule wp_mono [OF finish_group_spec [OF files_only_ok [OF w(1)] _ R refusals_settled]])
        show "2 * length (occ_list (accepted ?ms)) \<le> gh_room ?g3" using occ room by simp
        fix outs v assume v: "length outs = length ?ms \<and> sound outs \<and> blocks_only w v \<and>
          cas_ok (?g3\<lparr>gh_room := gh_room ?g3 - 2 * length (occ_list (accepted ?ms)),
            gh_refs := add_refs (gh_refs ?g3) (occ_list (granted (zip ?ms outs)))\<rparr>) v"
        have sh: "occ_list (granted (zip ?ms outs)) = occ_list (shares ms outs)"
          by (rule granted_shares [OF u(2)]) (use v in simp)
        have "cas_ok ((closed_twice g (concat ms))\<lparr>gh_refs := add_refs (gh_refs g) (occ_list (shares ms outs))\<rparr>) v"
          by (rule cas_ok_weaken [OF conjunct2 [OF conjunct2 [OF conjunct2 [OF v]]]]) (use occ sh in simp_all)
        then show "?Q outs v" using v len blocks_only_trans [OF files_only_blocks [OF w(1)]] by simp
      qed simp
    qed
    show ?thesis
    proof (rule wp_seq [OF plan_group_spec [OF u(1) es']], clarify)
      fix to_land pl' v A ds
      assume p: "planned pl (concat ms') A ds to_land pl'"
        and v: "files_only s ((less_nonces g (concat ms))\<lparr>gh_temps := gh_temps (less_nonces g (concat ms)) |` (- A)\<rparr>) v"
          "entries_ok ?P (gh_temps (less_nonces g (concat ms)) |` (- A)) ds" "grows ?P (cfil u) (cfil v)"
      have v': "files_only s ((less_nonces g (concat ms))\<lparr>gh_temps := gh_temps g |` (- A)\<rparr>) v"
          "entries_ok ?P (gh_temps g |` (- A)) ds" using v by simp_all
      show "wp (bindM (tryM (on_bs (land_batch (en_disk E) (writer_of E) to_land))) (\<lambda>r. case r of
          Inl e \<Rightarrow> ret (map (\<lambda>_. Inl (landing_error e)) ms')
        | Inr _ \<Rightarrow> finish_group E (map (\<lambda>es. (map (settle_entry live pl') es, member_refused live pl' es)) ms'))) ?Q (\<lambda>_ _. False) v"
        unfolding wp_bindM wp_tryM sum.case
      proof (rule wp_mono [OF land [OF p v' v(3)]], goal_cases)
        case (1 x w)
        then show ?case using fin by blast
      next
        case (2 e w)
        then show ?case unfolding wp_ret by (rule fail)
      qed
    qed
  qed
  show ?thesis unfolding close_group_def
  proof (rule wp_seq [OF A], elim conjE, rule wp_seq [OF B], assumption, clarify)
    fix live u ms' pl v
    assume "\<forall>i. live i = Some True \<longrightarrow> live_rec ?c i" "files_only s (less_nonces g (concat ms)) v"
      "list_all2 (list_all2 redepth) ms ms'" "pl_ok ?P (cfil v) pl"
    then show "wp (bindM (plan_group E live (concat ms') pl) (\<lambda>(to_land, pl).
      bindM (tryM (on_bs (land_batch (en_disk E) (writer_of E) to_land))) (\<lambda>r. case r of
        Inl e \<Rightarrow> ret (map (\<lambda>_. Inl (landing_error e)) ms')
      | Inr _ \<Rightarrow>
          finish_group E (map (\<lambda>es. (map (settle_entry live pl) es, member_refused live pl es)) ms')))) ?Q (\<lambda>_ _. False) v"
      by (intro CD)
  qed
qed

lemma station_close_spec:
  assumes ok: "cas_ok g s" and es: "entries_ok (en_params E) (gh_temps g) es"
    and room: "2 * length (occ_list es) \<le> gh_room g" and n: "length (filter is_deduped es) \<le> gh_nonces g"
  shows "wp (station_close E es)
    (\<lambda>_ u. cas_ok ((closed_twice g es)\<lparr>gh_refs := add_refs (gh_refs g) (occ_list es)\<rparr>) u \<and> blocks_only s u)
    (\<lambda>e u. no_panic e \<and> cas_ok (closed_twice g es) u \<and> blocks_only s u) s"
  unfolding station_close_def wp_bindM wp_mapE
proof (rule wp_mono [OF close_group_spec [OF ok, of "[es]"]])
  fix outs u assume u: "length outs = length [es] \<and> sound outs \<and> blocks_only s u \<and>
    cas_ok ((closed_twice g (concat [es]))\<lparr>gh_refs := add_refs (gh_refs g) (occ_list (shares [es] outs))\<rparr>) u"
  then obtain r where "outs = [r]" by (cases outs) auto
  with u show "wp (case outs of r # _ \<Rightarrow> liftE r
      | [] \<Rightarrow> raise (CIo (IoError OtherKind ''the commit station dropped a batch without an outcome'')))
    (\<lambda>_ u. cas_ok ((closed_twice g es)\<lparr>gh_refs := add_refs (gh_refs g) (occ_list es)\<rparr>) u \<and> blocks_only s u)
    (\<lambda>e u. no_panic e \<and> cas_ok (closed_twice g es) u \<and> blocks_only s u) u"
    by (cases r) (simp_all add: sound_def)
qed (use es room n in simp_all)

end

end
