(* ===== verification/ObjectPath.thy ===== *)
theory ObjectPath
  imports GroupCommit
begin

section \<open>Storing an object\<close>

text \<open>
  \<open>cas/write_path.rs\<close>: flushing a request's batches, the loop over the request's blocks, and the object
  record written at the end. \<open>replace_object_record\<close> is one transaction, hence one step of the store.
\<close>

subsection \<open>The code\<close>

text \<open>The branch on a configured commit station.\<close>

definition close_entries :: "('n, 's, 'd) env \<Rightarrow> batch_entry list \<Rightarrow> ('n, 's, 'd, flush_outcome) cas_act" where
  "close_entries E es = (if cp_group_commit (en_params E) then station_close E es else close_alone E es)"

definition flush_batch :: "('n, 's, 'd) env \<Rightarrow> block_batch \<Rightarrow> ('n, 's, 'd, block_batch) cas_act" where
  "flush_batch E batch =
    (if bb_entries batch = [] then ret batch
     else
       let (es, batch) = take_entries batch in
       bindM (orElse (on_bs (sync_batch (en_disk E) (writer_of E) (staged_paths es)))
         (\<lambda>e. bindM (abandon E es) (\<lambda>_. raise e))) (\<lambda>_.
       bindM (close_entries E es) (\<lambda>_. ret batch)))"

subsection \<open>Objects\<close>

text \<open>The loop of \<open>store_object\<close>: the batch, the bytes hashed so far, their number and the block list. The
  frames of the incoming stream are a list, as in the model of \<open>BufferedByteStream\<close>.\<close>

record storing =
  so_batch :: block_batch
  so_content :: bytes
  so_size :: u64
  so_blocks :: "block_id list"

fun store_blocks :: "('n, 's, 'd) env \<Rightarrow> bytes list \<Rightarrow> storing \<Rightarrow> ('n, 's, 'd, storing) cas_act" where
  "store_blocks E [] st = ret st"
| "store_blocks E (bs # rest) st =
    (let i = block_hash (en_params E) bs;
         st' = st\<lparr>so_content := so_content st @ bs, so_size := so_size st + of_nat (length bs),
                 so_blocks := so_blocks st @ [i]\<rparr> in
     bindM (orElse (accumulate E (so_batch st) i bs)
       (\<lambda>e. case e of CPanic _ \<Rightarrow> raise e | _ \<Rightarrow> bindM (abandon E (bb_entries (so_batch st))) (\<lambda>_. raise e))) (\<lambda>batch.
     bindM (if is_full batch then flush_batch E batch else ret batch) (\<lambda>batch.
       store_blocks E rest (st'\<lparr>so_batch := batch\<rparr>))))"

fun store_items :: "('n, 's, 'd) env \<Rightarrow> (io_error + bytes list) list \<Rightarrow> storing \<Rightarrow> ('n, 's, 'd, storing) cas_act" where
  "store_items E [] st = ret st"
| "store_items E (Inl e # items) st = bindM (abandon E (bb_entries (so_batch st))) (\<lambda>_. raise (CIo e))"
| "store_items E (Inr bufs # items) st = bindM (store_blocks E bufs st) (store_items E items)"

definition store_object ::
  "('n, 's, 'd) env \<Rightarrow> (io_error + bytes) list \<Rightarrow> ('n, 's, 'd, block_id list \<times> bytes \<times> u64) cas_act" where
  "store_object E frames =
    bindM (store_items E (stream_items (bstream_new frames))
      \<lparr>so_batch = batch_new (cp_max_blocks (en_params E)), so_content = [], so_size = 0, so_blocks = []\<rparr>) (\<lambda>st.
    bindM (flush_batch E (so_batch st)) (\<lambda>_.
      ret (so_blocks st, cp_md5 (en_params E) (so_content st), so_size st)))"

definition replace_object_record ::
  "'n store_ops \<Rightarrow> string \<Rightarrow> bytes \<Rightarrow> bytes \<Rightarrow> u64 \<Rightarrow> ('n, meta_error, object option) act" where
  "replace_object_record S bucket key raw_obj sz =
    bindM (begin_transaction S) (\<lambda>_.
    bindM (or_rollback S
      (bindM (replace_object S bucket key raw_obj) (\<lambda>displaced.
         let previous = (case displaced of None \<Rightarrow> 0 | Some ob \<Rightarrow> obj_size ob);
             delta = sz - previous in
         bindM (add_bucket_usage S bucket delta) (\<lambda>_. ret displaced)))) (\<lambda>displaced.
    bindM (tx_commit S) (\<lambda>_. ret displaced)))"

definition create_object_meta ::
  "('n, 's, 'd) env \<Rightarrow> i64 \<Rightarrow> string \<Rightarrow> bytes \<Rightarrow> u64 \<Rightarrow> bytes \<Rightarrow> object_data \<Rightarrow> ('n, 's, 'd, object) cas_act" where
  "create_object_meta E now bucket key sz hash data =
    (let obj = object_new now sz hash data in
     bindM (on_ns (replace_object_record (en_ns E) bucket key (object_to_vec obj) sz)) (\<lambda>displaced.
     bindM (case displaced of
         Some old \<Rightarrow> if object_blocks old \<noteq> [] then release_blocks E (object_blocks old) else ret ()
       | None \<Rightarrow> ret ()) (\<lambda>_. ret obj)))"

definition unwrap_error :: "cas_error \<Rightarrow> cas_error" where
  "unwrap_error e = (case e of CMeta _ \<Rightarrow> CPanic ''called Result::unwrap() on an Err value'' | _ \<Rightarrow> e)"

definition store_single_object_and_meta ::
  "('n, 's, 'd) env \<Rightarrow> i64 \<Rightarrow> string \<Rightarrow> bytes \<Rightarrow> (io_error + bytes) list \<Rightarrow> nat \<Rightarrow> ('n, 's, 'd, object) cas_act" where
  "store_single_object_and_meta E now bucket key frames len =
    bindM (if 0 < len then store_object E frames else ret ([], cp_md5 (en_params E) [], 0)) (\<lambda>(blocks, hash, sz).
      mapE unwrap_error (create_object_meta E now bucket key sz hash (SinglePart blocks)))"

definition store_inlined_object ::
  "('n, 's, 'd) env \<Rightarrow> i64 \<Rightarrow> string \<Rightarrow> bytes \<Rightarrow> bytes \<Rightarrow> ('n, 's, 'd, object) cas_act" where
  "store_inlined_object E now bucket key data =
    create_object_meta E now bucket key (of_nat (length data)) (cp_md5 (en_params E) data) (Inline data)"

subsection \<open>The batch of a request\<close>

text \<open>\<open>seen\<close> finds every entry by its id.\<close>

definition seen_ok :: "block_batch \<Rightarrow> bool" where
  "seen_ok b \<longleftrightarrow> (\<forall>i k. bb_seen b i = Some k \<longrightarrow> k < length (bb_entries b) \<and> be_id (bb_entries b ! k) = i)"

text \<open>
  A batch in the middle of a request. \<open>g\<^sub>0\<close> is the bookkeeping the request started with, \<open>k\<close> bounds the chunks
  still to come, \<open>bl\<close> is the block list so far: every occurrence in it is either counted or in the batch.
  \<open>r\<close> and \<open>m\<close> are the room and the temp names left for others.
\<close>

definition batch_ok ::
  "cas_params \<Rightarrow> ghost \<Rightarrow> nat \<Rightarrow> nat \<Rightarrow> nat \<Rightarrow> block_id list \<Rightarrow> ghost \<Rightarrow> block_batch \<Rightarrow> bool" where
  "batch_ok P g0 r m k bl g b \<longleftrightarrow> seen_ok b \<and> entries_ok P (gh_temps g) (bb_entries b) \<and>
     gh_degraded g = gh_degraded g0 \<and> gh_temps g0 \<subseteq>\<^sub>m gh_temps g \<and>
     dom (gh_temps g0) \<inter> set (staged_paths (bb_entries b)) = {} \<and>
     r + 2 * (k + length (occ_list (bb_entries b))) \<le> gh_room g \<and>
     m + k + length (filter is_deduped (bb_entries b)) \<le> gh_nonces g \<and>
     (\<exists>fl. gh_refs g = add_refs (gh_refs g0) fl \<and>
       (\<forall>h. count_list fl h + count_list (occ_list (bb_entries b)) h = count_list bl h))"

lemma batch_ok_fewer: "batch_ok P g0 r m k bl g b \<Longrightarrow> k' \<le> k \<Longrightarrow> batch_ok P g0 r m k' bl g b"
  by (auto simp: batch_ok_def)

lemma occ_list_bump:
  assumes "k < length es"
  shows "length (occ_list (es[k := (es ! k)\<lparr>be_occurrences := be_occurrences (es ! k) + 1\<rparr>])) = Suc (length (occ_list es))"
    "count_list (occ_list (es[k := (es ! k)\<lparr>be_occurrences := be_occurrences (es ! k) + 1\<rparr>])) h =
      count_list (occ_list es) h + (if be_id (es ! k) = h then 1 else 0)"
proof -
  have es: "es = take k es @ es ! k # drop (Suc k) es" using assms by (simp add: id_take_nth_drop)
  have up: "es[k := x] = take k es @ x # drop (Suc k) es" for x using assms by (simp add: upd_conv_take_nth_drop)
  show "length (occ_list (es[k := (es ! k)\<lparr>be_occurrences := be_occurrences (es ! k) + 1\<rparr>])) = Suc (length (occ_list es))"
    unfolding up by (subst (4) es) simp
  show "count_list (occ_list (es[k := (es ! k)\<lparr>be_occurrences := be_occurrences (es ! k) + 1\<rparr>])) h =
      count_list (occ_list es) h + (if be_id (es ! k) = h then 1 else 0)"
    unfolding up by (subst (4) es) simp
qed

lemma entry_ok_mono: "T \<subseteq>\<^sub>m T' \<Longrightarrow> entry_ok P T e \<Longrightarrow> entry_ok P T' e"
  by (auto simp: entry_ok_def map_le_def dom_def split: payload.splits)

lemma entry_ok_path: "entry_ok P T e \<Longrightarrow> be_payload e = Staged st \<Longrightarrow> sg_temp_path st \<in> dom T"
  by (auto simp: entry_ok_def)

lemma staged_paths_dom: "\<forall>e \<in> set es. entry_ok P T e \<Longrightarrow> set (staged_paths es) \<subseteq> dom T"
  by (induction es) (auto simp: entry_ok_def split: payload.splits)

lemma map_filter_upd: "k < length xs \<Longrightarrow> f x = f (xs ! k) \<Longrightarrow> List.map_filter f (xs[k := x]) = List.map_filter f xs"
proof (induction xs arbitrary: k)
  case (Cons a xs)
  show ?case
  proof (cases k)
    case (Suc j)
    then have "List.map_filter f (xs[j := x]) = List.map_filter f xs" using Cons.IH [of j] Cons.prems by simp
    then show ?thesis using Suc by (simp add: List.map_filter_simps split: option.split)
  qed (use Cons.prems in \<open>simp add: List.map_filter_simps\<close>)
qed simp

lemma filter_upd: "k < length xs \<Longrightarrow> p x = p (xs ! k) \<Longrightarrow> length (filter p (xs[k := x])) = length (filter p xs)"
  by (induction xs arbitrary: k) (auto split: nat.splits)

lemma add_occurrence_ok:
  assumes "batch_ok P g0 r m (Suc k) bl g b"
  shows "\<exists>hit b'. add_occurrence b i = Inr (hit, b') \<and>
    (if hit then batch_ok P g0 r m k (bl @ [i]) g b' else b' = b \<and> bb_seen b i = None)"
proof (cases "bb_seen b i")
  case None
  then show ?thesis by (intro exI [of _ False] exI [of _ b]) (simp add: add_occurrence_def)
next
  case (Some slot)
  let ?es = "bb_entries b" and ?e = "bb_entries b ! slot"
  let ?b = "b\<lparr>bb_entries := (bb_entries b)[slot := ?e\<lparr>be_occurrences := be_occurrences ?e + 1\<rparr>]\<rparr>"
  have slot: "slot < length ?es" "be_id ?e = i" using assms Some by (auto simp: batch_ok_def seen_ok_def)
  have sp: "staged_paths (bb_entries ?b) = staged_paths ?es"
    unfolding staged_paths_def using slot(1) by (simp add: map_filter_upd)
  have dd: "length (filter is_deduped (bb_entries ?b)) = length (filter is_deduped ?es)"
    using slot(1) by (simp add: filter_upd is_deduped_def)
  have e: "entry_ok P T (?e\<lparr>be_occurrences := be_occurrences ?e + 1\<rparr>)" if "entry_ok P T ?e" for T
    using that by (auto simp: entry_ok_def split: payload.splits)
  have all: "\<forall>e \<in> set (bb_entries ?b). entry_ok P (gh_temps g) e"
    using assms e nth_mem [OF slot(1)] by (auto simp: batch_ok_def entries_ok_def dest!: set_update_subset_insert [THEN subsetD])
  have seen: "seen_ok ?b" using assms slot unfolding batch_ok_def seen_ok_def by (auto simp: nth_list_update)
  obtain fl where fl: "gh_refs g = add_refs (gh_refs g0) fl" "\<forall>h. count_list fl h + count_list (occ_list ?es) h = count_list bl h"
    using assms by (auto simp: batch_ok_def)
  have "\<forall>h. count_list fl h + count_list (occ_list (bb_entries ?b)) h = count_list (bl @ [i]) h"
    using fl(2) occ_list_bump(2) [OF slot(1)] slot(2) by (simp add: add.assoc [symmetric])
  then have "batch_ok P g0 r m k (bl @ [i]) g ?b"
    using assms all seen sp dd occ_list_bump(1) [OF slot(1)] fl(1) unfolding batch_ok_def entries_ok_def by auto
  with Some slot show ?thesis by (intro exI [of _ True] exI [of _ ?b]) (simp add: add_occurrence_def Let_def)
qed

lemma push_ok:
  assumes b: "batch_ok P g0 r m (Suc k) bl g b" "bb_seen b (be_id e) = None"
    and e: "entry_ok P (gh_temps g') e" "be_occurrences e = 1"
    and g': "gh_degraded g' = gh_degraded g" "gh_refs g' = gh_refs g" "gh_room g' = gh_room g" "gh_temps g \<subseteq>\<^sub>m gh_temps g'"
      "gh_nonces g' = gh_nonces g - (if is_deduped e then 0 else 1)"
    and fresh: "\<And>st. be_payload e = Staged st \<Longrightarrow> sg_temp_path st \<notin> dom (gh_temps g)"
  shows "batch_ok P g0 r m k (bl @ [be_id e]) g' (push b e)"
proof -
  let ?es = "bb_entries b"
  have seen: "seen_ok (push b e)"
  proof -
    have "seen_ok b" using b(1) by (simp add: batch_ok_def)
    then have "k < length ?es \<and> be_id (?es ! k) = i" if "bb_seen b i = Some k" for i k using that unfolding seen_ok_def by blast
    then show ?thesis unfolding seen_ok_def push_def by (auto simp: nth_append less_Suc_eq split: if_splits)
  qed
  have sub: "gh_temps g0 \<subseteq>\<^sub>m gh_temps g" using b by (simp add: batch_ok_def)
  have dom: "set (staged_paths ?es) \<subseteq> dom (gh_temps g)" "dom (gh_temps g0) \<subseteq> dom (gh_temps g)"
    using b staged_paths_dom [of ?es P] map_le_implies_dom_le [OF sub] by (auto simp: batch_ok_def entries_ok_def)
  have "distinct (staged_paths (bb_entries (push b e)))"
    using b(1) fresh dom by (auto simp: batch_ok_def entries_ok_def push_def split: payload.splits)
  moreover have "\<forall>x \<in> set (bb_entries (push b e)). entry_ok P (gh_temps g') x"
    using b(1) e(1) entry_ok_mono [OF g'(4)] by (auto simp: batch_ok_def entries_ok_def push_def)
  ultimately have eok: "entries_ok P (gh_temps g') (bb_entries (push b e))" by (simp add: entries_ok_def)
  have "sg_temp_path st \<notin> dom (gh_temps g0)" if "be_payload e = Staged st" for st using fresh [OF that] dom by blast
  then have sep: "dom (gh_temps g0) \<inter> set (staged_paths (bb_entries (push b e))) = {}"
    using b(1) by (cases "be_payload e") (auto simp: batch_ok_def push_def)
  obtain fl where fl: "gh_refs g = add_refs (gh_refs g0) fl" "\<forall>h. count_list fl h + count_list (occ_list ?es) h = count_list bl h"
    using b by (auto simp: batch_ok_def)
  have cnt: "\<forall>h. count_list fl h + count_list (occ_list (bb_entries (push b e))) h = count_list (bl @ [be_id e]) h"
    using fl(2) e(2) by (simp add: push_def add.assoc [symmetric])
  have occ: "length (occ_list (bb_entries (push b e))) = Suc (length (occ_list ?es))"
    "length (filter is_deduped (bb_entries (push b e))) = length (filter is_deduped ?es) + (if is_deduped e then 1 else 0)"
    using e(2) by (simp_all add: push_def)
  show ?thesis unfolding batch_ok_def
    using seen eok sep g' fl(1) cnt occ b(1) map_le_trans [OF sub g'(4)] by (auto simp: batch_ok_def)
qed

lemma cas_inv_use:
  assumes "cas_inv P g nc sc f nonce" "f p = Some x" "p = wr_tmp (cp_writer P) @ [temp_name (cp_hex P) i n]" "n < nonce"
  shows "cas_inv P (g\<lparr>gh_temps := (gh_temps g)(p \<mapsto> x)\<rparr>) nc sc f nonce"
proof -
  have t: "temps_ok P f nonce (gh_temps g)" using assms(1) by (simp add: cas_inv_def)
  have "(gh_temps g)(p \<mapsto> x) \<subseteq>\<^sub>m f" using t assms(2) by (auto simp: temps_ok_def map_le_def)
  moreover have "\<exists>i n. q = wr_tmp (cp_writer P) @ [temp_name (cp_hex P) i n] \<and> n < nonce" if "q \<in> dom ((gh_temps g)(p \<mapsto> x))" for q
    using t that assms(3,4) by (cases "q = p") (auto simp: temps_ok_def)
  ultimately have "temps_ok P f nonce ((gh_temps g)(p \<mapsto> x))" unfolding temps_ok_def by blast
  with assms(1) show ?thesis by (simp add: cas_inv_def)
qed

definition bufs :: "(io_error + bytes list) list \<Rightarrow> bytes list" where
  "bufs items = concat (map (\<lambda>it. case it of Inr bs \<Rightarrow> bs | Inl _ \<Rightarrow> []) items)"

lemma bufs_simps [simp]: "bufs [] = []" "bufs (Inr bs # items) = bs @ bufs items" "bufs (Inl e # items) = bufs items"
  by (simp_all add: bufs_def)

lemma block_hash_wf: "params_ok P \<Longrightarrow> wf_block_id (block_hash P bs)"
  by (simp add: params_ok_def block_hash_def hasher_hash_wf)

context cas_contract
begin

lemma stage_block_files:
  assumes fo: "files_only s g u" and n: "0 < gh_nonces g"
  shows "wp (on_bs (stage_block (en_disk E) (hex_of E) (writer_of E) i d bs))
    (\<lambda>st u'. files_only s (g\<lparr>gh_nonces := gh_nonces g - 1, gh_temps := (gh_temps g)(sg_temp_path st \<mapsto> bs)\<rparr>) u' \<and>
       sg_depth st = d \<and> sg_final_path st = block_disk_path (hex_of E) i d (wr_root (writer_of E)) \<and>
       sg_temp_path st \<notin> dom (gh_temps g))
    (\<lambda>e u'. no_panic e \<and> files_only s (g\<lparr>gh_nonces := gh_nonces g - 1\<rparr>) u') u"
proof -
  note U = cas_okD [OF files_only_ok [OF fo]]
  let ?P = "en_params E" and ?p = "wr_tmp (writer_of E) @ [temp_name (hex_of E) i (bs_nonce (cs_bs u))]"
  have fresh: "?p \<notin> dom (gh_temps g)" using U(7) by (intro fresh_temp [OF U(1)]) (auto simp: cas_inv_def)
  have bound: "unat (bs_nonce (cs_bs u)) + gh_nonces g < 2 ^ 64" using U(7) by (simp add: cas_inv_def)
  have less: "bs_nonce (cs_bs u) < bs_nonce (cs_bs u) + 1"
    using bound n by (simp add: word_less_nat_alt unat_inc)
  have inv: "cas_inv ?P (g\<lparr>gh_nonces := gh_nonces g - 1\<rparr>) (ncont (cs_ns u)) (scont (cs_sh u)) (vis (bs_disk t)) (bs_nonce t)"
    if t: "\<And>q. q \<noteq> ?p \<Longrightarrow> vis (bs_disk t) q = cfil u q" "bs_nonce t = bs_nonce (cs_bs u) \<or> bs_nonce t = bs_nonce (cs_bs u) + 1" for t
  proof (rule cas_inv_nonce [OF _ n t(2)])
    have "vis (bs_disk t) = (cfil u)(?p := vis (bs_disk t) ?p)" using t(1) by auto
    moreover have "cas_inv ?P g (ncont (cs_ns u)) (scont (cs_sh u)) ((cfil u)(?p := vis (bs_disk t) ?p)) (bs_nonce (cs_bs u))"
      by (rule cas_inv_temp [OF U(1,7) _ fresh]) simp
    ultimately show "cas_inv ?P g (ncont (cs_ns u)) (scont (cs_sh u)) (vis (bs_disk t)) (bs_nonce (cs_bs u))" by simp
  qed
  show ?thesis unfolding wp_on_bs
  proof (rule wp_mono [OF stage_block_nonce [OF dk.stage_block_spec [OF U(6)]]], goal_cases)
    case (1 st t)
    then have t: "dinv (bs_disk t)" "vis (bs_disk t) = (cfil u)(?p \<mapsto> bs)" "bs_nonce t = bs_nonce (cs_bs u) + 1" "sg_temp_path st = ?p"
      by simp_all
    have "cas_inv ?P (g\<lparr>gh_nonces := gh_nonces g - 1\<rparr>) (ncont (cs_ns u)) (scont (cs_sh u)) (vis (bs_disk t)) (bs_nonce t)"
      by (rule inv) (simp_all add: t)
    then have "cas_inv ?P ((g\<lparr>gh_nonces := gh_nonces g - 1\<rparr>)\<lparr>gh_temps := (gh_temps (g\<lparr>gh_nonces := gh_nonces g - 1\<rparr>))(?p \<mapsto> bs)\<rparr>)
        (ncont (cs_ns u)) (scont (cs_sh u)) (vis (bs_disk t)) (bs_nonce t)"
      by (rule cas_inv_use [OF _ _ refl]) (simp_all add: t less)
    then show ?case using 1 files_only_bs [OF fo t(1)] fresh by (simp add: t)
  next
    case (2 e t)
    then have "cas_inv ?P (g\<lparr>gh_nonces := gh_nonces g - 1\<rparr>) (ncont (cs_ns u)) (scont (cs_sh u)) (vis (bs_disk t)) (bs_nonce t)"
      by (intro inv) blast+
    then show ?case using 2 files_only_bs [OF fo] by simp
  qed
qed

lemma resolve_chunk_spec:
  assumes ok: "cas_ok g u" and n: "0 < gh_nonces g" and known: "bs \<in> cp_known (en_params E)"
  shows "wp (resolve_chunk E (block_hash (en_params E) bs) bs)
    (\<lambda>p u'. blocks_only u u' \<and> (\<exists>g'. cas_ok g' u' \<and> entry_ok (en_params E) (gh_temps g') (new_entry (block_hash (en_params E) bs) (length bs) p) \<and>
       gh_degraded g' = gh_degraded g \<and> gh_refs g' = gh_refs g \<and> gh_room g' = gh_room g \<and> gh_temps g \<subseteq>\<^sub>m gh_temps g' \<and>
       (case p of Deduped _ \<Rightarrow> gh_nonces g' = gh_nonces g
        | Staged st \<Rightarrow> gh_nonces g' = gh_nonces g - 1 \<and> sg_temp_path st \<notin> dom (gh_temps g))))
    (\<lambda>e u'. no_panic e \<and> blocks_only u u' \<and> cas_ok (g\<lparr>gh_nonces := gh_nonces g - 1\<rparr>) u') u"
    (is "wp _ ?Q ?R u")
proof -
  let ?P = "en_params E" and ?i = "block_hash (en_params E) bs"
  note wfi = block_hash_wf [OF cas_okD(1) [OF ok], of bs]
  have err: "?R e v" if "no_panic e \<and> files_only u g v" for e v
    using that files_only_blocks cas_ok_weaken [OF files_only_ok, of u g v "g\<lparr>gh_nonces := gh_nonces g - 1\<rparr>"] by auto
  have A: "wp (has_live_record E ?i) (\<lambda>_ v. files_only u g v) ?R u"
    by (rule wp_mono [OF has_live_record_spec [OF files_only_start [OF ok]]]) (use err in auto)
  have B: "wp (on_bs (choose_depth (en_disk E) (hex_of E) (placement_of E) ?i)) (\<lambda>_ v. files_only u g v) ?R v" if "files_only u g v" for v
    by (rule wp_mono [OF choose_depth_files [OF that wfi]]) auto
  have C: "wp (on_bs (stage_block (en_disk E) (hex_of E) (writer_of E) ?i d bs)) (\<lambda>st. ?Q (Staged st)) ?R v"
    if v: "files_only u g v" for d v
  proof (rule wp_mono [OF stage_block_files [OF v n]])
    fix st :: staged_block and w assume w: "files_only u (g\<lparr>gh_nonces := gh_nonces g - 1, gh_temps := (gh_temps g)(sg_temp_path st \<mapsto> bs)\<rparr>) w \<and>
       sg_depth st = d \<and> sg_final_path st = block_disk_path (hex_of E) ?i d (wr_root (writer_of E)) \<and> sg_temp_path st \<notin> dom (gh_temps g)"
    let ?g = "g\<lparr>gh_nonces := gh_nonces g - 1, gh_temps := (gh_temps g)(sg_temp_path st \<mapsto> bs)\<rparr>"
    have "entry_ok ?P (gh_temps ?g) (new_entry ?i (length bs) (Staged st))"
      using w wfi known by (simp add: entry_ok_def new_entry_def is_block_def)
    moreover have "gh_temps g \<subseteq>\<^sub>m gh_temps ?g" using w by (auto simp: map_le_def)
    ultimately show "?Q (Staged st) w"
      using w files_only_ok files_only_blocks by (intro conjI exI [of _ ?g]) auto
  qed (use files_only_ok files_only_blocks in auto)
  show ?thesis unfolding resolve_chunk_def
  proof (rule wp_seq [OF A], rule if_cases)
    fix live v assume v: "files_only u g v"
    have "entry_ok ?P (gh_temps g) (new_entry ?i (length bs) (Deduped bs))"
      using wfi known by (simp add: entry_ok_def new_entry_def is_block_def)
    then show "wp (ret (Deduped bs)) ?Q ?R v"
      unfolding wp_ret using v files_only_ok files_only_blocks by (intro conjI exI [of _ g]) auto
    show "wp (bindM (on_bs (choose_depth (en_disk E) (hex_of E) (placement_of E) ?i)) (\<lambda>depth.
        bindM (on_bs (stage_block (en_disk E) (hex_of E) (writer_of E) ?i depth bs)) (\<lambda>st. ret (Staged st)))) ?Q ?R v"
      by (rule wp_seq [OF B [OF v]], rule wp_seq [OF C], assumption, simp)
  qed
qed

lemma accumulate_spec:
  assumes ok: "cas_ok g u" and b: "batch_ok (en_params E) g0 r m (Suc k) bl g b" and known: "bs \<in> cp_known (en_params E)"
  shows "wp (accumulate E b (block_hash (en_params E) bs) bs)
    (\<lambda>b' u'. blocks_only u u' \<and> (\<exists>g'. cas_ok g' u' \<and> batch_ok (en_params E) g0 r m k (bl @ [block_hash (en_params E) bs]) g' b'))
    (\<lambda>e u'. no_panic e \<and> blocks_only u u' \<and> (\<exists>g'. cas_ok g' u' \<and> batch_ok (en_params E) g0 r m k bl g' b)) u"
    (is "wp _ ?Q ?R u")
proof -
  let ?i = "block_hash (en_params E) bs"
  obtain hit b' where h: "add_occurrence b ?i = Inr (hit, b')"
    "if hit then batch_ok (en_params E) g0 r m k (bl @ [?i]) g b' else b' = b \<and> bb_seen b ?i = None"
    using add_occurrence_ok [OF b] by blast
  show ?thesis
  proof (cases hit)
    case True
    then show ?thesis unfolding accumulate_def wp_bindM wp_liftE h(1) using h(2) ok by auto
  next
    case False
    then have seen: "b' = b" "bb_seen b ?i = None" using h(2) by auto
    have n: "0 < gh_nonces g" using b by (simp add: batch_ok_def)
    have acc: "accumulate E b ?i bs = bindM (liftE (Inr (False, b))) (\<lambda>(hit, batch).
        if hit then ret batch else bindM (resolve_chunk E ?i bs) (\<lambda>p. ret (push batch (new_entry ?i (length bs) p))))"
      using h(1) seen False by (simp add: accumulate_def)
    show ?thesis unfolding acc wp_bindM wp_liftE sum.case prod.case if_False wp_ret_fun
    proof (rule wp_mono [OF resolve_chunk_spec [OF ok n known]], goal_cases)
      case (1 p v)
      then obtain g' where g': "blocks_only u v" "cas_ok g' v" "entry_ok (en_params E) (gh_temps g') (new_entry ?i (length bs) p)"
        "gh_degraded g' = gh_degraded g" "gh_refs g' = gh_refs g" "gh_room g' = gh_room g" "gh_temps g \<subseteq>\<^sub>m gh_temps g'"
        "case p of Deduped _ \<Rightarrow> gh_nonces g' = gh_nonces g
          | Staged st \<Rightarrow> gh_nonces g' = gh_nonces g - 1 \<and> sg_temp_path st \<notin> dom (gh_temps g)" by blast
      have "batch_ok (en_params E) g0 r m k (bl @ [be_id (new_entry ?i (length bs) p)]) g' (push b (new_entry ?i (length bs) p))"
        by (rule push_ok [OF b _ g'(3) _ g'(4-7)])
          (use g'(8) seen in \<open>auto simp: new_entry_def is_deduped_def split: payload.splits\<close>)
      then show ?case using g'(1,2) by (auto simp: new_entry_def)
    next
      case (2 e v)
      have "batch_ok (en_params E) g0 r m k bl (g\<lparr>gh_nonces := gh_nonces g - 1\<rparr>) b"
        using b by (auto simp: batch_ok_def)
      with 2 show ?case by blast
    qed
  qed
qed

abbreviation spent :: "ghost \<Rightarrow> nat \<Rightarrow> nat \<Rightarrow> ghost" where
  "spent g0 r m \<equiv> g0\<lparr>gh_room := r, gh_nonces := m\<rparr>"

lemma batch_ok_spent:
  assumes "cas_ok (g\<lparr>gh_temps := gh_temps g |` (- set (staged_paths (bb_entries b)))\<rparr>) u" "batch_ok (en_params E) g0 r m k bl g b"
  shows "cas_ok (spent g0 r m) u"
proof (rule cas_ok_weaken [OF assms(1)])
  show "gh_temps (spent g0 r m) \<subseteq>\<^sub>m gh_temps (g\<lparr>gh_temps := gh_temps g |` (- set (staged_paths (bb_entries b)))\<rparr>)"
    using assms(2) by (fastforce simp: batch_ok_def map_le_def restrict_map_def)
qed (use assms(2) in \<open>auto simp: batch_ok_def add_refs_def\<close>)

lemma abandon_spec:
  assumes "files_only s g u" "entries_ok (en_params E) (gh_temps g) es"
  shows "wp (abandon E es)
    (\<lambda>_ u'. files_only s (g\<lparr>gh_temps := gh_temps g |` (- set (staged_paths es))\<rparr>) u') (\<lambda>_ _. False) u"
  using assms
proof (induction es arbitrary: g u)
  case Nil
  have "gh_temps g |` (- {}) = gh_temps g" by (simp add: restrict_map_def)
  with Nil show ?case by simp
next
  case (Cons e es)
  show ?case
  proof (cases "be_payload e")
    case (Deduped bs)
    have "entries_ok (en_params E) (gh_temps g) es" using Cons.prems(2) by (simp add: entries_ok_def)
    from Cons.IH [OF Cons.prems(1) this] show ?thesis by (simp add: Deduped)
  next
    case (Staged st)
    let ?g = "g\<lparr>gh_temps := (gh_temps g)(sg_temp_path st := None)\<rparr>"
    have "sg_temp_path st \<in> dom (gh_temps g)" using Cons.prems(2) Staged by (auto simp: entries_ok_def entry_ok_def)
    then have dir: "butlast (sg_temp_path st) = wr_tmp (writer_of E)"
      using cas_okD(7) [OF files_only_ok [OF Cons.prems(1)]] by (auto simp: cas_inv_def intro: temp_dir)
    have T: "gh_temps ?g |` (- set (staged_paths es)) = gh_temps g |` (- set (staged_paths (e # es)))"
      using Staged by (auto simp: fun_eq_iff restrict_map_def)
    have G: "?g\<lparr>gh_temps := A\<rparr> = g\<lparr>gh_temps := A\<rparr>" for A by simp
    show ?thesis unfolding abandon.simps Staged payload.case
    proof (rule wp_seq [OF discard_files [OF Cons.prems(1) dir refl]])
      fix x v assume "files_only s ?g v \<and> grows (en_params E) (cfil u) (cfil v)"
      then have "wp (abandon E es) (\<lambda>_ u'. files_only s (?g\<lparr>gh_temps := gh_temps ?g |` (- set (staged_paths es))\<rparr>) u') (\<lambda>_ _. False) v"
        by (intro Cons.IH entries_ok_drop [OF Cons.prems(2) Staged]) blast
      then show "wp (abandon E es) (\<lambda>_ u'. files_only s (g\<lparr>gh_temps := gh_temps g |` (- set (staged_paths (e # es)))\<rparr>) u') (\<lambda>_ _. False) v"
        unfolding T G .
    qed
  qed
qed

lemma abandon_batch:
  assumes "cas_ok g u" "batch_ok (en_params E) g0 r m k bl g b"
  shows "wp (abandon E (bb_entries b)) (\<lambda>_ u'. blocks_only u u' \<and> cas_ok (spent g0 r m) u') (\<lambda>_ _. False) u"
proof (rule wp_mono [OF abandon_spec [OF files_only_start [OF assms(1)]]])
  show "entries_ok (en_params E) (gh_temps g) (bb_entries b)" using assms(2) by (simp add: batch_ok_def)
qed (use batch_ok_spent [OF files_only_ok assms(2)] files_only_blocks in auto)

lemma close_entries_spec:
  assumes ok: "cas_ok g s" and es: "entries_ok (en_params E) (gh_temps g) es"
    and room: "2 * length (occ_list es) \<le> gh_room g" and n: "length (filter is_deduped es) \<le> gh_nonces g"
  shows "wp (close_entries E es)
    (\<lambda>_ u. cas_ok ((closed_twice g es)\<lparr>gh_refs := add_refs (gh_refs g) (occ_list es)\<rparr>) u \<and> blocks_only s u)
    (\<lambda>e u. no_panic e \<and> cas_ok (closed_twice g es) u \<and> blocks_only s u) s"
proof (cases "cp_group_commit (en_params E)")
  case True
  then show ?thesis using station_close_spec [OF assms] by (simp add: close_entries_def)
next
  case False
  have w: "cas_ok (closed_twice g es) u" if "cas_ok (closed g es) u" for u
    using that by (rule cas_ok_weaken) simp_all
  have w': "cas_ok ((closed_twice g es)\<lparr>gh_refs := L\<rparr>) u" if "cas_ok ((closed g es)\<lparr>gh_refs := L\<rparr>) u" for u L
    using that by (rule cas_ok_weaken) simp_all
  have "wp (close_alone E es)
    (\<lambda>_ u. cas_ok ((closed_twice g es)\<lparr>gh_refs := add_refs (gh_refs g) (occ_list es)\<rparr>) u \<and> blocks_only s u)
    (\<lambda>e u. no_panic e \<and> cas_ok (closed_twice g es) u \<and> blocks_only s u) s"
    unfolding close_alone_def wp_mapE
  proof (rule wp_mono [OF commit_batch_spec [OF ok es _ n]], goal_cases)
    case (3 e u)
    then have "no_panic (task_error e)" by (cases e) (auto simp: task_error_def no_panic_def)
    with 3 w show ?case by blast
  qed (use room w' in auto)
  with False show ?thesis by (simp add: close_entries_def)
qed

lemma flush_batch_spec:
  assumes ok: "cas_ok g u" and b: "batch_ok (en_params E) g0 r m k bl g b"
  shows "wp (flush_batch E b)
    (\<lambda>b' u'. blocks_only u u' \<and> bb_entries b' = [] \<and> (\<exists>g'. cas_ok g' u' \<and> batch_ok (en_params E) g0 r m k bl g' b'))
    (\<lambda>e u'. no_panic e \<and> blocks_only u u' \<and> cas_ok (spent g0 r m) u') u"
    (is "wp _ ?Q ?R u")
proof (cases "bb_entries b = []")
  case True
  then show ?thesis using assms by (auto simp: flush_batch_def)
next
  case False
  let ?es = "bb_entries b" and ?b = "b\<lparr>bb_seen := Map.empty, bb_entries := []\<rparr>"
  have F: "flush_batch E b = bindM (orElse (on_bs (sync_batch (en_disk E) (writer_of E) (staged_paths ?es)))
         (\<lambda>e. bindM (abandon E ?es) (\<lambda>_. raise e))) (\<lambda>_. bindM (close_entries E ?es) (\<lambda>_. ret ?b))"
    using False by (simp add: flush_batch_def take_entries_def)
  note U = cas_okD [OF ok]
  have es: "entries_ok (en_params E) (gh_temps g) ?es" using b by (simp add: batch_ok_def)
  have sync: "wp (on_bs (sync_batch (en_disk E) (writer_of E) (staged_paths ?es)))
      (\<lambda>_ v. files_only u g v) (\<lambda>e v. no_panic e \<and> files_only u g v) u"
    unfolding wp_on_bs
    by (rule wp_mono [OF wp_keeps_nonce [OF keeps_nonce_sync_batch dk.sync_batch_spec [OF U(6)]]])
      (use files_only_bs [OF files_only_start [OF ok]] U(7) in auto)
  have first: "wp (orElse (on_bs (sync_batch (en_disk E) (writer_of E) (staged_paths ?es)))
         (\<lambda>e. bindM (abandon E ?es) (\<lambda>_. raise e))) (\<lambda>_ v. files_only u g v) ?R u"
    unfolding wp_orElse wp_bindM wp_ret_fun
  proof (rule wp_mono [OF sync])
    fix e v assume v: "no_panic e \<and> files_only u g v"
    show "wp (abandon E ?es) (\<lambda>_. ?R e) ?R v"
      by (rule wp_mono [OF abandon_batch [OF files_only_ok b]])
        (use v blocks_only_trans [OF files_only_blocks] in auto)
  qed
  show ?thesis unfolding F
  proof (rule wp_seq [OF first])
    fix x v assume v: "files_only u g v"
    have room: "2 * length (occ_list ?es) \<le> gh_room g" and n: "length (filter is_deduped ?es) \<le> gh_nonces g"
      using b by (auto simp: batch_ok_def)
    show "wp (bindM (close_entries E ?es) (\<lambda>_. ret ?b)) ?Q ?R v"
      unfolding wp_bindM wp_ret_fun
    proof (rule wp_mono [OF close_entries_spec [OF files_only_ok [OF v] es room n]])
      fix y w assume w: "cas_ok ((closed_twice g ?es)\<lparr>gh_refs := add_refs (gh_refs g) (occ_list ?es)\<rparr>) w \<and> blocks_only v w"
      let ?g = "(closed_twice g ?es)\<lparr>gh_refs := add_refs (gh_refs g) (occ_list ?es)\<rparr>"
      obtain fl where fl: "gh_refs g = add_refs (gh_refs g0) fl" "\<forall>h. count_list fl h + count_list (occ_list ?es) h = count_list bl h"
        using b by (auto simp: batch_ok_def)
      have "gh_refs ?g = add_refs (gh_refs g0) (fl @ occ_list ?es)" by (simp add: fl(1) add_refs_append)
      moreover have "\<forall>h. count_list (fl @ occ_list ?es) h + count_list (occ_list []) h = count_list bl h" using fl(2) by simp
      ultimately have "\<exists>fl. gh_refs ?g = add_refs (gh_refs g0) fl \<and> (\<forall>h. count_list fl h + count_list (occ_list []) h = count_list bl h)"
        by blast
      moreover have "gh_temps g0 \<subseteq>\<^sub>m gh_temps ?g" using b by (fastforce simp: batch_ok_def map_le_def restrict_map_def)
      ultimately have "batch_ok (en_params E) g0 r m k bl ?g ?b"
        using b by (auto simp: batch_ok_def seen_ok_def entries_ok_def)
      then show "?Q ?b w" using w v blocks_only_trans [OF files_only_blocks] by auto
    next
      fix e w assume w: "no_panic e \<and> cas_ok (closed_twice g ?es) w \<and> blocks_only v w"
      have "cas_ok (spent g0 r m) w"
      proof (rule cas_ok_weaken [of "closed_twice g ?es" w])
        show "cas_ok (closed_twice g ?es) w" using w by blast
        show "gh_temps (spent g0 r m) \<subseteq>\<^sub>m gh_temps (closed_twice g ?es)"
          using b by (fastforce simp: batch_ok_def map_le_def restrict_map_def)
      qed (use b in \<open>auto simp: batch_ok_def add_refs_def\<close>)
      then show "?R e w" using w v blocks_only_trans [OF files_only_blocks] by auto
    qed
  qed
qed

lemma store_blocks_spec:
  assumes "cas_ok g u" "batch_ok (en_params E) g0 r m (length bss + k) (so_blocks st) g (so_batch st)"
    "set bss \<subseteq> cp_known (en_params E)"
  shows "wp (store_blocks E bss st)
    (\<lambda>st' u'. blocks_only u u' \<and> (\<exists>g'. cas_ok g' u' \<and> batch_ok (en_params E) g0 r m k (so_blocks st') g' (so_batch st')) \<and>
       so_blocks st' = so_blocks st @ map (block_hash (en_params E)) bss \<and> so_content st' = so_content st @ concat bss \<and>
       so_size st' = so_size st + of_nat (length (concat bss)))
    (\<lambda>e u'. no_panic e \<and> blocks_only u u' \<and> cas_ok (spent g0 r m) u') u"
  using assms
proof (induction bss arbitrary: u g st)
  case Nil
  then show ?case by auto
next
  case (Cons bs bss)
  let ?P = "en_params E" and ?i = "block_hash (en_params E) bs" and ?b = "so_batch st"
  let ?R = "\<lambda>e u'. no_panic e \<and> blocks_only u u' \<and> cas_ok (spent g0 r m) u'"
  let ?bl = "so_blocks st @ [?i]"
  have b: "batch_ok ?P g0 r m (Suc (length bss + k)) (so_blocks st) g ?b" using Cons.prems(2) by simp
  have known: "bs \<in> cp_known ?P" "set bss \<subseteq> cp_known ?P" using Cons.prems(3) by simp_all
  have A: "wp (orElse (accumulate E ?b ?i bs)
       (\<lambda>e. case e of CPanic _ \<Rightarrow> raise e | _ \<Rightarrow> bindM (abandon E (bb_entries ?b)) (\<lambda>_. raise e)))
     (\<lambda>b' v. blocks_only u v \<and> (\<exists>g'. cas_ok g' v \<and> batch_ok ?P g0 r m (length bss + k) ?bl g' b')) ?R u"
    unfolding wp_orElse
  proof (rule wp_mono [OF accumulate_spec [OF Cons.prems(1) b known(1)]])
    fix e v assume v: "no_panic e \<and> blocks_only u v \<and> (\<exists>g'. cas_ok g' v \<and> batch_ok ?P g0 r m (length bss + k) (so_blocks st) g' ?b)"
    then obtain g' where g': "cas_ok g' v" "batch_ok ?P g0 r m (length bss + k) (so_blocks st) g' ?b" by blast
    have "wp (bindM (abandon E (bb_entries ?b)) (\<lambda>_. raise e))
        (\<lambda>b' v. blocks_only u v \<and> (\<exists>g'. cas_ok g' v \<and> batch_ok ?P g0 r m (length bss + k) ?bl g' b')) ?R v"
      unfolding wp_bindM wp_ret_fun
      by (rule wp_mono [OF abandon_batch [OF g']]) (use v blocks_only_trans in auto)
    then show "wp (case e of CPanic _ \<Rightarrow> raise e | _ \<Rightarrow> bindM (abandon E (bb_entries ?b)) (\<lambda>_. raise e))
        (\<lambda>b' v. blocks_only u v \<and> (\<exists>g'. cas_ok g' v \<and> batch_ok ?P g0 r m (length bss + k) ?bl g' b')) ?R v"
      using v by (cases e) (simp_all add: no_panic_def)
  qed blast
  have B: "wp (if is_full b' then flush_batch E b' else ret b')
     (\<lambda>b' v. blocks_only u v \<and> (\<exists>g'. cas_ok g' v \<and> batch_ok ?P g0 r m (length bss + k) ?bl g' b')) ?R v"
    if v: "blocks_only u v \<and> (\<exists>g'. cas_ok g' v \<and> batch_ok ?P g0 r m (length bss + k) ?bl g' b')" for b' v
  proof -
    from v obtain g' where g': "cas_ok g' v" "batch_ok ?P g0 r m (length bss + k) ?bl g' b'" by blast
    have "wp (flush_batch E b')
        (\<lambda>b' v. blocks_only u v \<and> (\<exists>g'. cas_ok g' v \<and> batch_ok ?P g0 r m (length bss + k) ?bl g' b')) ?R v"
      by (rule wp_mono [OF flush_batch_spec [OF g']]) (use v blocks_only_trans in blast)+
    then show ?thesis using v by simp
  qed
  show ?case unfolding store_blocks.simps Let_def
  proof (rule wp_seq [OF A], rule wp_seq [OF B], assumption)
    fix b1 v1 b' v
    assume v: "blocks_only u v \<and> (\<exists>g'. cas_ok g' v \<and> batch_ok ?P g0 r m (length bss + k) ?bl g' b')"
    then obtain g' where g': "cas_ok g' v" "batch_ok ?P g0 r m (length bss + k) ?bl g' b'" by blast
    let ?st = "st\<lparr>so_content := so_content st @ bs, so_size := so_size st + of_nat (length bs), so_blocks := so_blocks st @ [?i]\<rparr>\<lparr>so_batch := b'\<rparr>"
    show "wp (store_blocks E bss ?st)
      (\<lambda>st' u'. blocks_only u u' \<and> (\<exists>g'. cas_ok g' u' \<and> batch_ok ?P g0 r m k (so_blocks st') g' (so_batch st')) \<and>
         so_blocks st' = so_blocks st @ map (block_hash ?P) (bs # bss) \<and> so_content st' = so_content st @ concat (bs # bss) \<and>
         so_size st' = so_size st + of_nat (length (concat (bs # bss)))) ?R v"
      by (rule wp_mono [OF Cons.IH [of g' v ?st]]) (use g' v known(2) blocks_only_trans in auto)
  qed
qed

lemma store_items_spec:
  assumes "cas_ok g u" "batch_ok (en_params E) g0 r m (length (bufs items)) (so_blocks st) g (so_batch st)"
    "set (bufs items) \<subseteq> cp_known (en_params E)"
  shows "wp (store_items E items st)
    (\<lambda>st' u'. blocks_only u u' \<and> (\<exists>g'. cas_ok g' u' \<and> batch_ok (en_params E) g0 r m 0 (so_blocks st') g' (so_batch st')) \<and>
       (\<forall>it \<in> set items. \<not> isl it) \<and>
       so_blocks st' = so_blocks st @ map (block_hash (en_params E)) (bufs items) \<and> so_content st' = so_content st @ concat (bufs items) \<and>
       so_size st' = so_size st + of_nat (length (concat (bufs items))))
    (\<lambda>e u'. no_panic e \<and> blocks_only u u' \<and> cas_ok (spent g0 r m) u') u"
  using assms
proof (induction items arbitrary: u g st)
  case Nil
  then show ?case by auto
next
  case (Cons it items)
  show ?case
  proof (cases it)
    case (Inl e)
    show ?thesis unfolding Inl store_items.simps wp_bindM wp_ret_fun
      by (rule wp_mono [OF abandon_batch [OF Cons.prems(1,2)]]) auto
  next
    case (Inr bs)
    have b: "batch_ok (en_params E) g0 r m (length bs + length (bufs items)) (so_blocks st) g (so_batch st)"
      using Cons.prems(2) by (simp add: Inr)
    have known: "set bs \<subseteq> cp_known (en_params E)" "set (bufs items) \<subseteq> cp_known (en_params E)"
      using Cons.prems(3) by (simp_all add: Inr)
    show ?thesis unfolding Inr store_items.simps
    proof (rule wp_seq [OF store_blocks_spec [OF Cons.prems(1) b known(1)]], elim conjE exE)
      fix st1 :: storing and v g' assume v: "blocks_only u v" "cas_ok g' v" "batch_ok (en_params E) g0 r m (length (bufs items)) (so_blocks st1) g' (so_batch st1)"
        "so_blocks st1 = so_blocks st @ map (block_hash (en_params E)) bs" "so_content st1 = so_content st @ concat bs"
        "so_size st1 = so_size st + of_nat (length (concat bs))"
      show "wp (store_items E items st1)
        (\<lambda>st' u'. blocks_only u u' \<and> (\<exists>g'. cas_ok g' u' \<and> batch_ok (en_params E) g0 r m 0 (so_blocks st') g' (so_batch st')) \<and>
           (\<forall>it \<in> set (Inr bs # items). \<not> isl it) \<and>
           so_blocks st' = so_blocks st @ map (block_hash (en_params E)) (bufs (Inr bs # items)) \<and>
           so_content st' = so_content st @ concat (bufs (Inr bs # items)) \<and>
           so_size st' = so_size st + of_nat (length (concat (bufs (Inr bs # items)))))
        (\<lambda>e u'. no_panic e \<and> blocks_only u u' \<and> cas_ok (spent g0 r m) u') v"
        by (rule wp_mono [OF Cons.IH [OF v(2,3) known(2)]]) (use v blocks_only_trans in auto)
    qed
  qed
qed

text \<open>Storing \<open>k\<close> chunks needs room for \<open>2 * k\<close> references (a group may count a reference twice) and \<open>k\<close> temp names.\<close>

lemma store_object_spec:
  assumes ok: "cas_ok g s" and k: "k = length (bufs (stream_items (bstream_new frames)))"
    and room: "2 * k \<le> gh_room g" "k \<le> gh_nonces g"
    and known: "set (bufs (stream_items (bstream_new frames))) \<subseteq> cp_known (en_params E)"
  shows "wp (store_object E frames)
    (\<lambda>(blocks, hash, sz) u. (\<forall>it \<in> set (stream_items (bstream_new frames)). \<not> isl it) \<and>
       blocks = map (block_hash (en_params E)) (bufs (stream_items (bstream_new frames))) \<and>
       hash = cp_md5 (en_params E) (concat (bufs (stream_items (bstream_new frames)))) \<and>
       sz = of_nat (length (concat (bufs (stream_items (bstream_new frames))))) \<and> blocks_only s u \<and>
       cas_ok ((spent g (gh_room g - 2 * k) (gh_nonces g - k))\<lparr>gh_refs := add_refs (gh_refs g) blocks\<rparr>) u)
    (\<lambda>e u. no_panic e \<and> blocks_only s u \<and> cas_ok (spent g (gh_room g - 2 * k) (gh_nonces g - k)) u) s"
    (is "wp _ ?Q ?R s")
proof -
  let ?P = "en_params E" and ?items = "stream_items (bstream_new frames)"
  let ?r = "gh_room g - 2 * k" and ?m = "gh_nonces g - k"
  let ?st = "\<lparr>so_batch = batch_new (cp_max_blocks ?P), so_content = [], so_size = 0, so_blocks = []\<rparr>"
  have init: "batch_ok ?P g ?r ?m (length (bufs ?items)) (so_blocks ?st) g (so_batch ?st)"
    using room k by (auto simp: batch_ok_def batch_new_def seen_ok_def entries_ok_def intro!: exI [of _ "[]"])
  have done_: "cas_ok ((spent g ?r ?m)\<lparr>gh_refs := add_refs (gh_refs g) bl\<rparr>) u"
    if c: "cas_ok g' u" "batch_ok ?P g ?r ?m 0 bl g' b" "bb_entries b = []" for g' u bl b
  proof (rule cas_ok_weaken [OF c(1)])
    fix h
    obtain fl where "gh_refs g' = add_refs (gh_refs g) fl" "\<forall>h. count_list fl h = count_list bl h"
      using c(2,3) by (auto simp: batch_ok_def)
    then show "gh_refs ((spent g ?r ?m)\<lparr>gh_refs := add_refs (gh_refs g) bl\<rparr>) h \<le> gh_refs g' h" by (simp add: add_refs_def)
  qed (use c in \<open>auto simp: batch_ok_def\<close>)
  show ?thesis unfolding store_object_def
  proof (rule wp_seq [OF store_items_spec [OF ok init known]], elim conjE exE)
    fix st :: storing and u g' assume u: "blocks_only s u" "cas_ok g' u" "batch_ok ?P g ?r ?m 0 (so_blocks st) g' (so_batch st)"
      "\<forall>it \<in> set ?items. \<not> isl it" "so_blocks st = so_blocks ?st @ map (block_hash ?P) (bufs ?items)"
      "so_content st = so_content ?st @ concat (bufs ?items)" "so_size st = so_size ?st + of_nat (length (concat (bufs ?items)))"
    show "wp (bindM (flush_batch E (so_batch st)) (\<lambda>_. ret (so_blocks st, cp_md5 ?P (so_content st), so_size st))) ?Q ?R u"
      unfolding wp_bindM wp_ret_fun
    proof (rule wp_mono [OF flush_batch_spec [OF u(2,3)]], elim conjE exE)
      fix b v g'' assume v: "blocks_only u v" "bb_entries b = []" "cas_ok g'' v" "batch_ok ?P g ?r ?m 0 (so_blocks st) g'' b"
      show "?Q (so_blocks st, cp_md5 ?P (so_content st), so_size st) v"
        using done_ [OF v(3,4,2)] u blocks_only_trans [OF u(1) v(1)] by simp
    qed (use u blocks_only_trans in blast)
  qed
qed

end

subsection \<open>The object record\<close>

definition displaced_at :: "content \<Rightarrow> string \<Rightarrow> bytes \<Rightarrow> object option \<Rightarrow> bool" where
  "displaced_at c b k d \<longleftrightarrow> (case d of
     None \<Rightarrow> map_of (c b) k = None
   | Some old \<Rightarrow> \<exists>raw. map_of (c b) k = Some raw \<and> object_try_from raw = Inr old)"

definition size_of :: "object option \<Rightarrow> u64" where
  "size_of d = (case d of None \<Rightarrow> 0 | Some ob \<Rightarrow> obj_size ob)"

context store_contract
begin

lemma replace_object_record_spec:
  assumes "inv s" "\<not> in_tx s"
  shows "wp (replace_object_record S b k raw sz)
    (\<lambda>d s'. inv s' \<and> \<not> in_tx s' \<and> names s \<subseteq> names s' \<and> displaced_at (cont s) b k d \<and>
       (\<exists>cur. usage_of (cont_ins b k raw (cont s)) b = Inr cur \<and>
         cont s' = cont_ins DEFAULT_USAGE_TREE (as_bytes b) (u64_to_le_bytes (usage_after cur (sz - size_of d)))
           (cont_ins b k raw (cont s))))
    (\<lambda>e s'. inv s' \<and> \<not> in_tx s' \<and> (cont s' = cont s \<or> (\<exists>d v. displaced_at (cont s) b k d \<and>
       cont s' = cont_ins DEFAULT_USAGE_TREE (as_bytes b) v (cont_ins b k raw (cont s))))) s"
    (is "wp _ ?Q ?E s")
proof -
  let ?c = "cont_ins b k raw (cont s)"
  let ?R = "\<lambda>d t. inv t \<and> in_tx t \<and> cont t = cont s \<and> names s \<subseteq> names t \<and> displaced_at (cont s) b k d \<and>
    (\<exists>cur. usage_of ?c b = Inr cur \<and>
      txv t = cont_ins DEFAULT_USAGE_TREE (as_bytes b) (u64_to_le_bytes (usage_after cur (sz - size_of d))) ?c)"
  let ?F = "\<lambda>_ t. inv t \<and> in_tx t \<and> cont t = cont s \<and> {} \<subseteq> names t"
  have body: "wp (bindM (replace_object S b k raw) (\<lambda>displaced.
         let previous = (case displaced of None \<Rightarrow> 0 | Some ob \<Rightarrow> obj_size ob);
             delta = sz - previous in
         bindM (add_bucket_usage S b delta) (\<lambda>_. ret displaced))) ?R ?F t"
    if t: "inv t" "in_tx t" "cont t = cont s" "txv t = cont s" "names t = names s" for t
  proof (rule wp_seq [OF wp_mono [OF replace_object_spec [OF t(1,2)]]])
    fix d t' assume *: "txf t t' \<and> txv t' = cont_ins b k raw (txv t) \<and> (case d of
        None \<Rightarrow> map_of (txv t b) k = None
      | Some ob \<Rightarrow> \<exists>raw. map_of (txv t b) k = Some raw \<and> object_try_from raw = Inr ob)"
    with t have t': "inv t'" "in_tx t'" "cont t' = cont s" "names s \<subseteq> names t'" "txv t' = ?c" "displaced_at (cont s) b k d"
      by (auto simp: displaced_at_def split: option.splits)
    show "wp (let previous = (case d of None \<Rightarrow> 0 | Some ob \<Rightarrow> obj_size ob);
             delta = sz - previous in
         bindM (add_bucket_usage S b delta) (\<lambda>_. ret d)) ?R ?F t'"
      unfolding Let_def wp_bindM wp_ret_fun
    proof (rule wp_mono [OF add_bucket_usage_spec [OF t'(1,2)]], goal_cases)
      case (1 u t'')
      then obtain cur where c: "txf t' t''" "u = usage_after cur (sz - size_of d)"
        "txv t'' = cont_ins DEFAULT_USAGE_TREE (as_bytes b) (u64_to_le_bytes u) ?c"
        "case map_of (?c DEFAULT_USAGE_TREE) (as_bytes b) of None \<Rightarrow> cur = 0 | Some raw \<Rightarrow> decode_usage b raw = Inr cur"
        unfolding t'(5) size_of_def by blast
      have "usage_of ?c b = Inr cur"
        unfolding usage_of_def using c(4) by (cases "map_of (?c DEFAULT_USAGE_TREE) (as_bytes b)") simp_all
      with c t' show ?case by auto
    qed (use t' in auto)
  qed (use t in auto)
  show ?thesis
    unfolding replace_object_record_def wp_bindM
  proof (rule wp_begin [OF assms], goal_cases)
    case (1 t)
    show ?case
    proof (rule wp_or_rollback [OF wp_mono [OF body [OF 1]]])
      fix d u assume u: "?R d u"
      show "wp (tx_commit S) (\<lambda>_. wp (ret d) ?Q ?E) ?E u"
        unfolding wp_ret_fun by (rule wp_tx_commit) (use u in auto)
    qed auto
  qed
qed

end

definition stored_at :: "content \<Rightarrow> string \<Rightarrow> bytes \<Rightarrow> object \<Rightarrow> content \<Rightarrow> bool" where
  "stored_at c b k ob c' \<longleftrightarrow> (\<forall>n. n \<noteq> DEFAULT_USAGE_TREE \<longrightarrow> c' n = cont_ins b k (object_to_vec ob) c n)"

context cas_contract
begin

lemma create_object_meta_spec:
  assumes ok: "cas_ok (g\<lparr>gh_refs := add_refs (gh_refs g) (object_blocks ob)\<rparr>) s" and b: "\<not> reserved_name b"
    and ob: "ob = object_new now sz hash data" "object_try_from (object_to_vec ob) = Inr ob"
  shows "wp (create_object_meta E now b k sz hash data)
    (\<lambda>r s'. r = ob \<and> cas_ok g s' \<and> stored_at (ncont (cs_ns s)) b k ob (ncont (cs_ns s')) \<and>
       (\<forall>n. n \<noteq> DEFAULT_BLOCK_TREE \<longrightarrow> scont (cs_sh s') n = scont (cs_sh s) n))
    (\<lambda>e s'. (\<exists>m. e = CMeta m) \<and> cas_ok g s' \<and>
       (ncont (cs_ns s') = ncont (cs_ns s) \<or> stored_at (ncont (cs_ns s)) b k ob (ncont (cs_ns s'))) \<and>
       (\<forall>n. n \<noteq> DEFAULT_BLOCK_TREE \<longrightarrow> scont (cs_sh s') n = scont (cs_sh s) n)) s"
    (is "wp _ ?Q ?R s")
proof -
  note D = cas_okD [OF ok]
  let ?h = "g\<lparr>gh_refs := add_refs (gh_refs g) (object_blocks ob)\<rparr>"
  have cok: "cont_ok (ncont (cs_ns s))" by (rule ns.inv_cont [OF D(2)])
  have fin: "finite {n. ncont (cs_ns s) n \<noteq> []}" by (rule ns.finite_cont [OF D(2)])
  have repl: "cas_ok (g\<lparr>gh_refs := add_refs (gh_refs g) (displaced_blocks d)\<rparr>) (s\<lparr>cs_ns := t\<rparr>)"
    if "ninv t" "\<not> ntx t" "displaced_at (ncont (cs_ns s)) b k d"
      "ncont t = cont_ins DEFAULT_USAGE_TREE (as_bytes b) v (cont_ins b k (object_to_vec ob) (ncont (cs_ns s)))" for t d v
  proof (rule cas_ok_ns [OF ok that(1,2)])
    have "cas_inv (en_params E) (?h\<lparr>gh_refs := add_refs (gh_refs g) (displaced_blocks d)\<rparr>) (ncont t) (scont (cs_sh s)) (cfil s) (bs_nonce (cs_bs s))"
      unfolding that(4) by (rule cas_inv_replaced [OF D(7) cok fin b _ ob(2)]) (use that(3) in \<open>simp_all add: displaced_at_def\<close>)
    then show "cas_inv (en_params E) (g\<lparr>gh_refs := add_refs (gh_refs g) (displaced_blocks d)\<rparr>) (ncont t) (scont (cs_sh s)) (cfil s) (bs_nonce (cs_bs s))"
      by simp
  qed
  have weak: "cas_ok g u" if "cas_ok (g\<lparr>gh_refs := add_refs (gh_refs g) bs\<rparr>) u" for bs u
    using drop_ref [OF that] by simp
  have rel: "wp (case d of Some old \<Rightarrow> if object_blocks old \<noteq> [] then release_blocks E (object_blocks old) else ret () | None \<Rightarrow> ret ())
      (\<lambda>_ u'. cas_ok g u' \<and> blocks_only u u') (\<lambda>_ _. False) u"
    if u: "cas_ok (g\<lparr>gh_refs := add_refs (gh_refs g) (displaced_blocks d)\<rparr>) u" "displaced_at (ncont (cs_ns s)) b k d" for d u
  proof (cases d)
    case None
    then show ?thesis using weak [OF u(1)] by simp
  next
    case (Some old)
    then obtain raw where raw: "object_try_from raw = Inr old" using u(2) by (auto simp: displaced_at_def)
    have "wp (release_blocks E (object_blocks old)) (\<lambda>_ u'. cas_ok (g\<lparr>gh_refs := gh_refs g\<rparr>) u' \<and> blocks_only u u') (\<lambda>_ _. False) u"
      by (rule release_blocks_spec) (use u(1) Some object_blocks_wf [OF raw] in \<open>simp_all add: displaced_blocks_def\<close>)
    then show ?thesis using Some weak [OF u(1)] by simp
  qed
  show ?thesis
    unfolding create_object_meta_def Let_def ob(1) [symmetric] wp_bindM wp_on_ns wp_ret_fun
  proof (rule wp_mono [OF ns.replace_object_record_spec [OF D(2,3)]])
    fix d t
    assume "ninv t \<and> \<not> ntx t \<and> nnames (cs_ns s) \<subseteq> nnames t \<and> displaced_at (ncont (cs_ns s)) b k d \<and>
       (\<exists>cur. usage_of (cont_ins b k (object_to_vec ob) (ncont (cs_ns s))) b = Inr cur \<and>
         ncont t = cont_ins DEFAULT_USAGE_TREE (as_bytes b) (u64_to_le_bytes (usage_after cur (sz - size_of d)))
           (cont_ins b k (object_to_vec ob) (ncont (cs_ns s))))"
    then obtain v where t: "ninv t" "\<not> ntx t" "displaced_at (ncont (cs_ns s)) b k d"
      "ncont t = cont_ins DEFAULT_USAGE_TREE (as_bytes b) v (cont_ins b k (object_to_vec ob) (ncont (cs_ns s)))" by blast
    have st: "stored_at (ncont (cs_ns s)) b k ob (ncont t)" unfolding stored_at_def t(4) by simp
    show "wp (case d of Some old \<Rightarrow> if object_blocks old \<noteq> [] then release_blocks E (object_blocks old) else ret () | None \<Rightarrow> ret ())
        (\<lambda>_. ?Q ob) ?R (s\<lparr>cs_ns := t\<rparr>)"
      by (rule wp_mono [OF rel [OF repl [OF t] t(3)]]) (use st in \<open>auto simp: blocks_only_def\<close>)
  next
    fix e t
    assume "ninv t \<and> \<not> ntx t \<and> (ncont t = ncont (cs_ns s) \<or> (\<exists>d v. displaced_at (ncont (cs_ns s)) b k d \<and>
       ncont t = cont_ins DEFAULT_USAGE_TREE (as_bytes b) v (cont_ins b k (object_to_vec ob) (ncont (cs_ns s)))))"
    then have "cas_ok g (s\<lparr>cs_ns := t\<rparr>) \<and>
        (ncont t = ncont (cs_ns s) \<or> stored_at (ncont (cs_ns s)) b k ob (ncont t))"
    proof (elim conjE disjE exE)
      fix d v
      assume t: "ninv t" "\<not> ntx t" "displaced_at (ncont (cs_ns s)) b k d"
        "ncont t = cont_ins DEFAULT_USAGE_TREE (as_bytes b) v (cont_ins b k (object_to_vec ob) (ncont (cs_ns s)))"
      have "stored_at (ncont (cs_ns s)) b k ob (ncont t)" unfolding stored_at_def t(4) by simp
      with weak [OF repl [OF t]] show ?thesis by simp
    qed (use weak [OF ns_step [OF ok]] in blast)
    then show "?R (CMeta e) (s\<lparr>cs_ns := t\<rparr>)" by simp
  qed
qed

end

lemma ok_ids_hash: "params_ok P \<Longrightarrow> ok_ids (map (block_hash P) bss)"
  by (cases bss) (auto simp: ok_ids_def ids_width_def params_ok_def block_hash_def hasher_hash_wf)

lemma object_decodes:
  assumes "length hash = CONTENT_HASH_SIZE" "wf_data data" "length (enc_data data) < 2 ^ 63"
  shows "object_try_from (object_to_vec (object_new now sz hash data)) = Inr (object_new now sz hash data)"
proof (rule object_codec.dec_enc)
  show wf: "wf_object (object_new now sz hash data)" using assms by (simp add: wf_object_def object_new_def)
  have "length (object_to_vec (object_new now sz hash data)) = OBJECT_HEADER_SIZE + length (enc_data data)"
    using length_object_to_vec [OF wf] assms(2)
    by (cases data) (simp_all add: object_num_bytes_def object_new_def length_enc_ids enc_blob_def)
  then show "length (object_to_vec (object_new now sz hash data)) \<le> usize_max"
    using assms(3) by (simp add: usize_max_eq OBJECT_HEADER_SIZE_def CONTENT_HASH_SIZE_def)
qed

lemma blocks_decode:
  assumes "params_ok P" "length bss < 2 ^ 57"
  shows "object_try_from (object_to_vec (object_new now sz (cp_md5 P data) (SinglePart (map (block_hash P) bss)))) =
    Inr (object_new now sz (cp_md5 P data) (SinglePart (map (block_hash P) bss)))"
proof (rule object_decodes)
  have ok: "ok_ids (map (block_hash P) bss)" by (rule ok_ids_hash [OF assms(1)])
  then show "wf_data (SinglePart (map (block_hash P) bss))" by simp
  show "length (cp_md5 P data) = CONTENT_HASH_SIZE" using assms(1) by (simp add: params_ok_def)
  have "length bss * ids_width (map (block_hash P) bss) \<le> length bss * 32" by (rule mult_le_mono2 [OF ids_width_le [OF ok]])
  moreover have "length bss * 32 < 2 ^ 62" using assms(2) by simp
  ultimately have "length bss * ids_width (map (block_hash P) bss) < 2 ^ 62" by (rule le_less_trans)
  then show "length (enc_data (SinglePart (map (block_hash P) bss))) < 2 ^ 63"
    by (simp add: length_enc_ids [OF ok] id_list_len_def)
qed

lemma bufs_clean:
  assumes "\<forall>f \<in> set frames. \<not> isl f"
  shows "bufs (stream_items (bstream_new frames)) = chunks_of BLOCK_SIZE (concat (map projr frames))"
proof -
  let ?items = "stream_items (bstream_new frames)"
  have *: "\<forall>it \<in> set ?items. \<not> isl it" "concat (map projr ?items) = chunks_of BLOCK_SIZE (concat (map projr frames))"
    using stream_items_chunks [of "bstream_new frames"] assms by (simp_all add: bstream_new_def)
  have "bufs items = concat (map projr items)" if "\<forall>it \<in> set items. \<not> isl it" for items
    using that by (induction items) (auto simp: bufs_def split: sum.splits)
  with * show ?thesis by simp
qed

context cas_contract
begin

text \<open>A PUT whose stream delivers \<open>data\<close>.\<close>

lemma put_spec:
  assumes ok: "cas_ok g s" and b: "\<not> reserved_name b" and frames: "\<forall>f \<in> set frames. \<not> isl f" "data = concat (map projr frames)"
    and len: "len = 0 \<Longrightarrow> data = []" and k: "k = length (chunks_of BLOCK_SIZE data)" "2 * k \<le> gh_room g" "k \<le> gh_nonces g" "k < 2 ^ 57"
    and known: "set (chunks_of BLOCK_SIZE data) \<subseteq> cp_known (en_params E)"
    and ob: "ob = object_new now (of_nat (length data)) (cp_md5 (en_params E) data)
      (SinglePart (map (block_hash (en_params E)) (chunks_of BLOCK_SIZE data)))"
  shows "wp (store_single_object_and_meta E now b key frames len)
    (\<lambda>r s'. r = ob \<and> cas_ok (spent g (gh_room g - 2 * k) (gh_nonces g - k)) s' \<and>
       stored_at (ncont (cs_ns s)) b key ob (ncont (cs_ns s')) \<and>
       (\<forall>n. n \<noteq> DEFAULT_BLOCK_TREE \<longrightarrow> scont (cs_sh s') n = scont (cs_sh s) n))
    (\<lambda>e s'. (no_panic e \<or> e = CPanic ''called Result::unwrap() on an Err value'') \<and>
       cas_ok (spent g (gh_room g - 2 * k) (gh_nonces g - k)) s' \<and>
       (ncont (cs_ns s') = ncont (cs_ns s) \<or> stored_at (ncont (cs_ns s)) b key ob (ncont (cs_ns s'))) \<and>
       (\<forall>n. n \<noteq> DEFAULT_BLOCK_TREE \<longrightarrow> scont (cs_sh s') n = scont (cs_sh s) n)) s"
    (is "wp _ ?Q ?R s")
proof -
  let ?P = "en_params E" and ?g = "spent g (gh_room g - 2 * k) (gh_nonces g - k)"
  let ?cs = "chunks_of BLOCK_SIZE data"
  have bufs: "bufs (stream_items (bstream_new frames)) = ?cs" using bufs_clean [OF frames(1)] frames(2) by simp
  have first: "wp (if 0 < len then store_object E frames else ret ([], cp_md5 ?P [], 0))
    (\<lambda>(blocks, hash, sz) u. blocks = map (block_hash ?P) ?cs \<and> hash = cp_md5 ?P data \<and> sz = of_nat (length data) \<and>
       blocks_only s u \<and> cas_ok (?g\<lparr>gh_refs := add_refs (gh_refs ?g) (map (block_hash ?P) ?cs)\<rparr>) u) ?R s"
  proof (cases "0 < len")
    case True
    then show ?thesis
      using store_object_spec [OF ok, of k frames] k(1-3) known unfolding bufs concat_chunks_of
      by (auto elim!: wp_mono simp: blocks_only_def)
  next
    case False
    then show ?thesis using len ok k(1) by simp
  qed
  show ?thesis unfolding store_single_object_and_meta_def
  proof (rule wp_seq [OF first], clarify)
    fix u assume u: "blocks_only s u" "cas_ok (?g\<lparr>gh_refs := add_refs (gh_refs ?g) (map (block_hash ?P) ?cs)\<rparr>) u"
    have blocks: "object_blocks ob = map (block_hash ?P) ?cs" by (simp add: ob object_new_def object_blocks_def)
    have dec: "object_try_from (object_to_vec ob) = Inr ob"
      unfolding ob by (rule blocks_decode) (use k cas_okD(1) [OF ok] in simp_all)
    show "wp (mapE unwrap_error (create_object_meta E now b key (of_nat (length data)) (cp_md5 ?P data) (SinglePart (map (block_hash ?P) ?cs)))) ?Q ?R u"
      unfolding wp_mapE
    proof (rule wp_mono [OF create_object_meta_spec [of ?g ob u b now, OF _ b ob dec]], goal_cases)
      case 1
      then show ?case using u(2) blocks by simp
    next
      case (2 r v)
      then show ?case using u(1) by (simp add: blocks_only_def)
    next
      case (3 e v)
      then show ?case using u(1) by (auto simp: unwrap_error_def blocks_only_def)
    qed
  qed
qed

lemma put_inline_spec:
  assumes ok: "cas_ok g s" and b: "\<not> reserved_name b" and len: "length data < 2 ^ 62"
    and ob: "ob = object_new now (of_nat (length data)) (cp_md5 (en_params E) data) (Inline data)"
  shows "wp (store_inlined_object E now b key data)
    (\<lambda>r s'. r = ob \<and> cas_ok g s' \<and> stored_at (ncont (cs_ns s)) b key ob (ncont (cs_ns s')) \<and>
       (\<forall>n. n \<noteq> DEFAULT_BLOCK_TREE \<longrightarrow> scont (cs_sh s') n = scont (cs_sh s) n))
    (\<lambda>e s'. (\<exists>m. e = CMeta m) \<and> cas_ok g s' \<and>
       (ncont (cs_ns s') = ncont (cs_ns s) \<or> stored_at (ncont (cs_ns s)) b key ob (ncont (cs_ns s'))) \<and>
       (\<forall>n. n \<noteq> DEFAULT_BLOCK_TREE \<longrightarrow> scont (cs_sh s') n = scont (cs_sh s) n)) s"
  unfolding store_inlined_object_def
proof (rule create_object_meta_spec [OF _ b ob])
  show "cas_ok (g\<lparr>gh_refs := add_refs (gh_refs g) (object_blocks ob)\<rparr>) s"
    using ok by (simp add: ob object_new_def object_blocks_def)
  show "object_try_from (object_to_vec ob) = Inr ob"
    unfolding ob by (rule object_decodes)
      (use len cas_okD(1) [OF ok] in \<open>simp_all add: params_ok_def usize_max_eq enc_blob_def\<close>)
qed

end

end
