(* ===== verification/BlockStream.thy ===== *)
theory BlockStream
  imports ObjectPath
begin

section \<open>Serving the blocks of an object\<close>

text \<open>
  \<open>cas/block_stream.rs\<close> and \<open>cas/range_request.rs\<close>: the stream over the block files of an object, with its
  byte ranges and its verifying mode. A poll that would be pending is a poll that has not answered yet, so
  the model is of the answers. \<open>files\<close> is what opening a path finds, and \<open>read_io\<close> what the calls on the
  files answer: opening a file, the seek and every read may fail with an error of the operating system, the read
  that finds the end of the file included; a read that does not fail returns at least one byte when there is one, and
  at most what was asked for. The answer depends on the block that is read and on how much of it is left, which tells
  apart all calls of a stream up to its first error.

  Positions are naturals: the sizes of the files of an object add up to far less than \<open>2 ^ 64\<close>. The bounds
  of a range come from a client and are 64-bit, saturation included.
\<close>

datatype range_request = All | Range u64 u64 | ToBytes u64 | FromBytes u64

datatype stream_error = OpenFailed path | IoFailed io_error | SkipTooLarge | NoAddress nat | Corrupt block_id block_id path | OutOfBounds

record block_verification =
  bv_hash :: "bytes \<Rightarrow> block_id"
  bv_ids :: "block_id list"

record block_stream =
  bk_paths :: "(path \<times> nat) list"
  bk_fp :: nat
  bk_size :: nat
  bk_processed :: nat
  bk_has_seeked :: bool
  bk_range :: range_request
  bk_file :: "bytes option"
  bk_verify :: "block_verification option"
  bk_reading :: nat
  bk_buf :: bytes

definition VERIFY_READ_CHUNK :: nat where
  "VERIFY_READ_CHUNK = 64 * 1024"

definition block_stream_new :: "(path \<times> nat) list \<Rightarrow> nat \<Rightarrow> range_request \<Rightarrow> block_stream" where
  "block_stream_new paths sz rng =
    \<lparr>bk_paths = paths, bk_fp = 0, bk_size = sz, bk_processed = 0, bk_has_seeked = True, bk_range = rng,
     bk_file = None, bk_verify = None, bk_reading = 0, bk_buf = []\<rparr>"

definition verified :: "(bytes \<Rightarrow> block_id) \<Rightarrow> block_id list \<Rightarrow> block_stream \<Rightarrow> block_stream" where
  "verified hash ids st =
    (if bk_range st = All \<and> length ids = length (bk_paths st)
     then st\<lparr>bk_verify := Some \<lparr>bv_hash = hash, bv_ids = ids\<rparr>\<rparr> else st)"

definition bounds :: "block_stream \<Rightarrow> nat \<times> nat" where
  "bounds st = (case bk_range st of
     All \<Rightarrow> (0, bk_size st)
   | Range start end \<Rightarrow> (unat start, min (unat end + 1) usize_max)
   | ToBytes end \<Rightarrow> (0, min (unat end + 1) usize_max)
   | FromBytes start \<Rightarrow> (unat start, usize_max))"

definition size_hint :: "block_stream \<Rightarrow> nat" where
  "size_hint st = (case bounds st of (start, end) \<Rightarrow> min end (bk_size st) - start)"

text \<open>The answer of a poll: the stream has ended, or an item.\<close>

type_synonym polled = "(stream_error + bytes) option"

definition finish_verified_block :: "block_verification \<Rightarrow> block_stream \<Rightarrow> polled \<times> block_stream" where
  "finish_verified_block v st =
    (let bytes = bk_buf st; st = st\<lparr>bk_buf := []\<rparr>; idx = bk_reading st in
     if idx < length (bv_ids v) then
       let expected = bv_ids v ! idx; actual = bv_hash v bytes in
       if actual \<noteq> expected then (Some (Inl (Corrupt expected actual (fst (bk_paths st ! idx)))), st)
       else (Some (Inr bytes), st\<lparr>bk_processed := bk_processed st + length bytes\<rparr>)
     else (Some (Inl (NoAddress idx)), st))"

text \<open>The loop over whole files that end before the window starts: \<open>None\<close> when the stream is over.\<close>

function skip_files :: "nat \<Rightarrow> nat \<Rightarrow> block_stream \<Rightarrow> stream_error + block_stream option" where
  "skip_files start end st =
    (if bk_processed st \<ge> end then Inr None
     else if bk_processed st < start then
       if bk_fp st < length (bk_paths st) then
         let sz = snd (bk_paths st ! bk_fp st) in
         if bk_processed st + sz \<le> start then
           let st = st\<lparr>bk_processed := bk_processed st + sz, bk_fp := bk_fp st + 1\<rparr> in
           if bk_fp st \<ge> length (bk_paths st) then Inr None else skip_files start end st
         else Inr (Some st)
       else Inl OutOfBounds
     else Inr (Some st))"
  by pat_completeness auto

termination skip_files
  by (relation "measure (\<lambda>(start, end, st). length (bk_paths st) - bk_fp st)") auto

declare skip_files.simps [simp del]

text \<open>The answers of the operating system: opening the file of a block, the seek in it, and a read with so many bytes left
  of it, which fails or says how many bytes it would deliver at most.\<close>

record read_io =
  ri_open :: "nat \<Rightarrow> io_error option"
  ri_seek :: "nat \<Rightarrow> io_error option"
  ri_read :: "nat \<Rightarrow> nat \<Rightarrow> io_error + nat"

definition read_file :: "read_io \<Rightarrow> nat \<Rightarrow> nat \<Rightarrow> bytes \<Rightarrow> io_error + nat" where
  "read_file io i cap rest = (case ri_read io i (length rest) of
     Inl e \<Rightarrow> Inl e
   | Inr k \<Rightarrow> Inr (if rest = [] then 0 else max 1 (min k (min cap (length rest)))))"

lemma read_file_some:
  "read_file io i cap rest = Inr n \<Longrightarrow> (n = 0 \<longleftrightarrow> rest = []) \<and> n \<le> length rest \<and> n \<le> max 1 cap"
  by (cases rest) (auto simp: read_file_def split: sum.splits)

lemma skip_files_keeps:
  "skip_files start end st = Inr (Some st') \<Longrightarrow>
   st' = st\<lparr>bk_processed := bk_processed st', bk_fp := bk_fp st'\<rparr> \<and> bk_fp st \<le> bk_fp st'"
proof (induction start "end" st rule: skip_files.induct)
  case (1 start "end" st)
  show ?case
  proof (cases "bk_processed st \<ge> end \<or> bk_processed st \<ge> start \<or> \<not> bk_fp st < length (bk_paths st) \<or>
      bk_processed st + snd (bk_paths st ! bk_fp st) > start")
    case True
    with 1(2) show ?thesis by (subst (asm) skip_files.simps) (auto simp: Let_def split: if_splits)
  next
    case False
    let ?st = "st\<lparr>bk_processed := bk_processed st + snd (bk_paths st ! bk_fp st), bk_fp := bk_fp st + 1\<rparr>"
    have nx: "\<not> bk_fp ?st \<ge> length (bk_paths ?st)" "skip_files start end ?st = Inr (Some st')"
      using False 1(2) by (auto simp: skip_files.simps [of start "end" st] Let_def split: if_splits)
    have "st' = ?st\<lparr>bk_processed := bk_processed st', bk_fp := bk_fp st'\<rparr> \<and> bk_fp ?st \<le> bk_fp st'"
      by (rule "1.IH" [OF _ _ _ refl _ refl]) (use False nx in auto)
    then show ?thesis by simp
  qed
qed

lemma skip_files_paths: "skip_files start end st = Inr (Some st') \<Longrightarrow> bk_paths st' = bk_paths st \<and> bk_fp st \<le> bk_fp st'"
  using skip_files_keeps [of start "end" st st'] by (metis block_stream.select_convs(1) block_stream.surjective block_stream.update_convs(2,4))

function poll_next_block :: "(path \<Rightarrow> bytes option) \<Rightarrow> read_io \<Rightarrow> block_stream \<Rightarrow> polled \<times> block_stream" where
  "poll_next_block files io st = (case bounds st of (start, end) \<Rightarrow>
     if bk_processed st \<ge> end then (None, st)
     else case bk_file st of
       Some rest \<Rightarrow>
         if \<not> bk_has_seeked st \<and> start > bk_processed st then
           let skip = start - bk_processed st in
           if skip < 2 ^ 63 then
             (case ri_seek io (bk_reading st) of
               Some e \<Rightarrow> (Some (Inl (IoFailed e)), st)
             | None \<Rightarrow> poll_next_block files io
                 (st\<lparr>bk_file := Some (drop skip rest), bk_has_seeked := True, bk_processed := bk_processed st + skip\<rparr>))
           else (Some (Inl SkipTooLarge), st)
         else (case bk_verify st of
           Some v \<Rightarrow>
             (case read_file io (bk_reading st) VERIFY_READ_CHUNK rest of
               Inl e \<Rightarrow> (Some (Inl (IoFailed e)), st)
             | Inr n \<Rightarrow>
                 if n = 0 then finish_verified_block v (st\<lparr>bk_file := None\<rparr>)
                 else poll_next_block files io (st\<lparr>bk_file := Some (drop n rest), bk_buf := bk_buf st @ take n rest\<rparr>))
         | None \<Rightarrow>
             (case read_file io (bk_reading st) (min (end - bk_processed st) 4096) rest of
               Inl e \<Rightarrow> (Some (Inl (IoFailed e)), st)
             | Inr n \<Rightarrow>
                 if n = 0 then poll_next_block files io (st\<lparr>bk_file := None\<rparr>)
                 else (Some (Inr (take n rest)), st\<lparr>bk_file := Some (drop n rest), bk_processed := bk_processed st + n\<rparr>)))
     | None \<Rightarrow> (case skip_files start end st of
         Inl e \<Rightarrow> (Some (Inl e), st)
       | Inr None \<Rightarrow> (None, st)
       | Inr (Some st') \<Rightarrow>
           if bk_fp st' \<ge> length (bk_paths st') then (None, st')
           else
             let path = fst (bk_paths st' ! bk_fp st');
                 st'' = st'\<lparr>bk_reading := bk_fp st', bk_fp := bk_fp st' + 1\<rparr> in
             (case ri_open io (bk_fp st') of
               Some e \<Rightarrow> (Some (Inl (IoFailed e)), st'')
             | None \<Rightarrow> (case files path of
                 None \<Rightarrow> (Some (Inl (OpenFailed path)), st'')
               | Some bytes \<Rightarrow> poll_next_block files io (st''\<lparr>bk_file := Some bytes, bk_has_seeked := False\<rparr>)))))"
  by pat_completeness auto

termination poll_next_block
  by (relation "measures [\<lambda>(files, io, st). length (bk_paths st) - bk_fp st,
      \<lambda>(files, io, st). case bk_file st of None \<Rightarrow> 0 | Some rest \<Rightarrow> Suc (length rest),
      \<lambda>(files, io, st). if bk_has_seeked st then 0 else 1]")
    (auto dest!: skip_files_paths read_file_some)

declare poll_next_block.simps [simp del]

text \<open>What a consumer that stops at the first error gets.\<close>

definition file_left :: "block_stream \<Rightarrow> nat" where
  "file_left st = (case bk_file st of None \<Rightarrow> 0 | Some rest \<Rightarrow> Suc (length rest))"

definition ahead :: "block_stream \<Rightarrow> block_stream \<Rightarrow> bool" where
  "ahead st st' \<longleftrightarrow> bk_paths st' = bk_paths st \<and>
     (bk_fp st < bk_fp st' \<and> bk_fp st < length (bk_paths st) \<or> bk_fp st' = bk_fp st \<and> file_left st' < file_left st)"

lemma ahead_trans: "ahead st st' \<Longrightarrow> ahead st' st'' \<Longrightarrow> ahead st st''"
  by (auto simp: ahead_def)

lemma ahead_weak:
  "bk_paths st' = bk_paths st \<Longrightarrow> bk_fp st' = bk_fp st \<Longrightarrow> file_left st' \<le> file_left st \<Longrightarrow> ahead st' st'' \<Longrightarrow> ahead st st''"
  by (auto simp: ahead_def)

lemma finish_verified_fields:
  "finish_verified_block v st = (r, st') \<Longrightarrow> bk_paths st' = bk_paths st \<and> bk_fp st' = bk_fp st \<and> bk_file st' = bk_file st"
  by (auto simp: finish_verified_block_def Let_def split: if_splits)

text \<open>The cases of a poll.\<close>

lemma poll_done: "bounds st = (a, e) \<Longrightarrow> e \<le> bk_processed st \<Longrightarrow> poll_next_block files io st = (None, st)"
  by (simp add: poll_next_block.simps [of files io st])

lemma poll_seek:
  "bounds st = (a, e) \<Longrightarrow> bk_processed st < e \<Longrightarrow> bk_file st = Some rest \<Longrightarrow> \<not> bk_has_seeked st \<Longrightarrow> bk_processed st < a \<Longrightarrow>
   poll_next_block files io st = (if a - bk_processed st < 2 ^ 63 then
     (case ri_seek io (bk_reading st) of
       Some er \<Rightarrow> (Some (Inl (IoFailed er)), st)
     | None \<Rightarrow> poll_next_block files io
         (st\<lparr>bk_file := Some (drop (a - bk_processed st) rest), bk_has_seeked := True, bk_processed := a\<rparr>))
   else (Some (Inl SkipTooLarge), st))"
  by (subst poll_next_block.simps) (simp add: Let_def split: option.split)

lemma poll_check:
  "bounds st = (a, e) \<Longrightarrow> bk_processed st < e \<Longrightarrow> bk_file st = Some rest \<Longrightarrow> bk_has_seeked st \<or> a \<le> bk_processed st \<Longrightarrow>
   bk_verify st = Some v \<Longrightarrow>
   poll_next_block files io st = (case read_file io (bk_reading st) VERIFY_READ_CHUNK rest of
       Inl er \<Rightarrow> (Some (Inl (IoFailed er)), st)
     | Inr n \<Rightarrow> if n = 0 then finish_verified_block v (st\<lparr>bk_file := None\<rparr>)
         else poll_next_block files io (st\<lparr>bk_file := Some (drop n rest), bk_buf := bk_buf st @ take n rest\<rparr>))"
  by (subst poll_next_block.simps) (auto split: sum.split)

lemma poll_read:
  "bounds st = (a, e) \<Longrightarrow> bk_processed st < e \<Longrightarrow> bk_file st = Some rest \<Longrightarrow> bk_has_seeked st \<or> a \<le> bk_processed st \<Longrightarrow>
   bk_verify st = None \<Longrightarrow>
   poll_next_block files io st = (case read_file io (bk_reading st) (min (e - bk_processed st) 4096) rest of
       Inl er \<Rightarrow> (Some (Inl (IoFailed er)), st)
     | Inr n \<Rightarrow> if n = 0 then poll_next_block files io (st\<lparr>bk_file := None\<rparr>)
         else (Some (Inr (take n rest)), st\<lparr>bk_file := Some (drop n rest), bk_processed := bk_processed st + n\<rparr>))"
  by (subst poll_next_block.simps) (auto split: sum.split)

definition opened :: "bytes \<Rightarrow> block_stream \<Rightarrow> block_stream" where
  "opened bytes st = st\<lparr>bk_reading := bk_fp st, bk_fp := bk_fp st + 1, bk_file := Some bytes, bk_has_seeked := False\<rparr>"

lemma poll_open:
  "bounds st = (a, e) \<Longrightarrow> bk_processed st < e \<Longrightarrow> bk_file st = None \<Longrightarrow>
   poll_next_block files io st = (case skip_files a e st of
     Inl er \<Rightarrow> (Some (Inl er), st)
   | Inr None \<Rightarrow> (None, st)
   | Inr (Some st1) \<Rightarrow>
       if bk_fp st1 \<ge> length (bk_paths st1) then (None, st1)
       else (case ri_open io (bk_fp st1) of
         Some er \<Rightarrow> (Some (Inl (IoFailed er)), st1\<lparr>bk_reading := bk_fp st1, bk_fp := bk_fp st1 + 1\<rparr>)
       | None \<Rightarrow> (case files (fst (bk_paths st1 ! bk_fp st1)) of
           None \<Rightarrow> (Some (Inl (OpenFailed (fst (bk_paths st1 ! bk_fp st1)))), st1\<lparr>bk_reading := bk_fp st1, bk_fp := bk_fp st1 + 1\<rparr>)
         | Some bytes \<Rightarrow> poll_next_block files io (opened bytes st1))))"
  by (subst poll_next_block.simps) (simp add: Let_def opened_def split: sum.split option.split)

text \<open>Induction over the polls of one answer.\<close>

lemma poll_induct [consumes 0, case_names Seek Check Read Open Done]:
  assumes seek: "\<And>st a e rest. bounds st = (a, e) \<Longrightarrow> bk_processed st < e \<Longrightarrow> bk_file st = Some rest \<Longrightarrow> \<not> bk_has_seeked st \<Longrightarrow>
      bk_processed st < a \<Longrightarrow>
      Q (st\<lparr>bk_file := Some (drop (a - bk_processed st) rest), bk_has_seeked := True, bk_processed := a\<rparr>) \<Longrightarrow> Q st"
    and check: "\<And>st a e rest v. bounds st = (a, e) \<Longrightarrow> bk_processed st < e \<Longrightarrow> bk_file st = Some rest \<Longrightarrow>
      bk_has_seeked st \<or> a \<le> bk_processed st \<Longrightarrow> bk_verify st = Some v \<Longrightarrow>
      (\<And>n. rest \<noteq> [] \<Longrightarrow> 0 < n \<Longrightarrow> Q (st\<lparr>bk_file := Some (drop n rest), bk_buf := bk_buf st @ take n rest\<rparr>)) \<Longrightarrow> Q st"
    and "read": "\<And>st a e rest. bounds st = (a, e) \<Longrightarrow> bk_processed st < e \<Longrightarrow> bk_file st = Some rest \<Longrightarrow>
      bk_has_seeked st \<or> a \<le> bk_processed st \<Longrightarrow> bk_verify st = None \<Longrightarrow>
      (rest = [] \<Longrightarrow> Q (st\<lparr>bk_file := None\<rparr>)) \<Longrightarrow> Q st"
    and op: "\<And>st a e. bounds st = (a, e) \<Longrightarrow> bk_processed st < e \<Longrightarrow> bk_file st = None \<Longrightarrow>
      (\<And>st1 bytes. skip_files a e st = Inr (Some st1) \<Longrightarrow> bk_fp st1 < length (bk_paths st1) \<Longrightarrow> Q (opened bytes st1)) \<Longrightarrow> Q st"
    and done_: "\<And>st a e. bounds st = (a, e) \<Longrightarrow> e \<le> bk_processed st \<Longrightarrow> Q st"
  shows "Q st"
proof (induction "(length (bk_paths st) - bk_fp st, file_left st, if bk_has_seeked st then 0 else Suc 0)"
    arbitrary: st rule: wf_induct_rule [OF wf_lex_prod [OF wf_less_than wf_lex_prod [OF wf_less_than wf_less_than]]])
  case (1 st)
  note IH = 1
  obtain a e where bd: "bounds st = (a, e)" by (cases "bounds st")
  show ?case
  proof (cases "bk_processed st < e")
    case True
    show ?thesis
    proof (cases "bk_file st")
      case None
      show ?thesis
        by (rule op [OF bd True None], rule IH) (auto simp: opened_def dest!: skip_files_paths)
    next
      case (Some rest)
      consider (seek) "\<not> bk_has_seeked st" "bk_processed st < a"
        | (check) v where "bk_has_seeked st \<or> a \<le> bk_processed st" "bk_verify st = Some v"
        | (read) "bk_has_seeked st \<or> a \<le> bk_processed st" "bk_verify st = None"
        by fastforce
      then show ?thesis
      proof cases
        case seek
        show ?thesis by (rule assms(1) [OF bd True Some seek], rule IH) (use seek Some in \<open>auto simp: file_left_def\<close>)
      next
        case check
        show ?thesis by (rule assms(2) [OF bd True Some check], rule IH) (use Some in \<open>auto simp: file_left_def\<close>)
      next
        case read
        show ?thesis by (rule assms(3) [OF bd True Some read], rule IH) (use Some in \<open>auto simp: file_left_def\<close>)
      qed
    qed
  qed (use done_ bd in auto)
qed

lemma poll_ahead: "poll_next_block files io st = (Some (Inr bs), st') \<Longrightarrow> ahead st st'"
proof (induction st rule: poll_induct)
  case (Seek st a e rest)
  from Seek.prems [unfolded poll_seek [OF Seek.hyps]]
  have "ahead (st\<lparr>bk_file := Some (drop (a - bk_processed st) rest), bk_has_seeked := True, bk_processed := a\<rparr>) st'"
    by (intro Seek.IH) (auto split: if_splits option.splits)
  then show ?case by (rule ahead_weak [rotated 3]) (simp_all add: file_left_def Seek.hyps)
next
  case (Check st a e rest v)
  from Check.prems obtain n where n: "read_file io (bk_reading st) VERIFY_READ_CHUNK rest = Inr n"
    unfolding poll_check [OF Check.hyps] by (auto split: sum.splits)
  note P = Check.prems [unfolded poll_check [OF Check.hyps] n sum.case] and some = read_file_some [OF n]
  show ?case
  proof (cases "rest = []")
    case True
    with P some have "finish_verified_block v (st\<lparr>bk_file := None\<rparr>) = (Some (Inr bs), st')" by simp
    from finish_verified_fields [OF this] show ?thesis by (simp add: ahead_def file_left_def Check.hyps)
  next
    case False
    have "ahead (st\<lparr>bk_file := Some (drop n rest), bk_buf := bk_buf st @ take n rest\<rparr>) st'"
      by (rule Check.IH [OF False]) (use P some False in auto)
    then show ?thesis by (rule ahead_weak [rotated 3]) (simp_all add: file_left_def Check.hyps)
  qed
next
  case (Read st a e rest)
  from Read.prems obtain n where n: "read_file io (bk_reading st) (min (e - bk_processed st) 4096) rest = Inr n"
    unfolding poll_read [OF Read.hyps] by (auto split: sum.splits)
  note P = Read.prems [unfolded poll_read [OF Read.hyps] n sum.case] and some = read_file_some [OF n]
  show ?case
  proof (cases "rest = []")
    case True
    with P some have "ahead (st\<lparr>bk_file := None\<rparr>) st'" by (intro Read.IH) simp_all
    then show ?thesis by (rule ahead_weak [rotated 3]) (simp_all add: file_left_def Read.hyps)
  next
    case False
    have "st' = st\<lparr>bk_file := Some (drop n rest), bk_processed := bk_processed st + n\<rparr>"
      using P some False by simp
    moreover have "0 < n" "0 < length rest" using some False by simp_all
    ultimately show ?thesis by (simp add: ahead_def file_left_def Read.hyps)
  qed
next
  case (Open st a e)
  note P = Open.prems [unfolded poll_open [OF Open.hyps]]
  then obtain st1 where sk: "skip_files a e st = Inr (Some st1)" by (auto split: sum.splits option.splits)
  with P have fp: "bk_fp st1 < length (bk_paths st1)" by (auto split: if_splits)
  from P sk fp obtain bytes where "poll_next_block files io (opened bytes st1) = (Some (Inr bs), st')"
    by (auto split: option.splits)
  from Open.IH [OF sk fp this] skip_files_paths [OF sk] fp show ?case by (auto simp: ahead_def opened_def)
next
  case (Done st a e)
  then show ?case by (simp add: poll_done)
qed

function serve :: "(path \<Rightarrow> bytes option) \<Rightarrow> read_io \<Rightarrow> block_stream \<Rightarrow> stream_error + bytes" where
  "serve files io st = (case poll_next_block files io st of
     (None, st') \<Rightarrow> Inr []
   | (Some (Inl e), st') \<Rightarrow> Inl e
   | (Some (Inr bs), st') \<Rightarrow> (case serve files io st' of Inl e \<Rightarrow> Inl e | Inr bs' \<Rightarrow> Inr (bs @ bs')))"
  by pat_completeness auto

termination serve
proof (relation "measures [\<lambda>(files, io, st). length (bk_paths st) - bk_fp st, \<lambda>(files, io, st). file_left st]", goal_cases)
  case (2 files io st r st' it bs)
  then have "ahead st st'" by (intro poll_ahead [of files io st bs]) auto
  then show ?case by (auto simp: ahead_def)
qed simp

declare serve.simps [simp del]

subsection \<open>What is served\<close>

definition contents :: "(path \<Rightarrow> bytes option) \<Rightarrow> (path \<times> nat) list \<Rightarrow> bytes" where
  "contents files ps = concat (map (\<lambda>(p, n). the (files p)) ps)"

definition files_match :: "(path \<Rightarrow> bytes option) \<Rightarrow> (path \<times> nat) list \<Rightarrow> bool" where
  "files_match files ps \<longleftrightarrow> (\<forall>(p, n) \<in> set ps. \<exists>bs. files p = Some bs \<and> length bs = n)"

text \<open>The bytes from the current position on, the requested part of them, and the states of a stream that does not verify.\<close>

definition unread :: "(path \<Rightarrow> bytes option) \<Rightarrow> block_stream \<Rightarrow> bytes" where
  "unread files st = (case bk_file st of None \<Rightarrow> [] | Some rest \<Rightarrow> rest) @ contents files (drop (bk_fp st) (bk_paths st))"

definition window :: "(path \<Rightarrow> bytes option) \<Rightarrow> block_stream \<Rightarrow> bytes" where
  "window files st = (case bounds st of (a, e) \<Rightarrow>
     take (e - max a (bk_processed st)) (drop (a - bk_processed st) (unread files st)))"

definition plain_ok :: "(path \<Rightarrow> bytes option) \<Rightarrow> block_stream \<Rightarrow> bool" where
  "plain_ok files st \<longleftrightarrow> bk_verify st = None \<and> files_match files (bk_paths st) \<and> fst (bounds st) < 2 ^ 63 \<and>
     (bk_processed st < fst (bounds st) \<longrightarrow> (case bk_file st of
        None \<Rightarrow> bk_fp st < length (bk_paths st)
      | Some rest \<Rightarrow> \<not> bk_has_seeked st \<and> fst (bounds st) - bk_processed st < length rest))"

lemma contents_step:
  assumes "files_match files ps" "i < length ps"
  shows "contents files (drop i ps) = the (files (fst (ps ! i))) @ contents files (drop (Suc i) ps)"
    "files (fst (ps ! i)) = Some (the (files (fst (ps ! i))))" "length (the (files (fst (ps ! i)))) = snd (ps ! i)"
proof -
  have "drop i ps = ps ! i # drop (Suc i) ps" using assms(2) by (simp add: Cons_nth_drop_Suc)
  then show "contents files (drop i ps) = the (files (fst (ps ! i))) @ contents files (drop (Suc i) ps)"
    by (simp add: contents_def case_prod_beta)
  show "files (fst (ps ! i)) = Some (the (files (fst (ps ! i))))" "length (the (files (fst (ps ! i)))) = snd (ps ! i)"
  proof -
    have "case ps ! i of (p, n) \<Rightarrow> \<exists>bs. files p = Some bs \<and> length bs = n"
      by (rule bspec [OF assms(1) [unfolded files_match_def] nth_mem [OF assms(2)]])
    then obtain bs where "files (fst (ps ! i)) = Some bs" "length bs = snd (ps ! i)" by (auto simp: case_prod_beta)
    then show "files (fst (ps ! i)) = Some (the (files (fst (ps ! i))))" "length (the (files (fst (ps ! i)))) = snd (ps ! i)" by simp_all
  qed
qed

lemma bounds_upd [simp]:
  "bounds (st\<lparr>bk_processed := x\<rparr>) = bounds st" "bounds (st\<lparr>bk_fp := f\<rparr>) = bounds st" "bounds (st\<lparr>bk_file := r\<rparr>) = bounds st"
  "bounds (st\<lparr>bk_has_seeked := b\<rparr>) = bounds st" "bounds (st\<lparr>bk_reading := i\<rparr>) = bounds st" "bounds (st\<lparr>bk_buf := bs\<rparr>) = bounds st"
  by (simp_all add: bounds_def split: range_request.split)

lemma bounds_opened [simp]: "bounds (opened bytes st) = bounds st"
  by (simp add: opened_def)

lemma skip_files_window:
  assumes "bounds st = (a, e)" "bk_file st = None" "plain_ok files st"
  shows "case skip_files a e st of
      Inl _ \<Rightarrow> False
    | Inr None \<Rightarrow> window files st = []
    | Inr (Some st1) \<Rightarrow> window files st1 = window files st \<and> plain_ok files st1 \<and> bounds st1 = (a, e) \<and> bk_file st1 = None \<and>
        (bk_processed st1 < a \<longrightarrow> a < bk_processed st1 + snd (bk_paths st1 ! bk_fp st1))"
  using assms
proof (induction a e st rule: skip_files.induct)
  case (1 a e st)
  note ok = \<open>plain_ok files st\<close> and bd = \<open>bounds st = (a, e)\<close> and fl = \<open>bk_file st = None\<close>
  let ?sz = "snd (bk_paths st ! bk_fp st)"
  let ?st = "st\<lparr>bk_processed := bk_processed st + ?sz, bk_fp := bk_fp st + 1\<rparr>"
  show ?case
  proof (cases "bk_processed st < e \<and> bk_processed st < a \<and> bk_processed st + ?sz \<le> a")
    case False
    have fp: "bk_processed st < a \<Longrightarrow> bk_fp st < length (bk_paths st)" using ok fl bd by (simp add: plain_ok_def)
    show ?thesis using False fp ok bd fl by (subst skip_files.simps) (auto simp: Let_def window_def)
  next
    case True
    have fp: "bk_fp st < length (bk_paths st)" using ok fl bd True by (simp add: plain_ok_def)
    have fm: "files_match files (bk_paths st)" using ok by (simp add: plain_ok_def)
    note step = contents_step [OF fm fp]
    have un: "unread files st = the (files (fst (bk_paths st ! bk_fp st))) @ unread files ?st"
      using fl step(1) by (simp add: unread_def)
    have "?sz \<le> a - bk_processed st" using True by linarith
    then have win: "window files ?st = window files st"
      using True step(3) unfolding window_def by (simp add: bd un)
    show ?thesis
    proof (cases "bk_fp ?st \<ge> length (bk_paths ?st)")
      case end_: True
      have "unread files ?st = []" using end_ fl by (simp add: unread_def contents_def)
      then have "window files st = []" using win by (simp add: window_def bd)
      then show ?thesis using True fp end_ by (subst skip_files.simps) (simp add: Let_def)
    next
      case more: False
      have "plain_ok files ?st" using ok more fl by (simp add: plain_ok_def)
      then have "case skip_files a e ?st of
          Inl _ \<Rightarrow> False
        | Inr None \<Rightarrow> window files ?st = []
        | Inr (Some st1) \<Rightarrow> window files st1 = window files ?st \<and> plain_ok files st1 \<and> bounds st1 = (a, e) \<and> bk_file st1 = None \<and>
            (bk_processed st1 < a \<longrightarrow> a < bk_processed st1 + snd (bk_paths st1 ! bk_fp st1))"
        using True fp more bd fl by (intro "1.IH" [OF _ _ _ refl _ refl]) simp_all
      moreover have "skip_files a e st = skip_files a e ?st"
        using True fp more by (subst skip_files.simps) (simp add: Let_def)
      ultimately show ?thesis unfolding win by simp
    qed
  qed
qed

text \<open>The errors that some call on the block files answers.\<close>

definition io_fault :: "read_io \<Rightarrow> io_error \<Rightarrow> bool" where
  "io_fault io e \<longleftrightarrow> (\<exists>i. ri_open io i = Some e) \<or> (\<exists>i. ri_seek io i = Some e) \<or> (\<exists>i n. ri_read io i n = Inl e)"

lemma read_file_fault: "read_file io i cap rest = Inl e \<Longrightarrow> io_fault io e"
  by (auto simp: read_file_def io_fault_def split: sum.splits)

definition answer_ok :: "(path \<Rightarrow> bytes option) \<Rightarrow> read_io \<Rightarrow> bytes \<Rightarrow> polled \<times> block_stream \<Rightarrow> bool" where
  "answer_ok files io w p = (case p of
      (None, _) \<Rightarrow> w = []
    | (Some (Inl er), _) \<Rightarrow> \<exists>e. er = IoFailed e \<and> io_fault io e
    | (Some (Inr bs), st') \<Rightarrow> w = bs @ window files st' \<and> plain_ok files st')"

lemma answer_ok_simps [simp]:
  "answer_ok files io w (None, st) = (w = [])" "answer_ok files io w (Some (Inl er), st) = (\<exists>e. er = IoFailed e \<and> io_fault io e)"
  "answer_ok files io w (Some (Inr bs), st) = (w = bs @ window files st \<and> plain_ok files st)"
  by (simp_all add: answer_ok_def)

lemma poll_window:
  assumes "plain_ok files st"
  shows "answer_ok files io (window files st) (poll_next_block files io st)"
  using assms
proof (induction st rule: poll_induct)
  case (Seek st a e rest)
  let ?st = "st\<lparr>bk_file := Some (drop (a - bk_processed st) rest), bk_has_seeked := True, bk_processed := a\<rparr>"
  have sm: "a - bk_processed st < 2 ^ 63" "a - bk_processed st < length rest"
    using Seek.prems Seek.hyps by (auto simp: plain_ok_def intro: less_imp_diff_less)
  have "plain_ok files ?st" using Seek.prems Seek.hyps by (simp add: plain_ok_def)
  moreover have "window files ?st = window files st"
    using Seek.hyps sm by (simp add: window_def unread_def)
  ultimately show ?case using Seek.IH sm
    by (cases "ri_seek io (bk_reading st)") (auto simp: poll_seek [OF Seek.hyps] io_fault_def)
next
  case (Check st a e rest v)
  then show ?case by (simp add: plain_ok_def)
next
  case (Read st a e rest)
  have past: "a \<le> bk_processed st" using Read.prems Read.hyps by (auto simp: plain_ok_def)
  show ?case
  proof (cases "read_file io (bk_reading st) (min (e - bk_processed st) 4096) rest")
    case (Inl er)
    then show ?thesis by (simp add: poll_read [OF Read.hyps] read_file_fault [OF Inl])
  next
    case n: (Inr n)
    note some = read_file_some [OF n]
    show ?thesis
    proof (cases "rest = []")
      case True
      have "plain_ok files (st\<lparr>bk_file := None\<rparr>)" using Read.prems Read.hyps past by (simp add: plain_ok_def)
      moreover have "window files (st\<lparr>bk_file := None\<rparr>) = window files st"
        using True Read.hyps by (simp add: window_def unread_def)
      ultimately show ?thesis using Read.IH [OF True] some True n by (simp add: poll_read [OF Read.hyps])
    next
      case False
      have le: "n \<le> e - bk_processed st" "n \<le> length rest"
        using some Read.hyps(2) by auto
      let ?st = "st\<lparr>bk_file := Some (drop n rest), bk_processed := bk_processed st + n\<rparr>"
      have "plain_ok files ?st" using Read.prems Read.hyps past by (simp add: plain_ok_def)
      moreover have "window files st = take n rest @ window files ?st"
      proof -
        let ?m = "e - bk_processed st" and ?X = "contents files (drop (bk_fp st) (bk_paths st))"
        have "window files st = take (n + (?m - n)) (rest @ ?X)"
          using le past Read.hyps by (simp add: window_def unread_def max_def)
        also have "\<dots> = take n (rest @ ?X) @ take (?m - n) (drop n (rest @ ?X))" by (rule take_add)
        finally show ?thesis using le past Read.hyps by (simp add: window_def unread_def max_def)
      qed
      ultimately show ?thesis using some False by (simp add: poll_read [OF Read.hyps] n)
    qed
  qed
next
  case (Open st a e)
  note sk = skip_files_window [OF Open.hyps(1,3) Open.prems]
  show ?case
  proof (cases "skip_files a e st")
    case (Inl er)
    with sk show ?thesis by simp
  next
    case (Inr r)
    show ?thesis
    proof (cases r)
      case None
      with sk Inr show ?thesis by (simp add: poll_open [OF Open.hyps])
    next
      case (Some st1)
      with sk Inr have st1: "window files st1 = window files st" "plain_ok files st1" "bounds st1 = (a, e)" "bk_file st1 = None"
        "bk_processed st1 < a \<longrightarrow> a < bk_processed st1 + snd (bk_paths st1 ! bk_fp st1)" by simp_all
      show ?thesis
      proof (cases "bk_fp st1 < length (bk_paths st1)")
        case False
        then have "unread files st1 = []" using st1(4) by (simp add: unread_def contents_def)
        then have "window files st = []" using st1(1) by (simp add: window_def split: prod.splits)
        then show ?thesis using Inr Some False by (simp add: poll_open [OF Open.hyps])
      next
        case True
        have fm: "files_match files (bk_paths st1)" using st1(2) by (simp add: plain_ok_def)
        note step = contents_step [OF fm True]
        let ?bytes = "the (files (fst (bk_paths st1 ! bk_fp st1)))"
        have "plain_ok files (opened ?bytes st1)"
          using st1 step(3) by (auto simp: plain_ok_def opened_def)
        moreover have "window files (opened ?bytes st1) = window files st"
          using st1 step(1) by (simp add: window_def unread_def opened_def)
        moreover have "poll_next_block files io st = (case ri_open io (bk_fp st1) of
             Some er \<Rightarrow> (Some (Inl (IoFailed er)), st1\<lparr>bk_reading := bk_fp st1, bk_fp := bk_fp st1 + 1\<rparr>)
           | None \<Rightarrow> poll_next_block files io (opened ?bytes st1))"
          using Inr Some True step(2) by (cases "files (fst (bk_paths st1 ! bk_fp st1))") (simp_all add: poll_open [OF Open.hyps] split: option.split)
        ultimately show ?thesis using Open.IH [OF Inr [unfolded Some] True, of ?bytes]
          by (auto simp: io_fault_def split: option.split)
      qed
    qed
  qed
next
  case (Done st a e)
  then show ?case by (simp add: poll_done window_def)
qed

lemma serve_window:
  "plain_ok files st \<Longrightarrow> serve files io st = Inr (window files st) \<or> (\<exists>e. io_fault io e \<and> serve files io st = Inl (IoFailed e))"
proof (induction files io st rule: serve.induct)
  case (1 files io st)
  note P = poll_window [OF 1(2), of io]
  obtain r st' where rs: "poll_next_block files io st = (r, st')" by (cases "poll_next_block files io st")
  consider "r = None" | er where "r = Some (Inl er)" | bs where "r = Some (Inr bs)"
    by (cases r) (auto, metis sumE)
  then show ?case
  proof cases
    case 3
    with P rs have "plain_ok files st'" "window files st = bs @ window files st'" by simp_all
    then show ?thesis using 1(1) [OF rs [symmetric] 3 refl] rs 3 by (auto simp: serve.simps [of files io st])
  qed (use P rs in \<open>auto simp: serve.simps [of files io st]\<close>)
qed

text \<open>A verifying stream. \<open>checked\<close> is what it ought to serve: the blocks in order, up to the first whose bytes do not
  hash to its address.\<close>

fun checked :: "(bytes \<Rightarrow> block_id) \<Rightarrow> (block_id \<times> path \<times> bytes) list \<Rightarrow> stream_error + bytes" where
  "checked hash [] = Inr []"
| "checked hash ((i, p, bs) # rest) =
    (if hash bs \<noteq> i then Inl (Corrupt i (hash bs) p)
     else case checked hash rest of Inl e \<Rightarrow> Inl e | Inr bs' \<Rightarrow> Inr (bs @ bs'))"

definition blocks_from :: "(path \<Rightarrow> bytes option) \<Rightarrow> block_id list \<Rightarrow> (path \<times> nat) list \<Rightarrow> nat \<Rightarrow> (block_id \<times> path \<times> bytes) list" where
  "blocks_from files ids ps i = map (\<lambda>j. (ids ! j, fst (ps ! j), the (files (fst (ps ! j))))) [i ..< length ps]"

lemma blocks_from_step:
  "i < length ps \<Longrightarrow> blocks_from files ids ps i =
     (ids ! i, fst (ps ! i), the (files (fst (ps ! i)))) # blocks_from files ids ps (Suc i)"
  by (simp add: blocks_from_def upt_conv_Cons)

text \<open>Every block file is there; a record's size is positive, and right for a block that is intact.\<close>

definition intact_sizes :: "(path \<Rightarrow> bytes option) \<Rightarrow> (bytes \<Rightarrow> block_id) \<Rightarrow> block_id list \<Rightarrow> (path \<times> nat) list \<Rightarrow> bool" where
  "intact_sizes files hash ids ps \<longleftrightarrow> length ids = length ps \<and> (\<forall>j < length ps. 0 < snd (ps ! j) \<and>
     (\<exists>bs. files (fst (ps ! j)) = Some bs \<and> (hash bs = ids ! j \<longrightarrow> length bs = snd (ps ! j))))"

definition verifying :: "(path \<Rightarrow> bytes option) \<Rightarrow> (bytes \<Rightarrow> block_id) \<Rightarrow> block_id list \<Rightarrow> block_stream \<Rightarrow> bool" where
  "verifying files hash ids st \<longleftrightarrow> bk_verify st = Some \<lparr>bv_hash = hash, bv_ids = ids\<rparr> \<and> bk_range st = All \<and>
     intact_sizes files hash ids (bk_paths st) \<and> (case bk_file st of
       None \<Rightarrow> bk_buf st = [] \<and> bk_size st = bk_processed st + sum_list (map snd (drop (bk_fp st) (bk_paths st)))
     | Some rest \<Rightarrow> bk_fp st = Suc (bk_reading st) \<and> bk_reading st < length (bk_paths st) \<and>
         files (fst (bk_paths st ! bk_reading st)) = Some (bk_buf st @ rest) \<and>
         bk_size st = bk_processed st + sum_list (map snd (drop (bk_reading st) (bk_paths st))))"

definition to_check :: "(path \<Rightarrow> bytes option) \<Rightarrow> block_id list \<Rightarrow> block_stream \<Rightarrow> (block_id \<times> path \<times> bytes) list" where
  "to_check files ids st = blocks_from files ids (bk_paths st) (case bk_file st of None \<Rightarrow> bk_fp st | Some _ \<Rightarrow> bk_reading st)"

definition check_ok ::
  "(path \<Rightarrow> bytes option) \<Rightarrow> read_io \<Rightarrow> (bytes \<Rightarrow> block_id) \<Rightarrow> block_id list \<Rightarrow> (block_id \<times> path \<times> bytes) list \<Rightarrow> polled \<times> block_stream \<Rightarrow> bool" where
  "check_ok files io hash ids w p = (case p of
      (None, _) \<Rightarrow> w = []
    | (Some (Inl er), _) \<Rightarrow> (\<exists>i q bs rest. w = (i, q, bs) # rest \<and> hash bs \<noteq> i \<and> er = Corrupt i (hash bs) q) \<or>
        (\<exists>e. er = IoFailed e \<and> io_fault io e)
    | (Some (Inr bs), st') \<Rightarrow> (\<exists>i q. w = (i, q, bs) # to_check files ids st' \<and> hash bs = i) \<and> verifying files hash ids st')"

lemma skip_files_none: "bounds st = (0, e) \<Longrightarrow> bk_processed st < e \<Longrightarrow> skip_files 0 e st = Inr (Some st)"
  by (subst skip_files.simps) simp

lemma sum_sizes_step: "i < length ps \<Longrightarrow> sum_list (map snd (drop i ps)) = snd (ps ! i) + sum_list (map snd (drop (Suc i) ps))"
  by (simp flip: Cons_nth_drop_Suc)

lemma poll_checked:
  assumes "verifying files hash ids st"
  shows "check_ok files io hash ids (to_check files ids st) (poll_next_block files io st)"
  using assms
proof (induction st rule: poll_induct)
  case (Seek st a e rest)
  then have "a = 0" by (simp add: verifying_def bounds_def)
  with Seek.hyps show ?case by simp
next
  case (Check st a e rest v)
  let ?i = "bk_reading st"
  have v: "v = \<lparr>bv_hash = hash, bv_ids = ids\<rparr>" "bk_fp st = Suc ?i" "?i < length (bk_paths st)"
    "files (fst (bk_paths st ! ?i)) = Some (bk_buf st @ rest)" "bk_range st = All"
    "bk_size st = bk_processed st + sum_list (map snd (drop ?i (bk_paths st)))" "intact_sizes files hash ids (bk_paths st)"
    using Check.prems Check.hyps by (simp_all add: verifying_def)
  show ?case
  proof (cases "read_file io ?i VERIFY_READ_CHUNK rest")
    case (Inl er)
    then show ?thesis by (simp add: poll_check [OF Check.hyps] check_ok_def read_file_fault [OF Inl])
  next
    case n: (Inr n)
    note some = read_file_some [OF n]
    show ?thesis
    proof (cases "rest = []")
      case True
      let ?bs = "bk_buf st"
      have w: "to_check files ids st = (ids ! ?i, fst (bk_paths st ! ?i), ?bs) # blocks_from files ids (bk_paths st) (Suc ?i)"
        using v True Check.hyps by (simp add: to_check_def blocks_from_step)
      have len: "?i < length ids" using v(3,7) by (simp add: intact_sizes_def)
      show ?thesis
      proof (cases "hash ?bs = ids ! ?i")
        case good: True
        have "length ?bs = snd (bk_paths st ! ?i)" using v(3,4,7) good True by (auto simp: intact_sizes_def)
        then have sz: "bk_size st = bk_processed st + length ?bs + sum_list (map snd (drop (Suc ?i) (bk_paths st)))"
          using v(3,6) by (simp add: sum_sizes_step)
        let ?st = "st\<lparr>bk_file := None, bk_buf := [], bk_processed := bk_processed st + length ?bs\<rparr>"
        have "poll_next_block files io st = (Some (Inr ?bs), ?st)"
          using good len some True n by (simp add: poll_check [OF Check.hyps] finish_verified_block_def v(1) Let_def)
        moreover have "verifying files hash ids ?st"
          using Check.prems Check.hyps v sz by (simp add: verifying_def)
        moreover have "to_check files ids ?st = blocks_from files ids (bk_paths st) (Suc ?i)" using v(2) by (simp add: to_check_def)
        ultimately show ?thesis using w good by (simp add: check_ok_def)
      next
        case bad: False
        then have "\<exists>st'. poll_next_block files io st = (Some (Inl (Corrupt (ids ! ?i) (hash ?bs) (fst (bk_paths st ! ?i)))), st')"
          using len some True n by (simp add: poll_check [OF Check.hyps] finish_verified_block_def v(1) Let_def)
        then show ?thesis using w bad by (auto simp: check_ok_def)
      qed
    next
      case False
      let ?st = "st\<lparr>bk_file := Some (drop n rest), bk_buf := bk_buf st @ take n rest\<rparr>"
      have "verifying files hash ids ?st" using Check.prems Check.hyps v by (simp add: verifying_def)
      moreover have "0 < n" using some False by simp
      ultimately have "check_ok files io hash ids (to_check files ids ?st) (poll_next_block files io ?st)"
        using Check.IH [OF False] by blast
      moreover have "to_check files ids ?st = to_check files ids st" using Check.hyps by (simp add: to_check_def)
      ultimately show ?thesis using some False by (simp add: poll_check [OF Check.hyps] n)
    qed
  qed
next
  case (Read st a e rest)
  then show ?case by (simp add: verifying_def)
next
  case (Open st a e)
  have st: "bk_range st = All" "bk_buf st = []" "bk_size st = bk_processed st + sum_list (map snd (drop (bk_fp st) (bk_paths st)))"
    "intact_sizes files hash ids (bk_paths st)"
    using Open.prems Open.hyps by (simp_all add: verifying_def)
  then have ae: "a = 0" "e = bk_size st" using Open.hyps(1) by (simp_all add: bounds_def)
  have fp: "bk_fp st < length (bk_paths st)"
  proof (rule ccontr)
    assume "\<not> bk_fp st < length (bk_paths st)"
    then have "bk_size st = bk_processed st" using st(3) by simp
    with Open.hyps(2) ae(2) show False by simp
  qed
  have sk: "skip_files a e st = Inr (Some st)" using Open.hyps ae by (simp add: skip_files_none)
  obtain bytes where b: "files (fst (bk_paths st ! bk_fp st)) = Some bytes" using st(4) fp by (auto simp: intact_sizes_def)
  have "verifying files hash ids (opened bytes st)"
    using Open.prems Open.hyps st fp b by (simp add: verifying_def opened_def)
  then have "check_ok files io hash ids (to_check files ids (opened bytes st)) (poll_next_block files io (opened bytes st))"
    by (rule Open.IH [OF sk fp])
  moreover have "to_check files ids (opened bytes st) = to_check files ids st"
    using Open.hyps by (simp add: to_check_def opened_def)
  moreover have "poll_next_block files io st = (case ri_open io (bk_fp st) of
       Some er \<Rightarrow> (Some (Inl (IoFailed er)), st\<lparr>bk_reading := bk_fp st, bk_fp := bk_fp st + 1\<rparr>)
     | None \<Rightarrow> poll_next_block files io (opened bytes st))"
    using sk fp b by (simp add: poll_open [OF Open.hyps] split: option.split)
  ultimately show ?case by (auto simp: check_ok_def io_fault_def split: option.split)
next
  case (Done st a e)
  then have e: "e = bk_size st" by (simp add: verifying_def bounds_def)
  let ?i = "case bk_file st of None \<Rightarrow> bk_fp st | Some _ \<Rightarrow> bk_reading st"
  have sz: "bk_size st = bk_processed st + sum_list (map snd (drop ?i (bk_paths st)))" and pos: "intact_sizes files hash ids (bk_paths st)"
    using Done.prems by (auto simp: verifying_def split: option.splits)
  have "\<not> ?i < length (bk_paths st)"
  proof
    assume i: "?i < length (bk_paths st)"
    then have "0 < snd (bk_paths st ! ?i)" using pos by (simp add: intact_sizes_def)
    then show False using sum_sizes_step [OF i] sz Done.hyps(2) e by simp
  qed
  then have "to_check files ids st = []" by (simp add: to_check_def blocks_from_def)
  then show ?case using Done.hyps by (simp add: poll_done check_ok_def)
qed

lemma serve_checked:
  "verifying files hash ids st \<Longrightarrow>
   serve files io st = checked hash (to_check files ids st) \<or> (\<exists>e. io_fault io e \<and> serve files io st = Inl (IoFailed e))"
proof (induction files io st rule: serve.induct)
  case (1 files io st)
  note P = poll_checked [OF 1(2), of io]
  obtain r st' where rs: "poll_next_block files io st = (r, st')" by (cases "poll_next_block files io st")
  consider "r = None" | er where "r = Some (Inl er)" | bs where "r = Some (Inr bs)"
    by (cases r) (auto, metis sumE)
  then show ?case
  proof cases
    case 3
    with P rs have "verifying files hash ids st'" "\<exists>i q. to_check files ids st = (i, q, bs) # to_check files ids st' \<and> hash bs = i"
      by (simp_all add: check_ok_def)
    then show ?thesis using 1(1) [OF rs [symmetric] 3 refl] rs 3 by (auto simp: serve.simps [of files io st])
  qed (use P rs in \<open>auto simp: serve.simps [of files io st] check_ok_def\<close>)
qed

subsection \<open>Properties\<close>

lemma length_contents: "files_match files ps \<Longrightarrow> length (contents files ps) = sum_list (map snd ps)"
  by (induction ps) (auto simp: files_match_def contents_def)

text \<open>C8: A range request is served exactly: whatever the reads return piecemeal, the stream over the block files of an
  object ends after the bytes of the window, first byte and last byte included, and their number is the length
  announced by \<open>size_hint\<close>. The only error it can end in instead is one that the operating system answered to an
  open, a seek or a read.\<close>
theorem block_stream_serves_range:
  assumes "files_match files ps" "sz = sum_list (map snd ps)" "bounds (block_stream_new ps sz r) = (a, e)"
    "a < 2 ^ 63" "ps \<noteq> [] \<or> a = 0"
  shows "(serve files io (block_stream_new ps sz r) = Inr (take (e - a) (drop a (contents files ps))) \<or>
      (\<exists>er. io_fault io er \<and> serve files io (block_stream_new ps sz r) = Inl (IoFailed er))) \<and>
    length (take (e - a) (drop a (contents files ps))) = size_hint (block_stream_new ps sz r)"
proof -
  have "plain_ok files (block_stream_new ps sz r)"
    using assms by (auto simp: plain_ok_def block_stream_new_def)
  moreover have "window files (block_stream_new ps sz r) = take (e - a) (drop a (contents files ps))"
    using assms(3) by (simp add: window_def unread_def) (simp add: block_stream_new_def)
  moreover have "length (take (e - a) (drop a (contents files ps))) = size_hint (block_stream_new ps sz r)"
    using assms(2,3) length_contents [OF assms(1)] by (simp add: size_hint_def) (simp add: block_stream_new_def)
  ultimately show ?thesis using serve_window [of files "block_stream_new ps sz r" io] by simp
qed

definition sample_files :: "path \<Rightarrow> bytes option" where
  "sample_files p = (if p = [''a''] then Some [1, 2, 3] else if p = [''b''] then Some [4, 5] else None)"

text \<open>No call fails, and a read delivers at most \<open>k\<close> bytes.\<close>

definition calm_io :: "nat \<Rightarrow> read_io" where
  "calm_io k = \<lparr>ri_open = \<lambda>_. None, ri_seek = \<lambda>_. None, ri_read = \<lambda>_ _. Inr k\<rparr>"

lemma calm_io_fault [simp]: "\<not> io_fault (calm_io k) e"
  by (simp add: io_fault_def calm_io_def)

theorem block_stream_serves_range_witness:
  "serve sample_files (calm_io 1) (block_stream_new [([''a''], 3), ([''b''], 2)] 5 (Range 2 3)) = Inr [3, 4]"
  using block_stream_serves_range [of sample_files "[([''a''], 3), ([''b''], 2)]" 5 "Range 2 3" 2 4 "calm_io 1"]
  by (simp add: files_match_def sample_files_def contents_def bounds_def block_stream_new_def usize_max_eq)

text \<open>C9: A verifying stream serves a block only if its bytes hash to its address: it serves the blocks of the object in
  order up to the first that does not, and then the error that names that block; the only other error it can end in
  is one that the operating system answered to an open or a read.\<close>
theorem block_stream_verifies:
  assumes "intact_sizes files hash ids ps" "sz = sum_list (map snd ps)"
  shows "serve files io (verified hash ids (block_stream_new ps sz All)) = checked hash (blocks_from files ids ps 0) \<or>
    (\<exists>er. io_fault io er \<and> serve files io (verified hash ids (block_stream_new ps sz All)) = Inl (IoFailed er))"
proof -
  have "verifying files hash ids (verified hash ids (block_stream_new ps sz All))"
    using assms by (simp add: verifying_def verified_def block_stream_new_def intact_sizes_def)
  moreover have "to_check files ids (verified hash ids (block_stream_new ps sz All)) = blocks_from files ids ps 0"
    using assms(1) by (simp add: to_check_def verified_def block_stream_new_def intact_sizes_def)
  ultimately show ?thesis using serve_checked [of files hash ids "verified hash ids (block_stream_new ps sz All)" io] by simp
qed

definition sample_hash :: "bytes \<Rightarrow> block_id" where
  "sample_hash bs = BlockId (bs @ replicate (32 - length bs) 0) 32"

theorem block_stream_verifies_witness:
  "serve sample_files (calm_io 2) (verified sample_hash [sample_hash [1, 2, 3], sample_hash [9, 9]]
     (block_stream_new [([''a''], 3), ([''b''], 2)] 5 All)) =
   Inl (Corrupt (sample_hash [9, 9]) (sample_hash [4, 5]) [''b''])"
proof -
  have "intact_sizes sample_files sample_hash [sample_hash [1, 2, 3], sample_hash [9, 9]] [([''a''], 3), ([''b''], 2)]"
    by (auto simp: intact_sizes_def sample_files_def less_Suc_eq sample_hash_def)
  from block_stream_verifies [OF this, of 5 "calm_io 2"] show ?thesis
    by (simp add: blocks_from_def sample_files_def sample_hash_def)
qed

text \<open>C18: A range that starts past the first byte of an object without blocks makes the stream index its empty list of
  files.\<close>
theorem block_stream_empty_range:
  "0 < start \<Longrightarrow> start \<le> end \<Longrightarrow>
   poll_next_block files io (block_stream_new [] 0 (Range start end)) =
     (Some (Inl OutOfBounds), block_stream_new [] 0 (Range start end))"
proof -
  assume se: "0 < start" "start \<le> end"
  let ?st = "block_stream_new [] 0 (Range start end)"
  have a: "0 < unat start" using se by (simp add: unat_gt_0)
  have bd: "bounds ?st = (unat start, min (unat end + 1) usize_max)" by (simp add: bounds_def block_stream_new_def)
  have e: "bk_processed ?st < min (unat end + 1) usize_max" by (simp add: block_stream_new_def usize_max_eq)
  have "skip_files (unat start) (min (unat end + 1) usize_max) ?st = Inl OutOfBounds"
    using a e by (subst skip_files.simps) (simp add: block_stream_new_def)
  then show ?thesis using poll_open [OF bd e] by (simp add: block_stream_new_def)
qed

theorem block_stream_empty_range_witness:
  "fst (poll_next_block sample_files (calm_io 1) (block_stream_new [] 0 (Range 1 1))) = Some (Inl OutOfBounds)"
  using block_stream_empty_range [of 1 1 sample_files "calm_io 1"] by simp

end
