(* ===== verification/ReadPath.thy ===== *)
theory ReadPath
  imports BlockStream
begin

text \<open>
  The read path (\<open>cas/read_path.rs\<close>): the record of an object and the block files it is served from. The
  lemmas show that a stored object can be read: its block records are there, because every object holds a
  reference on each of its blocks, and the files they name hold the bytes that were stored.
\<close>

subsection \<open>The code\<close>

definition get_object_meta :: "('n, 's, 'd) env \<Rightarrow> string \<Rightarrow> bytes \<Rightarrow> ('n, 's, 'd, object option) cas_act" where
  "get_object_meta E bucket key = on_ns (get_meta (en_ns E) bucket key)"

fun block_files :: "('n, 's, 'd) env \<Rightarrow> block_id list \<Rightarrow> ('n, 's, 'd, (path \<times> nat) list) cas_act" where
  "block_files E [] = ret []"
| "block_files E (i # is) =
    bindM (on_sh (get_block (en_sh E) (as_slice i))) (\<lambda>r. case r of
      None \<Rightarrow> raise (CMeta BlockNotFound)
    | Some b \<Rightarrow>
        bindM (block_files E is) (\<lambda>ps. ret ((block_path (hex_of E) b i (wr_root (writer_of E)), unat (blk_size b)) # ps)))"

definition get_object_paths ::
  "('n, 's, 'd) env \<Rightarrow> string \<Rightarrow> bytes \<Rightarrow> ('n, 's, 'd, (object \<times> (path \<times> nat) list) option) cas_act" where
  "get_object_paths E bucket key =
    bindM (get_object_meta E bucket key) (\<lambda>r. case r of
      None \<Rightarrow> ret None
    | Some obj_meta \<Rightarrow>
        if is_inlined obj_meta then ret (Some (obj_meta, []))
        else bindM (block_files E (object_blocks obj_meta)) (\<lambda>paths. ret (Some (obj_meta, paths))))"

subsection \<open>What is read\<close>

definition object_at :: "content \<Rightarrow> string \<Rightarrow> bytes \<Rightarrow> object option" where
  "object_at c b k = (case map_of (c b) k of
     None \<Rightarrow> None
   | Some raw \<Rightarrow> (case object_try_from raw of Inr ob \<Rightarrow> Some ob | Inl _ \<Rightarrow> None))"

definition block_file_of :: "cas_params \<Rightarrow> content \<Rightarrow> block_id \<Rightarrow> path \<times> nat \<Rightarrow> bool" where
  "block_file_of P sc h p \<longleftrightarrow> (case blk_of sc h of
     None \<Rightarrow> False
   | Some b \<Rightarrow> p = (block_disk_path (cp_hex P) h (blk_depth b) (wr_root (cp_writer P)), unat (blk_size b)))"

text \<open>No other block of the store has the hash of this one. Among all byte strings some have, as there are only so many
  ids; the condition is about the strings that ever are blocks of this store.\<close>

definition unique_hash :: "cas_params \<Rightarrow> bytes \<Rightarrow> bool" where
  "unique_hash P bs \<longleftrightarrow> bs \<in> cp_known P \<and> (\<forall>bs' \<in> cp_known P. block_hash P bs' = block_hash P bs \<longrightarrow> bs' = bs)"

lemma unique_hash_block: "unique_hash P bs \<Longrightarrow> is_block P bs' (block_hash P bs) \<Longrightarrow> bs' = bs"
  by (simp add: unique_hash_def is_block_def)

lemma object_atD: "object_at c b k = Some ob \<Longrightarrow> \<exists>raw. map_of (c b) k = Some raw \<and> object_try_from raw = Inr ob"
  by (simp add: object_at_def split: option.splits sum.splits)

lemma object_at_refs:
  assumes "cont_ok c" "finite {n. c n \<noteq> []}" "\<not> reserved_name b" "object_at c b k = Some ob"
  shows "count_list (object_blocks ob) h \<le> ns_refs c h"
proof -
  obtain raw where "map_of (c b) k = Some raw" "object_try_from raw = Inr ob" using object_atD [OF assms(4)] by blast
  with ns_refs_del [OF assms(1-3), of k h] show ?thesis by (simp add: obj_refs_def)
qed

lemma object_at_wf: "object_at c b k = Some ob \<Longrightarrow> h \<in> set (object_blocks ob) \<Longrightarrow> wf_block_id h"
  using object_atD object_blocks_wf by blast

lemma held_block:
  assumes "cas_inv P g nc sc f nonce" "wf_block_id h" "0 < ns_refs nc h + part_refs sc h + gh_refs g h"
  shows "\<exists>b. blk_of sc h = Some b"
proof -
  have "ns_refs nc h + part_refs sc h + gh_refs g h \<le> rc_of sc h" using assms(1,2) unfolding cas_inv_def acct_def by blast
  then show ?thesis using assms(3) by (cases "blk_of sc h") (simp_all add: rc_of_def)
qed

lemma block_file_served:
  assumes "cas_inv P g nc sc f nonce" "block_file_of P sc (block_hash P c) p" "wf_block_id (block_hash P c)"
    "block_hash P c \<notin> gh_degraded g" "unique_hash P c" "length c < 2 ^ 64"
  shows "f (fst p) = Some c \<and> snd p = length c"
proof -
  from assms(2) obtain b where b: "blk_of sc (block_hash P c) = Some b"
    "p = (block_disk_path (cp_hex P) (block_hash P c) (blk_depth b) (wr_root (cp_writer P)), unat (blk_size b))"
    by (auto simp: block_file_of_def split: option.splits)
  have "\<not> is_degraded b" using assms(1,3,4) b(1) by (auto simp: cas_inv_def degraded_in_def)
  with assms(1,3) b(1) obtain n where "at_depth P f (block_hash P c) (blk_depth b)" "has_len P (block_hash P c) n" "blk_size b = of_nat n"
    by (auto simp: cas_inv_def files_ok_def)
  then show ?thesis using assms(5,6) b(2) by (auto simp: at_depth_def has_len_def unat_of_nat_eq dest!: unique_hash_block [OF assms(5)])
qed

lemma block_files_served:
  assumes inv: "cas_inv P g nc sc f nonce" and ps: "list_all2 (block_file_of P sc) (map (block_hash P) cs) ps"
    and cs: "\<And>c. c \<in> set cs \<Longrightarrow> wf_block_id (block_hash P c) \<and> block_hash P c \<notin> gh_degraded g \<and> unique_hash P c \<and> length c < 2 ^ 64"
  shows "files_match f ps \<and> contents f ps = concat cs \<and> sum_list (map snd ps) = length (concat cs) \<and> length ps = length cs"
  using ps cs
proof (induction cs arbitrary: ps)
  case (Cons c cs)
  then obtain p ps' where p: "ps = p # ps'" "block_file_of P sc (block_hash P c) p"
    "list_all2 (block_file_of P sc) (map (block_hash P) cs) ps'" by (auto simp: list_all2_Cons1)
  have "f (fst p) = Some c \<and> snd p = length c"
    by (rule block_file_served [OF inv p(2)]) (use Cons.prems(2) in auto)
  then show ?case using Cons.IH [OF p(3)] Cons.prems(2)
    by (cases p) (auto simp: p(1) files_match_def contents_def)
qed (auto simp: files_match_def contents_def)

context cas_contract
begin

definition reads_only :: "('n, 's, 'd) cas \<Rightarrow> ('n, 's, 'd) cas \<Rightarrow> bool" where
  "reads_only s s' \<longleftrightarrow> ncont (cs_ns s') = ncont (cs_ns s) \<and> scont (cs_sh s') = scont (cs_sh s) \<and> cs_bs s' = cs_bs s"

abbreviation lookup_fault :: "meta_error \<Rightarrow> bool" where
  "lookup_fault m \<equiv> read_fault (en_ns E) m \<or> read_fault (en_sh E) m"

lemma block_files_spec:
  assumes "cas_ok g s" "\<forall>h \<in> set is. blk_of (scont (cs_sh s)) h \<noteq> None"
  shows "wp (block_files E is)
    (\<lambda>ps s'. cas_ok g s' \<and> reads_only s s' \<and> list_all2 (block_file_of (en_params E) (scont (cs_sh s))) is ps)
    (\<lambda>e s'. cas_ok g s' \<and> reads_only s s' \<and> (\<exists>m. e = CMeta m \<and> lookup_fault m)) s"
  using assms
proof (induction "is" arbitrary: s)
  case Nil
  then show ?case by (simp add: reads_only_def)
next
  case (Cons i "is" s)
  have step: "cas_ok g (s\<lparr>cs_sh := t\<rparr>) \<and> reads_only s (s\<lparr>cs_sh := t\<rparr>)" if "sh.same (cs_sh s) t" for t
    using that Cons.prems(1) by (simp add: cas_ok_def reads_only_def)
  obtain b where b: "blk_of (scont (cs_sh s)) i = Some b" using Cons.prems(2) by auto
  show ?case unfolding block_files.simps wp_bindM wp_on_sh
  proof (rule wp_mono [OF sh.get_block_spec [OF cas_okD(4) [OF Cons.prems(1)]]], goal_cases)
    case (1 r t)
    let ?u = "s\<lparr>cs_sh := t\<rparr>"
    have ih: "wp (block_files E is)
      (\<lambda>ps s'. cas_ok g s' \<and> reads_only ?u s' \<and> list_all2 (block_file_of (en_params E) (scont (cs_sh ?u))) is ps)
      (\<lambda>e s'. cas_ok g s' \<and> reads_only ?u s' \<and> (\<exists>m. e = CMeta m \<and> lookup_fault m)) ?u"
      by (rule Cons.IH) (use step [of t] 1 Cons.prems(2) in auto)
    have r: "r = Some b" using 1 b by simp
    show ?case unfolding r option.case wp_bindM wp_ret_fun
      by (rule wp_mono [OF ih]) (use 1 b in \<open>auto simp: reads_only_def block_file_of_def block_path_def\<close>)
  next
    case (2 e t)
    then show ?case using step [of t] b by simp
  qed
qed

lemma get_object_paths_spec:
  assumes ok: "cas_ok g s" and b: "\<not> reserved_name b"
  shows "wp (get_object_paths E b k)
    (\<lambda>r s'. cas_ok g s' \<and> reads_only s s' \<and> (case r of
        None \<Rightarrow> map_of (ncont (cs_ns s) b) k = None
      | Some (ob, ps) \<Rightarrow> object_at (ncont (cs_ns s)) b k = Some ob \<and>
          list_all2 (block_file_of (en_params E) (scont (cs_sh s))) (object_blocks ob) ps))
    (\<lambda>e s'. cas_ok g s' \<and> reads_only s s' \<and>
       (object_at (ncont (cs_ns s)) b k \<noteq> None \<longrightarrow> (\<exists>m. e = CMeta m \<and> lookup_fault m))) s"
    (is "wp _ ?Q ?R s")
proof -
  note D = cas_okD [OF ok]
  have step: "cas_ok g (s\<lparr>cs_ns := t\<rparr>) \<and> reads_only s (s\<lparr>cs_ns := t\<rparr>)" if "ns.same (cs_ns s) t" for t
    using that ok by (simp add: cas_ok_def reads_only_def)
  show ?thesis unfolding get_object_paths_def get_object_meta_def wp_bindM wp_on_ns
  proof (rule wp_mono [OF ns.get_meta_spec [OF D(2)]], goal_cases)
    case (1 r t)
    let ?u = "s\<lparr>cs_ns := t\<rparr>"
    show ?case
    proof (cases r)
      case None
      then show ?thesis using 1 step [of t] by simp
    next
      case (Some ob)
      then have at: "object_at (ncont (cs_ns s)) b k = Some ob" using 1 by (auto simp: object_at_def)
      have held: "\<forall>h \<in> set (object_blocks ob). blk_of (scont (cs_sh ?u)) h \<noteq> None"
      proof
        fix h assume h: "h \<in> set (object_blocks ob)"
        have "0 < count_list (object_blocks ob) h" using h by (metis count_list_0_iff not_gr_zero)
        then have "0 < ns_refs (ncont (cs_ns s)) h"
          using object_at_refs [OF ns.inv_cont [OF D(2)] ns.finite_cont [OF D(2)] b at, of h] by simp
        with held_block [OF D(7) object_at_wf [OF at h]] show "blk_of (scont (cs_sh ?u)) h \<noteq> None" by auto
      qed
      have files: "wp (block_files E (object_blocks ob))
        (\<lambda>ps s'. cas_ok g s' \<and> reads_only ?u s' \<and> list_all2 (block_file_of (en_params E) (scont (cs_sh ?u))) (object_blocks ob) ps)
        (\<lambda>e s'. cas_ok g s' \<and> reads_only ?u s' \<and> (\<exists>m. e = CMeta m \<and> lookup_fault m)) ?u"
        by (rule block_files_spec [OF _ held]) (use step [of t] 1 in simp)
      show ?thesis
      proof (cases "is_inlined ob")
        case True
        then have "object_blocks ob = []"
          by (auto simp: is_inlined_def object_blocks_def split: object_data.splits)
        then show ?thesis using True Some 1 step [of t] at by simp
      next
        case False
        show ?thesis unfolding Some option.case if_not_P [OF False] wp_bindM wp_ret_fun
          by (rule wp_mono [OF files]) (use 1 at in \<open>auto simp: reads_only_def\<close>)
      qed
    qed
  next
    case (2 e t)
    then show ?case using step [of t] by (auto simp: object_at_def split: option.splits sum.splits)
  qed
qed

end

end
