(* ===== verification/CasStore.thy ===== *)
theory CasStore
  imports ReadPath "HOL-Library.Code_Target_Numeral"
begin

text \<open>
  The store as it is deployed: both databases on fjall, the block files on a file system. This theory puts the
  components together, shows that the contract of a whole store holds of them, and states what a client of the
  store relies on: that a PUT, a DELETE and a GET behave like updates and lookups of a map, whatever the blocks
  they share, and that an operation that fails loses no block that is in use.
\<close>

subsection \<open>The assembled store\<close>

definition fjall_env ::
  "'a fjall \<Rightarrow> persist_mode \<Rightarrow> 'b fjall \<Rightarrow> persist_mode \<Rightarrow> cas_params \<Rightarrow> ('a fjall_store, 'b fjall_store, disk) env" where
  "fjall_env F nm G sm P =
    \<lparr>en_ns = fjall_store_ops F nm, en_sh = fjall_store_ops G sm, en_disk = real_disk_ops, en_params = P\<rparr>"

lemma fjall_env_simps [simp]:
  "en_ns (fjall_env F nm G sm P) = fjall_store_ops F nm" "en_sh (fjall_env F nm G sm P) = fjall_store_ops G sm"
  "en_disk (fjall_env F nm G sm P) = real_disk_ops" "en_params (fjall_env F nm G sm P) = P"
  by (simp_all add: fjall_env_def)

interpretation fc: cas_contract "fjall_env F nm G sm P"
  "fjall_holds F V {}" fst_tx "fjall_cont V" "fjall_txv V" "fjall_names V"
  "fjall_holds G W shared_trees" fst_tx "fjall_cont W" "fjall_txv W" "fjall_names W" disk_ok disk_file
  for F nm V G sm W P
  unfolding cas_contract_def fjall_env_simps
  by (intro conjI fjs.store_contract_axioms rd.disk_contract_axioms)

definition objects :: "'a fjall_view \<Rightarrow> ('a fjall_store, 'b fjall_store, disk) cas \<Rightarrow> string \<Rightarrow> bytes \<Rightarrow> object option" where
  "objects V s b k = (if reserved_name b then None else object_at (fjall_cont V (cs_ns s)) b k)"

definition store_ok ::
  "'a fjall \<Rightarrow> 'a fjall_view \<Rightarrow> 'b fjall \<Rightarrow> 'b fjall_view \<Rightarrow> cas_params \<Rightarrow> ghost \<Rightarrow>
   ('a fjall_store, 'b fjall_store, disk) cas \<Rightarrow> bool" where
  "store_ok F V G W P g s \<longleftrightarrow> params_ok P \<and> fjall_holds F V {} (cs_ns s) \<and> \<not> fst_tx (cs_ns s) \<and>
     fjall_holds G W shared_trees (cs_sh s) \<and> \<not> fst_tx (cs_sh s) \<and> disk_ok (bs_disk (cs_bs s)) \<and>
     cas_inv P g (fjall_cont V (cs_ns s)) (fjall_cont W (cs_sh s)) (disk_file (bs_disk (cs_bs s))) (bs_nonce (cs_bs s))"


lemma cas_ok_store_ok [simp]: "fc.cas_ok F nm G sm P V W g s = store_ok F V G W P g s"
  by (simp add: fc.cas_ok_def store_ok_def)

subsection \<open>Reading an object\<close>

text \<open>The \<open>retrieve\<close> command of \<open>s3cas\<close>, up to the file it writes: \<open>files\<close> is what opening a path finds, \<open>io\<close> what the
  calls on the block files answer. An error of the stream ends the command.\<close>

definition stream_failure :: "stream_error \<Rightarrow> cas_error" where
  "stream_failure e = (case e of
     OpenFailed p \<Rightarrow> CIo (IoError NotFound ''opening a block file'')
   | IoFailed er \<Rightarrow> CIo er
   | SkipTooLarge \<Rightarrow> CIo (IoError InvalidInput ''range start does not fit the platform address space'')
   | NoAddress i \<Rightarrow> CIo (IoError OtherKind ''no block address to verify block against'')
   | Corrupt expected actual p \<Rightarrow> CIo (IoError InvalidData ''corrupt block'')
   | OutOfBounds \<Rightarrow> CPanic ''index out of bounds'')"

definition retrieve ::
  "('n, 's, 'd) env \<Rightarrow> ('d \<Rightarrow> path \<Rightarrow> bytes option) \<Rightarrow> read_io \<Rightarrow> string \<Rightarrow> bytes \<Rightarrow> ('n, 's, 'd, bytes option) cas_act" where
  "retrieve E files io bucket key =
    bindM (get_object_paths E bucket key) (\<lambda>r. case r of
      None \<Rightarrow> ret None
    | Some (obj_meta, paths) \<Rightarrow> (case inlined obj_meta of
        Some data \<Rightarrow> ret (Some data)
      | None \<Rightarrow> (\<lambda>s.
          let block_size = sum_list (map snd paths) in
          case serve (files (bs_disk (cs_bs s))) io (block_stream_new paths block_size All) of
            Inl e \<Rightarrow> (Inl (stream_failure e), s)
          | Inr bytes \<Rightarrow> (Inr (Some bytes), s))))"

text \<open>The bytes \<open>data\<close> are what an object record stands for: its inlined bytes, or blocks with these hashes, of which
  no block is marked degraded.\<close>

definition object_holds :: "cas_params \<Rightarrow> block_id set \<Rightarrow> object \<Rightarrow> bytes \<Rightarrow> bool" where
  "object_holds P D ob data \<longleftrightarrow> (case inlined ob of
     Some d \<Rightarrow> d = data
   | None \<Rightarrow> \<exists>cs. object_blocks ob = map (block_hash P) cs \<and> concat cs = data \<and>
       (\<forall>c \<in> set cs. unique_hash P c \<and> block_hash P c \<notin> D \<and> length c < 2 ^ 64))"

lemma serve_whole:
  "files_match files ps \<Longrightarrow> sz = sum_list (map snd ps) \<Longrightarrow>
   serve files io (block_stream_new ps sz All) = Inr (contents files ps) \<or>
   (\<exists>e. io_fault io e \<and> serve files io (block_stream_new ps sz All) = Inl (IoFailed e))"
  using serve_window [of files "block_stream_new ps sz All" io] length_contents [of files ps]
  by (simp add: plain_ok_def bounds_def window_def unread_def block_stream_new_def)

text \<open>A lookup in one of the two databases fails.\<close>

definition db_fault :: "'a fjall \<Rightarrow> 'b fjall \<Rightarrow> meta_error \<Rightarrow> bool" where
  "db_fault F G m \<longleftrightarrow> fjall_fault F m \<or> fjall_fault G m"

lemma lookup_faults:
  "read_fault (fjall_store_ops F nm) m \<Longrightarrow> db_fault F G m" "read_fault (fjall_store_ops G sm) m \<Longrightarrow> db_fault F G m"
  by (auto simp: db_fault_def dest: read_fault_fjall)

lemma retrieve_spec:
  assumes ok: "store_ok F V G W P g s" and b: "\<not> reserved_name b"
    and at: "object_at (fjall_cont V (cs_ns s)) b k = Some ob" and holds: "object_holds P (gh_degraded g) ob data"
  shows "wp (retrieve (fjall_env F nm G sm P) disk_file io b k)
    (\<lambda>r s'. r = Some data \<and> store_ok F V G W P g s') 
    (\<lambda>e s'. ((\<exists>m. e = CMeta m \<and> db_fault F G m) \<or> (\<exists>er. e = CIo er \<and> io_fault io er)) \<and> store_ok F V G W P g s') s"
    (is "wp _ ?Q ?R s")
  unfolding retrieve_def wp_bindM
proof (rule wp_mono [OF fc.get_object_paths_spec [where g = g and V = V and W = W, unfolded cas_ok_store_ok fjall_env_simps, OF ok b]], goal_cases)
  case (1 r s')
  then obtain ps where r: "r = Some (ob, ps)" and ok': "store_ok F V G W P g s'"
    and ps: "list_all2 (block_file_of P (fjall_cont W (cs_sh s))) (object_blocks ob) ps"
    and bs: "cs_bs s' = cs_bs s"
    using at object_atD [OF at] by (auto simp: fc.reads_only_def split: option.splits)
  show ?case
  proof (cases "inlined ob")
    case None
    with holds obtain cs where cs: "object_blocks ob = map (block_hash P) cs" "concat cs = data"
      "\<forall>c \<in> set cs. unique_hash P c \<and> block_hash P c \<notin> gh_degraded g \<and> length c < 2 ^ 64"
      by (auto simp: object_holds_def)
    have wf: "wf_block_id (block_hash P c)" if "c \<in> set cs" for c
      using object_at_wf [OF at] cs(1) that by simp
    have inv: "cas_inv P g (fjall_cont V (cs_ns s)) (fjall_cont W (cs_sh s)) (disk_file (bs_disk (cs_bs s))) (bs_nonce (cs_bs s))"
      using ok by (simp add: store_ok_def)
    have "files_match (disk_file (bs_disk (cs_bs s))) ps \<and> contents (disk_file (bs_disk (cs_bs s))) ps = data"
      using block_files_served [OF inv ps [unfolded cs(1)]] cs(2,3) wf by auto
    then show ?thesis using None r ok' bs serve_whole [of "disk_file (bs_disk (cs_bs s))" ps _ io]
      by (auto simp: wp_def stream_failure_def)
  next
    case (Some d)
    then show ?thesis using holds r ok' by (simp add: object_holds_def)
  qed
next
  case (2 e s')
  then show ?case using at by (auto intro: lookup_faults)
qed

subsection \<open>Requests\<close>

definition body :: "(io_error + bytes) list \<Rightarrow> bytes" where
  "body frames = concat (map projr frames)"

text \<open>The cost of a PUT: the blocks it stores. The reference counters and the temp-name counter are 64 bits wide.\<close>

definition block_count :: "bytes \<Rightarrow> nat" where
  "block_count data = length (chunks_of BLOCK_SIZE data)"

text \<open>A PUT that names a bucket, whose body arrives without an error, and that the counters have room for; its blocks are among
  the known ones.\<close>

definition put_request_ok :: "cas_params \<Rightarrow> ghost \<Rightarrow> string \<Rightarrow> (io_error + bytes) list \<Rightarrow> nat \<Rightarrow> bool" where
  "put_request_ok P g b frames len \<longleftrightarrow> \<not> reserved_name b \<and> (\<forall>f \<in> set frames. \<not> isl f) \<and> (len = 0 \<longrightarrow> body frames = []) \<and>
     set (chunks_of BLOCK_SIZE (body frames)) \<subseteq> cp_known P \<and>
     2 * block_count (body frames) \<le> gh_room g \<and> block_count (body frames) \<le> gh_nonces g \<and> block_count (body frames) < 2 ^ 57"

definition after_put :: "ghost \<Rightarrow> bytes \<Rightarrow> ghost" where
  "after_put g data = g\<lparr>gh_room := gh_room g - 2 * block_count data, gh_nonces := gh_nonces g - block_count data\<rparr>"

definition put_record :: "cas_params \<Rightarrow> i64 \<Rightarrow> bytes \<Rightarrow> object" where
  "put_record P now data = object_new now (of_nat (length data)) (cp_md5 P data)
     (SinglePart (map (block_hash P) (chunks_of BLOCK_SIZE data)))"

text \<open>What the bookkeeping is left with when batches have been closed: their staged files are no longer theirs, and a
  group that is replayed may count an occurrence twice.\<close>

definition after_close :: "ghost \<Rightarrow> batch_entry list \<Rightarrow> ghost" where
  "after_close g es = g\<lparr>gh_nonces := gh_nonces g - length (filter is_deduped es),
     gh_temps := gh_temps g |` (- set (staged_paths es)), gh_room := gh_room g - 2 * length (occ_list es)\<rparr>"

text \<open>The map from bucket and key to object records, updated in one place.\<close>

definition obj_upd :: "(string \<Rightarrow> bytes \<Rightarrow> object option) \<Rightarrow> string \<Rightarrow> bytes \<Rightarrow> object option \<Rightarrow> string \<Rightarrow> bytes \<Rightarrow> object option" where
  "obj_upd m b k v = m(b := (m b)(k := v))"

lemma wp_run: "wp m Q R s \<Longrightarrow> m s = (r, s') \<Longrightarrow> (case r of Inr x \<Rightarrow> Q x s' | Inl e \<Rightarrow> R e s')"
  by (simp add: wp_def split: sum.splits)

lemma objects_stored:
  assumes "stored_at (fjall_cont V (cs_ns s)) b k ob (fjall_cont V (cs_ns s'))" "\<not> reserved_name b"
    "object_try_from (object_to_vec ob) = Inr ob"
  shows "objects V s' = obj_upd (objects V s) b k (Some ob)"
proof -
  have "fjall_cont V (cs_ns s') n = cont_ins b k (object_to_vec ob) (fjall_cont V (cs_ns s)) n" if "\<not> reserved_name n" for n
    using assms(1) that unfolding stored_at_def by (metis reserved_trees(1))
  then show ?thesis using assms(2,3) by (simp add: fun_eq_iff objects_def obj_upd_def object_at_def)
qed

lemma objects_same: "fjall_cont V (cs_ns s') = fjall_cont V (cs_ns s) \<Longrightarrow> objects V s' = objects V s"
  by (rule ext)+ (simp add: objects_def)

lemma objects_deleted:
  assumes "\<forall>n. n \<noteq> DEFAULT_USAGE_TREE \<longrightarrow> fjall_cont V (cs_ns s') n = cont_del b k (fjall_cont V (cs_ns s)) n"
    "\<not> reserved_name b" "cont_ok (fjall_cont V (cs_ns s))"
  shows "objects V s' = obj_upd (objects V s) b k None"
proof -
  have "fjall_cont V (cs_ns s') n = cont_del b k (fjall_cont V (cs_ns s)) n" if "\<not> reserved_name n" for n
    using assms(1) that by (metis reserved_trees(1))
  then show ?thesis using assms(2,3) by (simp add: fun_eq_iff objects_def obj_upd_def object_at_def)
qed

lemma store_ok_cont: "store_ok F V G W P g s \<Longrightarrow> cont_ok (fjall_cont V (cs_ns s))"
  by (auto simp: store_ok_def intro: fjs.inv_cont)

lemma put_record_decodes:
  "params_ok P \<Longrightarrow> block_count data < 2 ^ 57 \<Longrightarrow> object_try_from (object_to_vec (put_record P now data)) = Inr (put_record P now data)"
  unfolding put_record_def block_count_def by (rule blocks_decode) simp_all

lemma put_run:
  assumes ok: "store_ok F V G W P g s" and rq: "put_request_ok P g b frames len"
  shows "wp (store_single_object_and_meta (fjall_env F nm G sm P) now b k frames len)
    (\<lambda>r s'. r = put_record P now (body frames) \<and> store_ok F V G W P (after_put g (body frames)) s' \<and>
       objects V s' = obj_upd (objects V s) b k (Some r) \<and>
       stored_at (fjall_cont V (cs_ns s)) b k r (fjall_cont V (cs_ns s')))
    (\<lambda>e s'. store_ok F V G W P (after_put g (body frames)) s' \<and>
       (objects V s' = objects V s \<or> objects V s' = obj_upd (objects V s) b k (Some (put_record P now (body frames))))) s"
proof -
  let ?ob = "put_record P now (body frames)"
  have dec: "object_try_from (object_to_vec ?ob) = Inr ?ob"
    by (rule put_record_decodes) (use ok rq in \<open>auto simp: store_ok_def put_request_ok_def\<close>)
  have put: "wp (store_single_object_and_meta (fjall_env F nm G sm P) now b k frames len)
    (\<lambda>r s'. r = ?ob \<and> store_ok F V G W P (after_put g (body frames)) s' \<and>
       stored_at (fjall_cont V (cs_ns s)) b k ?ob (fjall_cont V (cs_ns s')) \<and>
       (\<forall>n. n \<noteq> DEFAULT_BLOCK_TREE \<longrightarrow> fjall_cont W (cs_sh s') n = fjall_cont W (cs_sh s) n))
    (\<lambda>e s'. (no_panic e \<or> e = CPanic ''called Result::unwrap() on an Err value'') \<and>
       store_ok F V G W P (after_put g (body frames)) s' \<and>
       (fjall_cont V (cs_ns s') = fjall_cont V (cs_ns s) \<or> stored_at (fjall_cont V (cs_ns s)) b k ?ob (fjall_cont V (cs_ns s'))) \<and>
       (\<forall>n. n \<noteq> DEFAULT_BLOCK_TREE \<longrightarrow> fjall_cont W (cs_sh s') n = fjall_cont W (cs_sh s) n)) s"
    using fc.put_spec [where F = F and nm = nm and G = G and sm = sm and P = P and V = V and W = W and g = g and s = s and b = b
      and frames = frames and data = "body frames" and len = len and k = "block_count (body frames)" and ob = ?ob and now = now and key = k]
      ok rq by (simp add: put_request_ok_def body_def block_count_def after_put_def put_record_def)
  have b: "\<not> reserved_name b" using rq by (simp add: put_request_ok_def)
  show ?thesis by (rule wp_mono [OF put]) (use objects_stored [OF _ b dec] objects_same in blast)+
qed

lemma delete_run:
  assumes ok: "store_ok F V G W P g s" and b: "\<not> reserved_name b"
  shows "wp (delete_object (fjall_env F nm G sm P) b k)
    (\<lambda>r s'. store_ok F V G W P g s' \<and> r = (map_of (fjall_cont V (cs_ns s) b) k \<noteq> None) \<and>
       objects V s' = obj_upd (objects V s) b k None)
    (\<lambda>e s'. store_ok F V G W P g s' \<and> (objects V s' = objects V s \<or> objects V s' = obj_upd (objects V s) b k None)) s"
  by (rule wp_mono [OF fc.delete_object_spec [where V = V and W = W, unfolded cas_ok_store_ok, OF ok b]])
    (use objects_deleted [OF _ b store_ok_cont [OF ok]] objects_same in blast)+

lemma chunk_length: "c \<in> set (chunks_of n bs) \<Longrightarrow> length c \<le> max 1 n"
proof (induction n bs rule: chunks_of.induct)
  case (1 n bs)
  then show ?case by (subst (asm) (2) chunks_of.simps) (auto split: if_splits)
qed

lemma put_record_holds:
  assumes "\<forall>c \<in> set (chunks_of BLOCK_SIZE data). unique_hash P c \<and> block_hash P c \<notin> D"
  shows "object_holds P D (put_record P now data) data"
proof -
  have len: "length c < 2 ^ 64" if "c \<in> set (chunks_of BLOCK_SIZE data)" for c
    using chunk_length [OF that] by (simp add: BLOCK_SIZE_def)
  have "inlined (put_record P now data) = None" "object_blocks (put_record P now data) = map (block_hash P) (chunks_of BLOCK_SIZE data)"
    by (simp_all add: put_record_def inlined_def object_blocks_def object_new_def)
  then show ?thesis unfolding object_holds_def using assms len concat_chunks_of [of BLOCK_SIZE data]
    by (auto intro!: exI [of _ "chunks_of BLOCK_SIZE data"])
qed

subsection \<open>A deployment to run\<close>

text \<open>In-memory databases, an empty disk and stand-ins for the hashes: the digest of a short input is the input,
  padded, and its length.\<close>

definition toy_digest :: "bytes \<Rightarrow> bytes" where
  "toy_digest bs = take 31 (bs @ replicate 31 0) @ [of_nat (min 31 (length bs))]"

definition toy_md5 :: "bytes \<Rightarrow> bytes" where
  "toy_md5 bs = take 16 (bs @ replicate 16 0)"

definition toy_params :: cas_params where
  "toy_params = \<lparr>cp_hex = hex_lower, cp_blake3 = toy_digest, cp_md5 = toy_md5,
     cp_writer = \<lparr>wr_root = [''r''], wr_tmp = [''r'', TMP_DIR_NAME], wr_durability = Fsync, wr_marker = Absent\<rparr>,
     cp_placement = placement_new [''r''], cp_hasher = Blake3W32, cp_max_blocks = DEFAULT_MAX_BLOCKS_PER_COMMIT,
     cp_group_commit = False, cp_known = set [[1, 2, 3], [4], [7]]\<rparr>"

abbreviation toy_env :: "(mem_db fjall_store, mem_db fjall_store, disk) env" where
  "toy_env \<equiv> fjall_env mem_fjall PersistSyncAll mem_fjall PersistSyncAll toy_params"

definition toy_state :: "(mem_db fjall_store, mem_db fjall_store, disk) cas" where
  "toy_state = \<lparr>cs_ns = mem_empty,
     cs_sh = mem_empty\<lparr>fst_db := (fst_db mem_empty)\<lparr>mem_names := [DEFAULT_BLOCK_TREE, MULTIPART_PARTS_TREE, UPLOADS_TREE]\<rparr>\<rparr>,
     cs_bs = \<lparr>bs_disk = \<lparr>dk_files = [], dk_dirs = [[], [''r''], [''r'', TMP_DIR_NAME]], dk_linked = [], dk_dev = (\<lambda>_. 0), dk_faults = []\<rparr>,
       bs_nonce = 0, bs_durable = [], bs_counters = Map.empty\<rparr>\<rparr>"

definition toy_ghost :: ghost where
  "toy_ghost = \<lparr>gh_degraded = {}, gh_room = 1000, gh_nonces = 1000, gh_refs = (\<lambda>_. 0), gh_temps = Map.empty\<rparr>"

abbreviation toy_ok :: "ghost \<Rightarrow> (mem_db fjall_store, mem_db fjall_store, disk) cas \<Rightarrow> bool" where
  "toy_ok \<equiv> store_ok mem_fjall mem_view mem_fjall mem_view toy_params"

lemma toy_params_ok: "params_ok toy_params"
  by (simp add: params_ok_def toy_params_def hex_lower_ok blake3_ok_def toy_digest_def toy_md5_def CONTENT_HASH_SIZE_def
      placement_new_def placement_with_max_entries_def min_def)

lemma toy_state_ok: "toy_ok toy_ghost toy_state"
proof -
  let ?sh = "cs_sh toy_state"
  have c: "fjall_cont mem_view mem_empty = (\<lambda>_. [])" "fjall_cont mem_view ?sh = (\<lambda>_. [])"
    by (simp_all add: fjall_cont_def mem_view_def mem_empty_def toy_state_def)
  have "\<not> fst_tx mem_empty" "\<not> fst_tx ?sh" by (simp_all add: mem_empty_def toy_state_def)
  moreover have "fjall_holds mem_fjall mem_view {} mem_empty" by (simp add: fjall_holds_def mem_empty_inv)
  moreover have "fjall_holds mem_fjall mem_view shared_trees ?sh"
    unfolding fjall_holds_def fjall_inv_def using mem_fjall_ok
    by (simp add: shared_trees_def fjall_names_def toy_state_def mem_view_def mem_empty_def cont_ok_def omap_ok_def)
  moreover have "disk_ok (bs_disk (cs_bs toy_state))"
    by (simp add: toy_state_def disk_ok_def disk_file_def file_at_def omap_ok_def)
  moreover have "cas_inv toy_params toy_ghost (\<lambda>_. []) (\<lambda>_. []) (disk_file (bs_disk (cs_bs toy_state))) (bs_nonce (cs_bs toy_state))"
    by (simp add: cas_inv_def acct_def room_def files_ok_def degraded_in_def temps_ok_def toy_ghost_def toy_state_def ns_refs_def
        part_refs_def rc_of_def blk_of_def)
  moreover have "cs_ns toy_state = mem_empty" by (simp add: toy_state_def)
  ultimately show ?thesis
    using toy_params_ok c by (simp add: store_ok_def)
qed

lemma toy_known [simp]: "cp_known toy_params = {[1, 2, 3], [4], [7]}"
  by (simp add: toy_params_def)

lemma toy_unique: "c \<in> cp_known toy_params \<Longrightarrow> unique_hash toy_params c"
  by (auto simp: unique_hash_def block_hash_def toy_params_def hasher_hash_def block_id_from_32_def toy_digest_def)

lemma toy_chunks: "chunks_of BLOCK_SIZE [1, 2, 3 :: u8] = [[1, 2, 3]]"
  by (rule chunks_of_short) (simp_all add: BLOCK_SIZE_def)

lemma toy_put_runs:
  "fst (store_single_object_and_meta toy_env 0 ''b'' [107] [Inr [1, 2, 3]] 3 toy_state) = Inr (put_record toy_params 0 [1, 2, 3])"
  by code_simp

abbreviation toy_after_put :: "(mem_db fjall_store, mem_db fjall_store, disk) cas" where
  "toy_after_put \<equiv> snd (store_single_object_and_meta toy_env 0 ''b'' [107] [Inr [1, 2, 3]] 3 toy_state)"

lemma toy_put_run:
  "store_single_object_and_meta toy_env 0 ''b'' [107] [Inr [1, 2, 3]] 3 toy_state = (Inr (put_record toy_params 0 [1, 2, 3]), toy_after_put)"
  using toy_put_runs by (metis prod.collapse)

lemma toy_request: "put_request_ok toy_params toy_ghost ''b'' [Inr [1, 2, 3]] 3"
  by (simp add: put_request_ok_def body_def block_count_def toy_chunks toy_ghost_def reserved_name_def starts_with_def)

lemma toy_get_runs: "\<not> isl (fst (retrieve toy_env disk_file (calm_io 4096) ''b'' [107] toy_after_put))"
  by code_simp

lemma toy_after_put_ok:
  "toy_ok (after_put toy_ghost [1, 2, 3]) toy_after_put"
  "objects mem_view toy_after_put ''b'' [107] = Some (put_record toy_params 0 [1, 2, 3])"
  "stored_at (fjall_cont mem_view (cs_ns toy_state)) ''b'' [107] (put_record toy_params 0 [1, 2, 3]) (fjall_cont mem_view (cs_ns toy_after_put))"
  using wp_run [OF put_run [OF toy_state_ok toy_request] toy_put_run] by (simp_all add: body_def obj_upd_def)

subsection \<open>Properties\<close>

text \<open>C2: A PUT whose body arrives without an error is an update of the map from bucket and key to object, however many blocks the object shares with others:
  it returns the record of the object and the map has exactly that record more; when it fails, the map is as before
  or has that one update. Either way no block in use is lost: every block is counted at least as often as it is
  held, and every usable block record has its file.\<close>
theorem put_refines_map:
  assumes "store_ok F V G W P g s" "put_request_ok P g b frames len"
    "store_single_object_and_meta (fjall_env F nm G sm P) now b k frames len s = (r, s')"
    "ob = put_record P now (body frames)"
  shows "store_ok F V G W P (after_put g (body frames)) s' \<and>
    (r = Inr ob \<and> objects V s' = obj_upd (objects V s) b k (Some ob) \<or>
     isl r \<and> (objects V s' = objects V s \<or> objects V s' = obj_upd (objects V s) b k (Some ob)))"
  using wp_run [OF put_run [OF assms(1,2)] assms(3)] assms(4) by (cases r) auto

theorem put_refines_map_witness:
  "objects mem_view toy_after_put =
   obj_upd (objects mem_view toy_state) ''b'' [107] (Some (put_record toy_params 0 [1, 2, 3]))"
proof -
  from put_refines_map [OF toy_state_ok toy_request toy_put_run refl] show ?thesis by (simp add: body_def)
qed

text \<open>C3: A DELETE removes exactly its key from the map and says whether there was a record; when it fails, the map is as
  before or has that one key less. Either way no block in use is lost.\<close>
theorem delete_refines_map:
  assumes "store_ok F V G W P g s" "\<not> reserved_name b"
    "delete_object (fjall_env F nm G sm P) b k s = (r, s')"
  shows "store_ok F V G W P g s' \<and>
    (r = Inr (map_of (fjall_cont V (cs_ns s) b) k \<noteq> None) \<and> objects V s' = obj_upd (objects V s) b k None \<or>
     isl r \<and> (objects V s' = objects V s \<or> objects V s' = obj_upd (objects V s) b k None))"
  using wp_run [OF delete_run [OF assms(1,2)] assms(3)] by (cases r) auto

theorem delete_refines_map_witness:
  "fst (delete_object toy_env ''b'' [107] toy_after_put) = Inr True \<and>
   objects mem_view (snd (delete_object toy_env ''b'' [107] toy_after_put)) =
     obj_upd (objects mem_view toy_after_put) ''b'' [107] None"
proof -
  let ?run = "delete_object toy_env ''b'' [107] toy_after_put"
  have f: "fst ?run = Inr True" by code_simp
  have "?run = (fst ?run, snd ?run)" by simp
  from delete_refines_map [OF toy_after_put_ok(1) _ this] f show ?thesis
    by (simp only: sum.disc(2) sum.inject simp_thms) (simp add: reserved_name_def starts_with_def)
qed

text \<open>C1: What was stored is what is read: after a PUT of \<open>data\<close> whose body arrived without an error, reading the key
  gives \<open>data\<close>, or the error the database answered to a lookup, or the error the operating system answered to opening
  or reading a block file; with neither, it gives \<open>data\<close>. No read ends in a missing block, a missing file or the bytes of another block. Asked of the
  blocks of \<open>data\<close> is that no other block of the store has the hash of one of them and that none is marked
  degraded.\<close>
theorem put_then_retrieve:
  assumes "store_ok F V G W P g s" "put_request_ok P g b frames len"
    "\<forall>c \<in> set (chunks_of BLOCK_SIZE (body frames)). unique_hash P c \<and> block_hash P c \<notin> gh_degraded g"
    "store_single_object_and_meta (fjall_env F nm G sm P) now b k frames len s = (Inr ob, s')"
    "retrieve (fjall_env F nm G sm P) disk_file io b k s' = (r, s'')"
  shows "r = Inr (Some (body frames)) \<or> (\<exists>m. r = Inl (CMeta m) \<and> db_fault F G m) \<or> (\<exists>er. r = Inl (CIo er) \<and> io_fault io er)"
proof -
  let ?data = "body frames"
  from wp_run [OF put_run [OF assms(1,2)] assms(4)]
  have ob: "ob = put_record P now ?data" and ok: "store_ok F V G W P (after_put g ?data) s'"
    and m: "objects V s' = obj_upd (objects V s) b k (Some ob)" by simp_all
  have b: "\<not> reserved_name b" using assms(2) by (simp add: put_request_ok_def)
  have at: "object_at (fjall_cont V (cs_ns s')) b k = Some ob"
    using fun_cong [OF fun_cong [OF m, of b], of k] b by (simp add: objects_def obj_upd_def)
  have "object_holds P (gh_degraded (after_put g ?data)) ob ?data"
    unfolding ob by (rule put_record_holds) (use assms(3) in \<open>simp add: after_put_def\<close>)
  from wp_run [OF retrieve_spec [OF ok b at this] assms(5)] show ?thesis by (cases r) auto
qed

theorem put_then_retrieve_witness:
  "fst (retrieve toy_env disk_file (calm_io 4096) ''b'' [107] toy_after_put) = Inr (Some [1, 2, 3])"
proof -
  let ?get = "retrieve toy_env disk_file (calm_io 4096) ''b'' [107] toy_after_put"
  have u: "\<forall>c \<in> set (chunks_of BLOCK_SIZE (body [Inr [1, 2, 3]])). unique_hash toy_params c \<and> block_hash toy_params c \<notin> gh_degraded toy_ghost"
    by (simp add: body_def toy_chunks toy_unique toy_ghost_def)
  have "?get = (fst ?get, snd ?get)" by simp
  from put_then_retrieve [OF toy_state_ok toy_request u toy_put_run this]
  have "fst ?get = Inr (Some [1, 2, 3]) \<or> (\<exists>m. fst ?get = Inl m)" by (auto simp: body_def)
  then show ?thesis using toy_get_runs by auto
qed

text \<open>C4: An object in a good store can be read, whatever was done to the store before: the bytes its record stands for come
  back, or the error the database answered to a lookup, or the error the operating system answered to opening or reading
  a block file; with neither, they come back. Asked of the blocks of the object is that no other block of the store has the hash of one of them and
  that none is marked degraded.\<close>
theorem stored_object_readable:
  assumes "store_ok F V G W P g s" "objects V s b k = Some ob" "object_holds P (gh_degraded g) ob data"
    "retrieve (fjall_env F nm G sm P) disk_file io b k s = (r, s')"
  shows "store_ok F V G W P g s' \<and> 
    (r = Inr (Some data) \<or> (\<exists>m. r = Inl (CMeta m) \<and> db_fault F G m) \<or> (\<exists>er. r = Inl (CIo er) \<and> io_fault io er))"
proof -
  have "\<not> reserved_name b" "object_at (fjall_cont V (cs_ns s)) b k = Some ob"
    using assms(2) by (simp_all add: objects_def split: if_splits)
  from wp_run [OF retrieve_spec [OF assms(1) this assms(3)] assms(4)] show ?thesis by (cases r) auto
qed

theorem stored_object_readable_witness:
  "fst (retrieve toy_env disk_file (calm_io 4096) ''b'' [107] toy_after_put) = Inr (Some [1, 2, 3])"
proof -
  let ?get = "retrieve toy_env disk_file (calm_io 4096) ''b'' [107] toy_after_put"
  have h: "object_holds toy_params (gh_degraded (after_put toy_ghost [1, 2, 3])) (put_record toy_params 0 [1, 2, 3]) [1, 2, 3]"
    by (rule put_record_holds) (simp add: toy_chunks toy_unique toy_ghost_def after_put_def)
  have "?get = (fst ?get, snd ?get)" by simp
  from stored_object_readable [OF toy_after_put_ok(1,2) h this] show ?thesis using toy_get_runs by auto
qed

text \<open>C7: Closing a batch counts what it stored: on success every occurrence of every entry is counted in the block tree, on
  top of what was counted before, and the blocks are there to be referenced; on failure the store is as good as before,
  with no block counted below its holders. The closing task never panics.\<close>
theorem commit_batch_counts:
  assumes "store_ok F V G W P g s" "entries_ok P (gh_temps g) es"
    "2 * length (occ_list es) \<le> gh_room g" "length (filter is_deduped es) \<le> gh_nonces g"
    "commit_batch (fjall_env F nm G sm P) es s = (r, s')"
  shows "case r of
      Inr out \<Rightarrow> store_ok F V G W P ((after_close g es)\<lparr>gh_refs := add_refs (gh_refs g) (occ_list es)\<rparr>) s' \<and>
        fo_written out + fo_ignored out = length es
    | Inl e \<Rightarrow> no_panic e \<and> store_ok F V G W P (after_close g es) s'"
proof -
  have room: "length (occ_list es) \<le> gh_room g" using assms(3) by simp
  note spec = wp_run [OF fc.commit_batch_spec [where V = V and W = W, unfolded fjall_env_simps, OF _ assms(2) room assms(4)] assms(5)]
  have weak: "store_ok F V G W P g2 s'" if "store_ok F V G W P g1 s'" "gh_degraded g1 = gh_degraded g2" "gh_room g2 \<le> gh_room g1"
      "gh_nonces g2 = gh_nonces g1" "gh_refs g2 = gh_refs g1" "gh_temps g2 = gh_temps g1" for g1 g2
    using fc.cas_ok_weaken [of F nm G sm P V W g1 s' g2] that by simp
  let ?g = "g\<lparr>gh_nonces := gh_nonces g - length (filter is_deduped es),
     gh_temps := gh_temps g |` (- set (staged_paths es)), gh_room := gh_room g - length (occ_list es)\<rparr>"
  have "store_ok F V G W P (after_close g es) s'" if "store_ok F V G W P ?g s'"
    by (rule weak [OF that]) (simp_all add: after_close_def)
  moreover have "store_ok F V G W P ((after_close g es)\<lparr>gh_refs := add_refs (gh_refs g) hs\<rparr>) s'"
    if "store_ok F V G W P (?g\<lparr>gh_refs := add_refs (gh_refs g) hs\<rparr>) s'" for hs
    by (rule weak [OF that]) (simp_all add: after_close_def)
  ultimately show ?thesis using spec assms(1) by (cases r) simp_all
qed

definition toy_entry :: batch_entry where
  "toy_entry = \<lparr>be_id = block_hash toy_params [7], be_len = 1, be_occurrences = 2, be_payload = Deduped [7], be_depth = None\<rparr>"

lemma toy_entry_ok: "entries_ok toy_params (gh_temps toy_ghost) [toy_entry]"
  using toy_params_ok
  by (simp add: entries_ok_def entry_ok_def toy_entry_def params_ok_def is_block_def block_hash_wf)

theorem commit_batch_counts_witness:
  "toy_ok ((after_close toy_ghost [toy_entry])\<lparr>gh_refs := add_refs (gh_refs toy_ghost) (occ_list [toy_entry])\<rparr>)
     (snd (commit_batch toy_env [toy_entry] toy_state)) \<and>
   fst (commit_batch toy_env [toy_entry] toy_state) = Inr \<lparr>fo_written = 1, fo_ignored = 0\<rparr>"
proof -
  let ?run = "commit_batch toy_env [toy_entry] toy_state"
  have f: "fst ?run = Inr \<lparr>fo_written = 1, fo_ignored = 0\<rparr>" by code_simp
  have "?run = (fst ?run, snd ?run)" by simp
  from commit_batch_counts [OF toy_state_ok toy_entry_ok _ _ this] f show ?thesis
    by (simp add: toy_entry_def toy_ghost_def is_deduped_def)
qed

text \<open>C6: The outcome of one member of a group is its own: closing a group always ends with one outcome per member, none
  of them a panic, and for every member whose outcome is a success each occurrence of each of its blocks is counted,
  on top of all that was counted before; no reference of another operation is lost. A block may stay counted beyond
  its holders when a member fails or is closed again alone, never below them.\<close>
theorem close_group_outcomes:
  assumes "store_ok F V G W P g s" "entries_ok P (gh_temps g) (concat ms)"
    "2 * length (occ_list (concat ms)) \<le> gh_room g" "length (filter is_deduped (concat ms)) \<le> gh_nonces g"
    "close_group (fjall_env F nm G sm P) ms s = (r, s')"
  shows "\<exists>outs. r = Inr outs \<and> length outs = length ms \<and> sound outs \<and>
    store_ok F V G W P ((after_close g (concat ms))\<lparr>gh_refs := add_refs (gh_refs g) (occ_list (shares ms outs))\<rparr>) s'"
  using wp_run [OF fc.close_group_spec [where V = V and W = W, unfolded cas_ok_store_ok fjall_env_simps, OF assms(1-4)] assms(5)]
  by (cases r) (simp_all add: after_close_def)

theorem close_group_outcomes_witness:
  "\<exists>outs. fst (close_group toy_env [[toy_entry], [toy_entry]] toy_state) = Inr outs \<and> length outs = 2 \<and>
     occ_list (shares [[toy_entry], [toy_entry]] outs) = replicate 4 (be_id toy_entry)"
proof -
  let ?ms = "[[toy_entry], [toy_entry]]" and ?run = "close_group toy_env [[toy_entry], [toy_entry]] toy_state"
  have e: "entries_ok toy_params (gh_temps toy_ghost) (concat ?ms)"
    using toy_entry_ok by (simp add: entries_ok_def toy_entry_def)
  have f: "fst ?run = Inr [Inr \<lparr>fo_written = 1, fo_ignored = 0\<rparr>, Inr \<lparr>fo_written = 0, fo_ignored = 1\<rparr>]" by code_simp
  have "?run = (fst ?run, snd ?run)" by simp
  from close_group_outcomes [OF toy_state_ok e _ _ this] f show ?thesis
    by (simp add: toy_entry_def toy_ghost_def is_deduped_def eval_nat_numeral)
qed

end
