(* ===== verification/ClonePath.thy ===== *)
theory ClonePath
  imports CasStore
begin

text \<open>
  Copying an object by reference (\<open>cas/clone_path.rs\<close>): a reference per block occurrence first, the record that
  holds them after. The stripe that serialises the steps on one block makes each step atomic, so a step is one
  definition. A closure that panics is not modelled here: the transaction of a step has no panic in it.
\<close>

subsection \<open>The code\<close>

definition bump_reference :: "'s store_ops \<Rightarrow> block_id \<Rightarrow> ('s, meta_error, bool) act" where
  "bump_reference S i =
    bindM (begin_transaction S) (\<lambda>_.
    bindM (or_rollback S (bump_block_rc S i)) (\<lambda>r. case r of
      Some _ \<Rightarrow> bindM (tx_commit S) (\<lambda>_. ret True)
    | None \<Rightarrow> bindM (rollback S) (\<lambda>_. ret False)))"

fun acquire_from :: "('n, 's, 'd) env \<Rightarrow> block_id list \<Rightarrow> block_id list \<Rightarrow> ('n, 's, 'd, bool) cas_act" where
  "acquire_from E taken [] = ret True"
| "acquire_from E taken (i # is) =
    bindM (on_sh (bump_reference (en_sh E) i)) (\<lambda>bumped.
      if bumped then acquire_from E (taken @ [i]) is
      else bindM (release_blocks E taken) (\<lambda>_. ret False))"

definition acquire_references :: "('n, 's, 'd) env \<Rightarrow> block_id list \<Rightarrow> ('n, 's, 'd, bool) cas_act" where
  "acquire_references E blocks = acquire_from E [] blocks"

definition clone_object_by_reference ::
  "('n, 's, 'd) env \<Rightarrow> i64 \<Rightarrow> string \<Rightarrow> bytes \<Rightarrow> string \<Rightarrow> bytes \<Rightarrow> ('n, 's, 'd, object option) cas_act" where
  "clone_object_by_reference E now source_bucket source_key dest_bucket dest_key =
    bindM (on_ns (get_meta (en_ns E) source_bucket source_key)) (\<lambda>r. case r of
      None \<Rightarrow> ret None
    | Some source \<Rightarrow>
        bindM (case obj_data source of
            Inline _ \<Rightarrow> ret True
          | SinglePart blocks \<Rightarrow> acquire_references E blocks
          | MultiPart blocks _ \<Rightarrow> acquire_references E blocks) (\<lambda>acquired.
          if acquired then
            bindM (create_object_meta E now dest_bucket dest_key (obj_size source) (obj_hash source) (obj_data source)) (\<lambda>obj.
              ret (Some obj))
          else ret None))"

definition copy_of :: "i64 \<Rightarrow> object \<Rightarrow> object" where
  "copy_of now source = object_new now (obj_size source) (obj_hash source) (obj_data source)"

lemma copy_of_fields [simp]:
  "obj_data (copy_of now ob) = obj_data ob" "obj_size (copy_of now ob) = obj_size ob" "obj_hash (copy_of now ob) = obj_hash ob"
  "object_blocks (copy_of now ob) = object_blocks ob"
  by (simp_all add: copy_of_def object_new_def object_blocks_def)

lemma copy_of_decodes:
  assumes "length raw \<le> usize_max" "object_try_from raw = Inr ob"
  shows "object_try_from (object_to_vec (copy_of now ob)) = Inr (copy_of now ob)"
proof -
  from object_codec.dec_exact [OF assms] have ob: "wf_object ob" "length (object_to_vec ob) = length raw" by simp_all
  have "wf_object (copy_of now ob)" using ob(1) by (simp add: wf_object_def copy_of_def object_new_def)
  moreover have "length (object_to_vec (copy_of now ob)) = length (object_to_vec ob)"
    using ob(1) by (simp add: object_to_vec_eq copy_of_def object_new_def)
  ultimately show ?thesis using assms(1) ob(2) by (intro object_codec.dec_enc) simp_all
qed

subsection \<open>Taking references\<close>

context store_contract
begin

lemma bump_reference_store:
  assumes s: "inv s" "\<not> in_tx s" and cas: "cas_inv P g nc (cont s) f nonce" "wf_block_id h" "0 < gh_room g"
  shows "wp (bump_reference S h)
    (\<lambda>b t. inv t \<and> \<not> in_tx t \<and> (if b then recorded P g nc f nonce (cont s) [h] (cont t) else cont t = cont s))
    (\<lambda>e t. inv t \<and> \<not> in_tx t \<and> (cont t = cont s \<or> recorded P g nc f nonce (cont s) [h] (cont t))) s"
    (is "wp _ ?Q ?R s")
  unfolding bump_reference_def wp_bindM
proof (rule wp_begin [OF s])
  fix t assume t: "inv t" "in_tx t" "cont t = cont s" "txv t = cont s"
  let ?B = "\<lambda>r u. inv u \<and> in_tx u \<and> cont u = cont s \<and> (if r = None then txv u = cont s else recorded P g nc f nonce (cont s) [h] (txv u))"
  have body: "wp (bump_block_rc S h) ?B (\<lambda>e u. inv u \<and> in_tx u \<and> cont u = cont s \<and> {} \<subseteq> names u) t"
    by (rule wp_mono [OF bump_recorded [OF t(1,2), where P = P and g = g and nc = nc and f = f and nonce = nonce]])
      (use t cas in \<open>auto split: if_splits\<close>)
  show "wp (or_rollback S (bump_block_rc S h))
     (\<lambda>r. wp (case r of None \<Rightarrow> bindM (rollback S) (\<lambda>_. ret False) | Some _ \<Rightarrow> bindM (tx_commit S) (\<lambda>_. ret True)) ?Q ?R) ?R t"
  proof (rule wp_or_rollback [OF wp_mono [OF body]])
    fix r u assume u: "?B r u"
    show "wp (case r of None \<Rightarrow> bindM (rollback S) (\<lambda>_. ret False) | Some _ \<Rightarrow> bindM (tx_commit S) (\<lambda>_. ret True)) ?Q ?R u"
    proof (cases r)
      case None
      show ?thesis unfolding None option.case wp_bindM wp_ret_fun by (rule wp_rollback) (use u in auto)
    next
      case (Some b)
      show ?thesis unfolding Some option.case wp_bindM wp_ret_fun by (rule wp_tx_commit) (use u Some in auto)
    qed
  qed auto
qed

end

context cas_contract
begin

abbreviation bumped :: "ghost \<Rightarrow> nat \<Rightarrow> (block_id \<Rightarrow> nat) \<Rightarrow> ghost" where
  "bumped g n L \<equiv> g\<lparr>gh_room := gh_room g - n, gh_refs := L\<rparr>"

lemma bump_reference_spec:
  assumes ok: "cas_ok g s" and h: "wf_block_id h" and room: "0 < gh_room g"
  shows "wp (on_sh (bump_reference (en_sh E) h))
    (\<lambda>b s'. blocks_only s s' \<and> (if b then cas_ok (bumped g 1 (add_refs (gh_refs g) [h])) s' else cas_ok g s'))
    (\<lambda>e s'. blocks_only s s' \<and> (\<exists>m. e = CMeta m) \<and> cas_ok (bumped g 1 (gh_refs g)) s') s"
    (is "wp _ ?Q ?R s")
proof -
  note D = cas_okD [OF ok]
  let ?P = "en_params E" and ?c = "scont (cs_sh s)"
  have same: "cas_ok g (s\<lparr>cs_sh := t\<rparr>) \<and> blocks_only s (s\<lparr>cs_sh := t\<rparr>)" if "sinv t" "\<not> stx t" "scont t = ?c" for t
    using that ok by (simp add: cas_ok_def blocks_only_def)
  have took: "cas_ok (bumped g 1 (add_refs (gh_refs g) [h])) (s\<lparr>cs_sh := t\<rparr>) \<and> blocks_only s (s\<lparr>cs_sh := t\<rparr>)"
    if "sinv t" "\<not> stx t" "recorded ?P g (ncont (cs_ns s)) (cfil s) (bs_nonce (cs_bs s)) ?c [h] (scont t)" for t
    using recorded_state [OF ok that] by simp
  have less: "cas_ok (bumped g 1 (gh_refs g)) u" if "cas_ok g u \<or> cas_ok (bumped g 1 (add_refs (gh_refs g) [h])) u" for u
    using that by (elim disjE cas_ok_weaken) (auto simp: add_refs_def)
  show ?thesis unfolding wp_on_sh
  proof (rule wp_mono [OF sh.bump_reference_store [OF D(4,5,7) h room]], goal_cases)
    case (1 b t)
    then show ?case using same [of t] took [of t] by (simp split: if_splits)
  next
    case (2 e t)
    then show ?case using same [of t] took [of t] less [of "s\<lparr>cs_sh := t\<rparr>"] by blast
  qed
qed

lemma acquire_from_spec:
  assumes "cas_ok (g\<lparr>gh_refs := add_refs L taken\<rparr>) s" "length is \<le> gh_room g" "\<forall>i \<in> set (taken @ is). wf_block_id i"
  shows "wp (acquire_from E taken is)
    (\<lambda>b s'. blocks_only s s' \<and> cas_ok (bumped g (length is) (if b then add_refs L (taken @ is) else L)) s')
    (\<lambda>e s'. blocks_only s s' \<and> (\<exists>m. e = CMeta m) \<and> cas_ok (bumped g (length is) L) s') s"
  using assms
proof (induction "is" arbitrary: g s taken)
  case (Cons i "is")
  let ?g = "g\<lparr>gh_refs := add_refs L taken\<rparr>" and ?g1 = "g\<lparr>gh_room := gh_room g - 1\<rparr>"
  have drop: "cas_ok (bumped g (Suc n) L) u"
    if "cas_ok (bumped ?g 1 (add_refs L taken)) u \<or> cas_ok ?g u \<or> cas_ok (g\<lparr>gh_refs := L\<rparr>) u" for u n
    using that by (elim disjE cas_ok_weaken) (auto simp: add_refs_def)
  have step: "wp (on_sh (bump_reference (en_sh E) i))
    (\<lambda>b s'. blocks_only s s' \<and> (if b then cas_ok (?g1\<lparr>gh_refs := add_refs L (taken @ [i])\<rparr>) s' else cas_ok ?g s'))
    (\<lambda>e s'. blocks_only s s' \<and> (\<exists>m. e = CMeta m) \<and> cas_ok (bumped g (Suc (length is)) L) s') s"
    by (rule wp_mono [OF bump_reference_spec [OF Cons.prems(1)]])
      (use Cons.prems(2,3) drop in \<open>auto simp: add_refs_append split: if_splits\<close>)
  show ?case unfolding acquire_from.simps length_Cons
  proof (rule wp_seq [OF step])
    fix b u assume u: "blocks_only s u \<and> (if b then cas_ok (?g1\<lparr>gh_refs := add_refs L (taken @ [i])\<rparr>) u else cas_ok ?g u)"
    show "wp (if b then acquire_from E (taken @ [i]) is else bindM (release_blocks E taken) (\<lambda>_. ret False))
      (\<lambda>b s'. blocks_only s s' \<and> cas_ok (bumped g (Suc (length is)) (if b then add_refs L (taken @ i # is) else L)) s')
      (\<lambda>e s'. blocks_only s s' \<and> (\<exists>m. e = CMeta m) \<and> cas_ok (bumped g (Suc (length is)) L) s') u"
    proof (cases b)
      case True
      have "wp (acquire_from E (taken @ [i]) is)
        (\<lambda>b s'. blocks_only u s' \<and> cas_ok (bumped ?g1 (length is) (if b then add_refs L ((taken @ [i]) @ is) else L)) s')
        (\<lambda>e s'. blocks_only u s' \<and> (\<exists>m. e = CMeta m) \<and> cas_ok (bumped ?g1 (length is) L) s') u"
        by (rule Cons.IH) (use u True Cons.prems in auto)
      then show ?thesis unfolding if_P [OF True]
        by (rule wp_mono) (use u blocks_only_trans [of s u] in auto)
    next
      case False
      have "wp (release_blocks E taken) (\<lambda>_ s'. cas_ok (g\<lparr>gh_refs := L\<rparr>) s' \<and> blocks_only u s') (\<lambda>_ _. False) u"
        by (rule release_blocks_spec) (use u False Cons.prems in auto)
      then show ?thesis unfolding if_not_P [OF False] wp_bindM wp_ret_fun
        by (rule wp_mono) (use u blocks_only_trans [of s u] drop in auto)
    qed
  qed
qed simp

lemma clone_spec:
  assumes ok: "cas_ok g s" and db: "\<not> reserved_name db"
    and raw: "\<And>raw. map_of (ncont (cs_ns s) sb) sk = Some raw \<Longrightarrow> length raw \<le> usize_max"
    and room: "\<And>src. object_at (ncont (cs_ns s)) sb sk = Some src \<Longrightarrow> length (object_blocks src) \<le> n" "n \<le> gh_room g"
  shows "wp (clone_object_by_reference E now sb sk db dk)
    (\<lambda>r s'. cas_ok (g\<lparr>gh_room := gh_room g - n\<rparr>) s' \<and> (case r of
        None \<Rightarrow> ncont (cs_ns s') = ncont (cs_ns s)
      | Some ob \<Rightarrow> (\<exists>src. object_at (ncont (cs_ns s)) sb sk = Some src \<and> ob = copy_of now src) \<and>
          stored_at (ncont (cs_ns s)) db dk ob (ncont (cs_ns s'))))
    (\<lambda>e s'. cas_ok (g\<lparr>gh_room := gh_room g - n\<rparr>) s' \<and> (\<exists>m. e = CMeta m) \<and> (ncont (cs_ns s') = ncont (cs_ns s) \<or>
       (\<exists>src. object_at (ncont (cs_ns s)) sb sk = Some src \<and> stored_at (ncont (cs_ns s)) db dk (copy_of now src) (ncont (cs_ns s'))))) s"
    (is "wp _ ?Q ?R s")
proof -
  note D = cas_okD [OF ok]
  let ?g = "g\<lparr>gh_room := gh_room g - n\<rparr>"
  have less: "cas_ok ?g u" if "cas_ok g u" for u by (rule cas_ok_weaken [OF that]) simp_all
  have copy: "wp (bindM (create_object_meta E now db dk (obj_size src) (obj_hash src) (obj_data src)) (\<lambda>obj. ret (Some obj))) ?Q ?R u"
    if u: "cas_ok (?g\<lparr>gh_refs := add_refs (gh_refs ?g) (object_blocks src)\<rparr>) u" "ncont (cs_ns u) = ncont (cs_ns s)"
      and src: "map_of (ncont (cs_ns s) sb) sk = Some r" "object_try_from r = Inr src" for u src r
  proof -
    have at: "object_at (ncont (cs_ns s)) sb sk = Some src" using src by (simp add: object_at_def)
    have d: "object_try_from (object_to_vec (copy_of now src)) = Inr (copy_of now src)"
      by (rule copy_of_decodes [OF raw [OF src(1)] src(2)])
    have "cas_ok (?g\<lparr>gh_refs := add_refs (gh_refs ?g) (object_blocks (copy_of now src))\<rparr>) u" using u(1) by simp
    from create_object_meta_spec [OF this db copy_of_def d, of dk] at u(2) show ?thesis
      unfolding wp_bindM wp_ret_fun by (auto elim!: wp_mono)
  qed
  show ?thesis unfolding clone_object_by_reference_def
  proof (rule wp_seq [of _ "\<lambda>r u. cas_ok g u \<and> ncont (cs_ns u) = ncont (cs_ns s) \<and> (case r of
      None \<Rightarrow> True | Some src \<Rightarrow> \<exists>raw. map_of (ncont (cs_ns s) sb) sk = Some raw \<and> object_try_from raw = Inr src)"], goal_cases)
    case 1
    show ?case unfolding wp_on_ns
      by (rule wp_mono [OF ns.get_meta_spec [OF D(2)]]) (use ns_step [OF ok] D(3) less in \<open>auto split: option.splits\<close>)
  next
    case (2 r u)
    show ?case
    proof (cases r)
      case None
      then show ?thesis using 2 less by simp
    next
      case (Some src)
      with 2 obtain w where w: "map_of (ncont (cs_ns s) sb) sk = Some w" "object_try_from w = Inr src" by auto
      have len: "length (object_blocks src) \<le> n" using room(1) w by (simp add: object_at_def)
      have wf: "\<forall>i \<in> set (object_blocks src). wf_block_id i" using object_blocks_wf [OF w(2)] by blast
      have gr: "g\<lparr>gh_refs := add_refs (gh_refs g) []\<rparr> = g" by simp
      have refs: "cas_ok (?g\<lparr>gh_refs := add_refs (gh_refs ?g) (object_blocks src)\<rparr>) v"
        if "cas_ok (bumped g (length (object_blocks src)) (add_refs (gh_refs g) (object_blocks src))) v" for v
        by (rule cas_ok_weaken [OF that]) (use len in simp_all)
      have none: "cas_ok ?g v" if "cas_ok (bumped g (length (object_blocks src)) (gh_refs g)) v" for v
        by (rule cas_ok_weaken [OF that]) (use len in simp_all)
      have acq: "wp (acquire_references E (object_blocks src))
        (\<lambda>b v. ncont (cs_ns v) = ncont (cs_ns s) \<and> (if b then cas_ok (?g\<lparr>gh_refs := add_refs (gh_refs ?g) (object_blocks src)\<rparr>) v else cas_ok ?g v))
        ?R u"
        unfolding acquire_references_def
        by (rule wp_mono [OF acquire_from_spec [where g = g and L = "gh_refs g" and taken = "[]" and s = u]])
          (use 2 len room(2) wf gr refs none in \<open>auto simp: blocks_only_def split: if_splits\<close>)
      have took: "wp (case obj_data src of Inline _ \<Rightarrow> ret True | SinglePart bl \<Rightarrow> acquire_references E bl | MultiPart bl _ \<Rightarrow> acquire_references E bl)
        (\<lambda>b v. ncont (cs_ns v) = ncont (cs_ns s) \<and> (if b then cas_ok (?g\<lparr>gh_refs := add_refs (gh_refs ?g) (object_blocks src)\<rparr>) v else cas_ok ?g v))
        ?R u"
        using acq 2 less [of u] by (cases "obj_data src") (simp_all add: object_blocks_def)
      show ?thesis unfolding Some option.case
        by (rule wp_seq [OF took]) (use copy [OF _ _ w] in \<open>auto split: if_splits\<close>)
    qed
  qed
qed

end

subsection \<open>Properties\<close>

text \<open>A record is no longer than the address space.\<close>

definition record_small :: "'a fjall_view \<Rightarrow> ('a fjall_store, 'b fjall_store, disk) cas \<Rightarrow> string \<Rightarrow> bytes \<Rightarrow> bool" where
  "record_small V s b k \<longleftrightarrow> (case map_of (fjall_cont V (cs_ns s) b) k of None \<Rightarrow> True | Some raw \<Rightarrow> length raw \<le> usize_max)"

definition blocks_held :: "object option \<Rightarrow> nat" where
  "blocks_held r = (case r of None \<Rightarrow> 0 | Some ob \<Rightarrow> length (object_blocks ob))"

text \<open>C5: A clone by reference writes a copy of the source's record under the destination key and nothing else, and holds
  its own references, so that either copy can be deleted without harm to the other; a clone that is refused writes
  no record. If it fails, the map is as before or has that one copy more, and no block in use is lost.\<close>
theorem clone_refines_map:
  assumes "store_ok F V G W P g s" "\<not> reserved_name sb" "\<not> reserved_name db" "record_small V s sb sk"
    "blocks_held (objects V s sb sk) \<le> gh_room g"
    "clone_object_by_reference (fjall_env F nm G sm P) now sb sk db dk s = (r, s')"
  shows "store_ok F V G W P (g\<lparr>gh_room := gh_room g - blocks_held (objects V s sb sk)\<rparr>) s' \<and>
    (case r of
       Inr None \<Rightarrow> objects V s' = objects V s
     | Inr (Some ob) \<Rightarrow> (\<exists>src. objects V s sb sk = Some src \<and> ob = copy_of now src) \<and>
         objects V s' = obj_upd (objects V s) db dk (Some ob)
     | Inl e \<Rightarrow> objects V s' = objects V s \<or>
         (\<exists>src. objects V s sb sk = Some src \<and> objects V s' = obj_upd (objects V s) db dk (Some (copy_of now src))))"
proof -
  have at: "objects V s sb sk = object_at (fjall_cont V (cs_ns s)) sb sk" using assms(2) by (simp add: objects_def)
  have stored: "objects V s' = obj_upd (objects V s) db dk (Some (copy_of now src))"
    if st: "object_at (fjall_cont V (cs_ns s)) sb sk = Some src"
      "stored_at (fjall_cont V (cs_ns s)) db dk (copy_of now src) (fjall_cont V (cs_ns s'))" for src
  proof -
    obtain raw where "map_of (fjall_cont V (cs_ns s) sb) sk = Some raw" "object_try_from raw = Inr src"
      using object_atD [OF st(1)] by blast
    with assms(4) have "object_try_from (object_to_vec (copy_of now src)) = Inr (copy_of now src)"
      by (intro copy_of_decodes [of raw]) (auto simp: record_small_def)
    from objects_stored [OF st(2) assms(3) this] show ?thesis .
  qed
  have small: "length raw \<le> usize_max" if "map_of (fjall_cont V (cs_ns s) sb) sk = Some raw" for raw
    using assms(4) that by (simp add: record_small_def)
  have held: "length (object_blocks src) \<le> blocks_held (objects V s sb sk)"
    if "object_at (fjall_cont V (cs_ns s)) sb sk = Some src" for src using that at by (simp add: blocks_held_def)
  from wp_run [OF fc.clone_spec [where V = V and W = W, unfolded cas_ok_store_ok, OF assms(1,3) small held assms(5)] assms(6)]
  show ?thesis using stored objects_same [of V s' s] unfolding at
    by (auto split: sum.splits option.splits)
qed

lemma toy_clone_runs:
  "fst (clone_object_by_reference toy_env 5 ''b'' [107] ''c'' [9] toy_after_put) = Inr (Some (copy_of 5 (put_record toy_params 0 [1, 2, 3])))"
  by code_simp

theorem clone_refines_map_witness:
  "objects mem_view (snd (clone_object_by_reference toy_env 5 ''b'' [107] ''c'' [9] toy_after_put)) =
   obj_upd (objects mem_view toy_after_put) ''c'' [9] (Some (copy_of 5 (put_record toy_params 0 [1, 2, 3])))"
proof -
  let ?run = "clone_object_by_reference toy_env 5 ''b'' [107] ''c'' [9] toy_after_put"
  have u: "''b'' \<noteq> DEFAULT_USAGE_TREE" by (simp add: DEFAULT_USAGE_TREE_def)
  have raw: "map_of (fjall_cont mem_view (cs_ns toy_after_put) ''b'') [107] = Some (object_to_vec (put_record toy_params 0 [1, 2, 3]))"
    using toy_after_put_ok(3) u unfolding stored_at_def by simp
  have "length (object_to_vec (put_record toy_params 0 [1, 2, 3])) \<le> usize_max" by code_simp
  with raw have small: "record_small mem_view toy_after_put ''b'' [107]" by (simp add: record_small_def)
  have held: "blocks_held (objects mem_view toy_after_put ''b'' [107]) \<le> gh_room (after_put toy_ghost [1, 2, 3])"
    by (simp add: toy_after_put_ok(2) blocks_held_def put_record_def object_new_def object_blocks_def toy_chunks after_put_def
        toy_ghost_def block_count_def)
  have "?run = (Inr (Some (copy_of 5 (put_record toy_params 0 [1, 2, 3]))), snd ?run)" using toy_clone_runs by (metis prod.collapse)
  from clone_refines_map [OF toy_after_put_ok(1) _ _ small held this] show ?thesis
    by (simp add: reserved_name_def starts_with_def)
qed

end
