(* ===== verification/Uploads.thy ===== *)
theory Uploads
  imports ClonePath
begin

section \<open>Multipart uploads\<close>

text \<open>
  \<open>cas/multipart.rs\<close>, \<open>cas/uploads.rs\<close> and the part records of \<open>cas/fs.rs\<close>: the records of the parts of
  an upload, the record that makes the upload exist, and the two claims on it. The record of a part holds a reference
  on each block of the part; a claim moves them to the caller in one transaction.

  A scan of the part tree asks the database for each item and carries fuel. The scan of an abort steps over
  errors, and the iterator does not move on an error, so a database that keeps failing on an item keeps the scan
  from ending: \<open>None\<close> is that outcome.
\<close>

subsection \<open>The code\<close>

definition mptree_insert :: "'s store_ops \<Rightarrow> bytes \<Rightarrow> multipart \<Rightarrow> ('s, meta_error, unit) act" where
  "mptree_insert S key mp = tr_insert S MULTIPART_PARTS_TREE key (multipart_to_vec mp)"

definition mptree_remove :: "'s store_ops \<Rightarrow> bytes \<Rightarrow> ('s, meta_error, unit) act" where
  "mptree_remove S key = bindM (tr_remove S MULTIPART_PARTS_TREE key) (\<lambda>_. ret ())"

definition mptree_get :: "'s store_ops \<Rightarrow> bytes \<Rightarrow> ('s, meta_error, multipart option) act" where
  "mptree_get S key =
    bindM (tr_get S MULTIPART_PARTS_TREE key) (\<lambda>r. case r of
      Some v \<Rightarrow> bindM (liftE (corrupt (multipart_try_from v))) (\<lambda>mp. ret (Some mp))
    | None \<Rightarrow> ret None)"

text \<open>One call of the iterator \<open>parts_of\<close> returns.\<close>

definition parts_next ::
  "'s store_ops \<Rightarrow> bytes \<Rightarrow> bytes option \<Rightarrow> ('s, meta_error, (meta_error + multipart) option \<times> bytes option) act" where
  "parts_next S prefix cur =
    bindM (\<lambda>s. let (r, s') = tr_iter_next S MULTIPART_PARTS_TREE cur s in (Inr r, s')) (\<lambda>(item, cur'). case item of
      None \<Rightarrow> ret (None, cur')
    | Some (Inl e) \<Rightarrow> ret (Some (Inl e), cur')
    | Some (Inr (key, raw)) \<Rightarrow>
        if starts_with key prefix then ret (Some (corrupt (multipart_try_from raw)), cur') else ret (None, cur'))"

fun collect_parts :: "nat \<Rightarrow> 's store_ops \<Rightarrow> bytes \<Rightarrow> bytes option \<Rightarrow> ('s, meta_error, multipart list option) act" where
  "collect_parts 0 S prefix cur = ret None"
| "collect_parts (Suc fuel) S prefix cur =
    bindM (parts_next S prefix cur) (\<lambda>(item, cur'). case item of
      None \<Rightarrow> ret (Some [])
    | Some (Inl e) \<Rightarrow> raise e
    | Some (Inr mp) \<Rightarrow> bindM (collect_parts fuel S prefix cur') (\<lambda>rest. ret (map_option ((#) mp) rest)))"

fun readable_parts :: "nat \<Rightarrow> 's store_ops \<Rightarrow> bytes \<Rightarrow> bytes option \<Rightarrow> ('s, meta_error, multipart list option) act" where
  "readable_parts 0 S prefix cur = ret None"
| "readable_parts (Suc fuel) S prefix cur =
    bindM (parts_next S prefix cur) (\<lambda>(item, cur'). case item of
      None \<Rightarrow> ret (Some [])
    | Some (Inl e) \<Rightarrow> readable_parts fuel S prefix cur'
    | Some (Inr mp) \<Rightarrow> bindM (readable_parts fuel S prefix cur') (\<lambda>rest. ret (map_option ((#) mp) rest)))"

definition insert_multipart_part ::
  "'s store_ops \<Rightarrow> string \<Rightarrow> string \<Rightarrow> usize \<Rightarrow> i64 \<Rightarrow> string \<Rightarrow> bytes \<Rightarrow> block_id list \<Rightarrow> ('s, meta_error, unit) act" where
  "insert_multipart_part S bucket key sz part_number upload_id hash blocks =
    mptree_insert S (part_key bucket key upload_id part_number)
      (multipart_new sz part_number bucket key upload_id hash blocks)"

definition get_multipart_part ::
  "'s store_ops \<Rightarrow> string \<Rightarrow> string \<Rightarrow> string \<Rightarrow> i64 \<Rightarrow> ('s, meta_error, multipart option) act" where
  "get_multipart_part S bucket key upload_id part_number = mptree_get S (part_key bucket key upload_id part_number)"

definition remove_multipart_part ::
  "'s store_ops \<Rightarrow> string \<Rightarrow> string \<Rightarrow> string \<Rightarrow> i64 \<Rightarrow> ('s, meta_error, unit) act" where
  "remove_multipart_part S bucket key upload_id part_number = mptree_remove S (part_key bucket key upload_id part_number)"

definition create_upload :: "'s store_ops \<Rightarrow> i64 \<Rightarrow> string \<Rightarrow> string \<Rightarrow> string \<Rightarrow> ('s, meta_error, unit) act" where
  "create_upload S now bucket key upload_id =
    (let rec = upload_record_new now bucket key upload_id in
     tr_insert S UPLOADS_TREE (upload_key bucket key upload_id) (upload_record_to_vec rec))"

definition get_upload :: "'s store_ops \<Rightarrow> string \<Rightarrow> string \<Rightarrow> string \<Rightarrow> ('s, meta_error, upload_record option) act" where
  "get_upload S bucket key upload_id =
    bindM (tr_get S UPLOADS_TREE (upload_key bucket key upload_id)) (\<lambda>r. case r of
      None \<Rightarrow> ret None
    | Some raw \<Rightarrow> bindM (liftE (corrupt (upload_record_try_from raw))) (\<lambda>rec. ret (Some rec)))"

definition claim_upload :: "'s store_ops \<Rightarrow> string \<Rightarrow> string \<Rightarrow> string \<Rightarrow> ('s, meta_error, upload_record option) act" where
  "claim_upload S bucket key upload_id =
    bindM (begin_transaction S) (\<lambda>_.
    bindM (or_rollback S (take_upload S (upload_key bucket key upload_id))) (\<lambda>rec.
    bindM (tx_commit S) (\<lambda>_. ret rec)))"

datatype upload_claim = Claimed upload_record "multipart list" | NoUpload | MissingPart i64

fun take_parts :: "'s store_ops \<Rightarrow> string \<Rightarrow> string \<Rightarrow> string \<Rightarrow> i64 list \<Rightarrow> ('s, meta_error, i64 + multipart list) act" where
  "take_parts S bucket key upload_id [] = ret (Inr [])"
| "take_parts S bucket key upload_id (part_number # part_numbers) =
    bindM (take_part S (part_key bucket key upload_id part_number)) (\<lambda>r. case r of
      None \<Rightarrow> ret (Inl part_number)
    | Some raw \<Rightarrow>
        bindM (liftE (corrupt (multipart_try_from raw))) (\<lambda>part.
        bindM (take_parts S bucket key upload_id part_numbers) (\<lambda>rest. ret (map_sum id ((#) part) rest))))"

definition claim_upload_with_parts ::
  "'s store_ops \<Rightarrow> string \<Rightarrow> string \<Rightarrow> string \<Rightarrow> i64 list \<Rightarrow> ('s, meta_error, upload_claim) act" where
  "claim_upload_with_parts S bucket key upload_id part_numbers =
    bindM (begin_transaction S) (\<lambda>_.
    bindM (or_rollback S (take_upload S (upload_key bucket key upload_id))) (\<lambda>r. case r of
      None \<Rightarrow> bindM (rollback S) (\<lambda>_. ret NoUpload)
    | Some rec \<Rightarrow>
        bindM (or_rollback S (take_parts S bucket key upload_id part_numbers)) (\<lambda>taken. case taken of
          Inl part_number \<Rightarrow> bindM (rollback S) (\<lambda>_. ret (MissingPart part_number))
        | Inr parts \<Rightarrow> bindM (tx_commit S) (\<lambda>_. ret (Claimed rec parts)))))"

definition list_uploads :: "nat \<Rightarrow> 's store_ops \<Rightarrow> ('s, meta_error, upload_record list option) act" where
  "list_uploads fuel S = iter_collect fuel S UPLOADS_TREE (\<lambda>_ raw. corrupt (upload_record_try_from raw)) None"

definition upload_parts ::
  "nat \<Rightarrow> 's store_ops \<Rightarrow> string \<Rightarrow> string \<Rightarrow> string \<Rightarrow> ('s, meta_error, multipart list option) act" where
  "upload_parts fuel S bucket key upload_id =
    (let prefix = part_prefix bucket key upload_id in collect_parts fuel S prefix (Some prefix))"

text \<open>\<open>claim_part\<close> is the transaction inside \<open>reap_part\<close>.\<close>

definition claim_part :: "'s store_ops \<Rightarrow> bytes \<Rightarrow> ('s, meta_error, multipart option) act" where
  "claim_part S storage_key =
    bindM (begin_transaction S) (\<lambda>_.
    bindM (or_rollback S (take_part S storage_key)) (\<lambda>r. case r of
      None \<Rightarrow> bindM (rollback S) (\<lambda>_. ret None)
    | Some raw \<Rightarrow>
        bindM (or_rollback S (liftE (corrupt (multipart_try_from raw)))) (\<lambda>part.
        bindM (tx_commit S) (\<lambda>_. ret (Some part)))))"

definition reap_part :: "('n, 's, 'd) env \<Rightarrow> bytes \<Rightarrow> ('n, 's, 'd, multipart option) cas_act" where
  "reap_part E storage_key =
    bindM (on_sh (claim_part (en_sh E) storage_key)) (\<lambda>r. case r of
      None \<Rightarrow> ret None
    | Some part \<Rightarrow> bindM (release_blocks E (mp_blocks part)) (\<lambda>_. ret (Some part)))"

fun reap_parts ::
  "('n, 's, 'd) env \<Rightarrow> string \<Rightarrow> string \<Rightarrow> string \<Rightarrow> multipart list \<Rightarrow> nat \<Rightarrow> ('n, 's, 'd, nat) cas_act" where
  "reap_parts E bucket key upload_id [] reaped = ret reaped"
| "reap_parts E bucket key upload_id (part # parts) reaped =
    bindM (tryM (reap_part E (part_key bucket key upload_id (mp_part_number part)))) (\<lambda>r.
      reap_parts E bucket key upload_id parts (case r of Inr (Some _) \<Rightarrow> reaped + 1 | _ \<Rightarrow> reaped))"

definition abort_upload ::
  "nat \<Rightarrow> ('n, 's, 'd) env \<Rightarrow> string \<Rightarrow> string \<Rightarrow> string \<Rightarrow> ('n, 's, 'd, nat option option) cas_act" where
  "abort_upload fuel E bucket key upload_id =
    bindM (on_sh (claim_upload (en_sh E) bucket key upload_id)) (\<lambda>claim. case claim of
      None \<Rightarrow> ret (Some None)
    | Some _ \<Rightarrow>
        let prefix = part_prefix bucket key upload_id in
        bindM (on_sh (readable_parts fuel (en_sh E) prefix (Some prefix))) (\<lambda>scan. case scan of
          None \<Rightarrow> ret None
        | Some parts \<Rightarrow>
            bindM (reap_parts E bucket key upload_id parts 0) (\<lambda>reaped. ret (Some (Some reaped)))))"

subsection \<open>What a claim takes\<close>

definition part_at :: "content \<Rightarrow> bytes \<Rightarrow> multipart option" where
  "part_at c k = (case map_of (c MULTIPART_PARTS_TREE) k of
     None \<Rightarrow> None
   | Some raw \<Rightarrow> (case multipart_try_from raw of Inr mp \<Rightarrow> Some mp | Inl _ \<Rightarrow> None))"

definition upload_live :: "content \<Rightarrow> string \<Rightarrow> string \<Rightarrow> string \<Rightarrow> bool" where
  "upload_live c b k u \<longleftrightarrow> map_of (c UPLOADS_TREE) (upload_key b k u) \<noteq> None"

text \<open>The records at some keys of the part tree are gone, the rest of the database is as before.\<close>

definition parts_gone :: "bytes set \<Rightarrow> content \<Rightarrow> content \<Rightarrow> bool" where
  "parts_gone K c c' \<longleftrightarrow> (\<forall>n. n \<noteq> MULTIPART_PARTS_TREE \<longrightarrow> c' n = c n) \<and>
     (\<forall>k. map_of (c' MULTIPART_PARTS_TREE) k = (if k \<in> K then None else map_of (c MULTIPART_PARTS_TREE) k))"

lemma part_atD: "part_at c k = Some mp \<Longrightarrow> \<exists>raw. map_of (c MULTIPART_PARTS_TREE) k = Some raw \<and> multipart_try_from raw = Inr mp"
  by (simp add: part_at_def split: option.splits sum.splits)

lemma part_at_wf: "part_at c k = Some mp \<Longrightarrow> h \<in> set (mp_blocks mp) \<Longrightarrow> wf_block_id h"
  using part_atD mp_blocks_wf by blast

lemma part_refs_taken:
  "cont_ok c \<Longrightarrow> part_at c k = Some mp \<Longrightarrow>
    part_refs (cont_del MULTIPART_PARTS_TREE k c) h + count_list (mp_blocks mp) h = part_refs c h"
  using part_refs_del [of c k h] by (auto dest!: part_atD simp: mp_refs_def)

lemma parts_gone_del: "cont_ok c \<Longrightarrow> parts_gone {k} c (cont_del MULTIPART_PARTS_TREE k c)"
  by (simp add: parts_gone_def)

lemma parts_gone_refl: "parts_gone {} c c"
  by (simp add: parts_gone_def)

lemma parts_gone_trans: "parts_gone K c c' \<Longrightarrow> parts_gone K' c' c'' \<Longrightarrow> parts_gone (K \<union> K') c c''"
  by (simp add: parts_gone_def)

lemma parts_gone_part_at: "parts_gone K c c' \<Longrightarrow> part_at c' k = (if k \<in> K then None else part_at c k)"
  by (simp add: parts_gone_def part_at_def)

lemma parts_gone_blk: "parts_gone K c c' \<Longrightarrow> blk_of c' = blk_of c"
  by (simp add: parts_gone_def blk_of_def fun_eq_iff)

text \<open>A change of the shared database that leaves the block tree alone moves references between the part records
  and the operation in progress.\<close>

lemma cas_inv_sh:
  assumes "cas_inv P g nc sc f nonce" "blk_of sc' = blk_of sc"
    "\<And>h. part_refs sc' h + L h \<le> part_refs sc h + gh_refs g h"
  shows "cas_inv P (g\<lparr>gh_refs := L\<rparr>) nc sc' f nonce"
proof -
  have rc: "rc_of sc' = rc_of sc" using assms(2) by (simp add: rc_of_def fun_eq_iff)
  have "acct nc sc' L" unfolding acct_def rc
  proof (intro allI impI)
    fix h assume "wf_block_id h"
    with assms(1) have "ns_refs nc h + part_refs sc h + gh_refs g h \<le> rc_of sc h" by (simp add: cas_inv_def acct_def)
    with assms(3) [of h] show "ns_refs nc h + part_refs sc' h + L h \<le> rc_of sc h" by linarith
  qed
  moreover have "room (gh_room g) sc'" "files_ok P sc' f" "degraded_in (gh_degraded g) sc'"
    using assms(1,2) rc by (simp_all add: cas_inv_def room_def files_ok_def degraded_in_def)
  ultimately show ?thesis using assms(1) by (simp add: cas_inv_def)
qed

lemma part_refs_uploads [simp]:
  "part_refs (cont_ins UPLOADS_TREE k v c) = part_refs c" "part_refs (cont_del UPLOADS_TREE k c) = part_refs c"
  by (simp_all add: part_refs_def fun_eq_iff)

lemma cont_ok_same: "(\<And>n. c' n = c n) \<Longrightarrow> cont_ok c' = cont_ok c"
  by (simp add: cont_ok_def)

context store_contract
begin

lemma mptree_get_spec:
  assumes "inv s"
  shows "wp (mptree_get S k)
    (\<lambda>r s'. same s s' \<and> names s' = names s \<and> r = part_at (cont s) k)
    (\<lambda>e s'. same s s' \<and> names s' = names s) s"
  unfolding mptree_get_def wp_bindM
  by (rule wp_tr_get [OF assms]) (auto simp: part_at_def split: option.split sum.split)

lemma get_upload_spec:
  assumes "inv s"
  shows "wp (get_upload S b k u)
    (\<lambda>r s'. same s s' \<and> names s' = names s \<and> (r \<noteq> None \<longleftrightarrow> upload_live (cont s) b k u))
    (\<lambda>e s'. same s s' \<and> names s' = names s) s"
  unfolding get_upload_def wp_bindM
  by (rule wp_tr_get [OF assms]) (auto simp: upload_live_def split: option.split sum.split)

lemma claim_upload_spec:
  assumes "inv s" "\<not> in_tx s"
  shows "wp (claim_upload S b k u)
    (\<lambda>r s'. inv s' \<and> \<not> in_tx s' \<and> (r \<noteq> None \<longleftrightarrow> upload_live (cont s) b k u) \<and>
       cont s' = (if r = None then cont s else cont_del UPLOADS_TREE (upload_key b k u) (cont s)))
    (\<lambda>e s'. inv s' \<and> \<not> in_tx s' \<and>
       (cont s' = cont s \<or> cont s' = cont_del UPLOADS_TREE (upload_key b k u) (cont s))) s"
    (is "wp _ ?Q ?R s")
  unfolding claim_upload_def wp_bindM
proof (rule wp_begin [OF assms])
  fix t assume t: "inv t" "in_tx t" "cont t = cont s" "txv t = cont s"
  have body: "wp (take_upload S (upload_key b k u))
     (\<lambda>r t'. inv t' \<and> in_tx t' \<and> cont t' = cont s \<and> (r \<noteq> None \<longleftrightarrow> upload_live (cont s) b k u) \<and>
        txv t' = (if r = None then cont s else cont_del UPLOADS_TREE (upload_key b k u) (cont s)))
     (\<lambda>e t'. inv t' \<and> in_tx t' \<and> cont t' = cont s \<and> {} \<subseteq> names t') t"
    by (rule wp_mono [OF take_upload_spec [OF t(1,2)]]) (use t in \<open>auto simp: upload_live_def split: option.splits\<close>)
  show "wp (or_rollback S (take_upload S (upload_key b k u))) (\<lambda>r. wp (tx_commit S) (\<lambda>_. wp (ret r) ?Q ?R) ?R) ?R t"
    unfolding wp_ret_fun
    by (rule wp_or_rollback [OF wp_mono [OF body]]) (auto intro!: wp_tx_commit)
qed

lemma claim_part_spec:
  assumes "inv s" "\<not> in_tx s"
  shows "wp (claim_part S k)
    (\<lambda>r s'. inv s' \<and> \<not> in_tx s' \<and> (case r of
        None \<Rightarrow> map_of (cont s MULTIPART_PARTS_TREE) k = None \<and> cont s' = cont s
      | Some mp \<Rightarrow> part_at (cont s) k = Some mp \<and> cont s' = cont_del MULTIPART_PARTS_TREE k (cont s)))
    (\<lambda>e s'. inv s' \<and> \<not> in_tx s' \<and> (cont s' = cont s \<or>
       (\<exists>mp. part_at (cont s) k = Some mp \<and> cont s' = cont_del MULTIPART_PARTS_TREE k (cont s)))) s"
    (is "wp _ ?Q ?R s")
  unfolding claim_part_def wp_bindM
proof (rule wp_begin [OF assms])
  fix t assume t: "inv t" "in_tx t" "cont t = cont s" "txv t = cont s"
  let ?B = "\<lambda>r t'. inv t' \<and> in_tx t' \<and> cont t' = cont s \<and> r = map_of (cont s MULTIPART_PARTS_TREE) k \<and>
        txv t' = (if r = None then cont s else cont_del MULTIPART_PARTS_TREE k (cont s))"
  have body: "wp (take_part S k) ?B (\<lambda>e t'. inv t' \<and> in_tx t' \<and> cont t' = cont s \<and> {} \<subseteq> names t') t"
    by (rule wp_mono [OF take_part_spec [OF t(1,2)]]) (use t in auto)
  show "wp (or_rollback S (take_part S k)) (\<lambda>r. wp (case r of
      None \<Rightarrow> bindM (rollback S) (\<lambda>_. ret None)
    | Some raw \<Rightarrow> bindM (or_rollback S (liftE (corrupt (multipart_try_from raw)))) (\<lambda>part.
        bindM (tx_commit S) (\<lambda>_. ret (Some part)))) ?Q ?R) ?R t"
  proof (rule wp_or_rollback [OF wp_mono [OF body]])
    fix r u assume u: "?B r u"
    show "wp (case r of None \<Rightarrow> bindM (rollback S) (\<lambda>_. ret None)
      | Some raw \<Rightarrow> bindM (or_rollback S (liftE (corrupt (multipart_try_from raw)))) (\<lambda>part.
          bindM (tx_commit S) (\<lambda>_. ret (Some part)))) ?Q ?R u"
    proof (cases r)
      case None
      show ?thesis unfolding None option.case wp_bindM wp_ret_fun by (rule wp_rollback) (use u None in auto)
    next
      case (Some raw)
      have tail: "wp (bindM (tx_commit S) (\<lambda>_. ret (Some mp))) ?Q ?R u" if "multipart_try_from raw = Inr mp" for mp
      proof -
        have "map_of (cont s MULTIPART_PARTS_TREE) k = Some raw" using u Some by (elim conjE) simp
        then have "part_at (cont s) k = Some mp" using that by (simp add: part_at_def)
        then show ?thesis unfolding wp_bindM wp_ret_fun by (intro wp_tx_commit) (use u Some in auto)
      qed
      have lift: "wp (liftE (corrupt (multipart_try_from raw))) (\<lambda>part. wp (bindM (tx_commit S) (\<lambda>_. ret (Some part))) ?Q ?R)
          (\<lambda>e s'. inv s' \<and> in_tx s' \<and> cont s' = cont s \<and> {} \<subseteq> names s') u"
        using tail u by (cases "multipart_try_from raw") (simp_all del: wp_bindM)
      show ?thesis unfolding Some option.case
        by (rule wp_bindM [THEN iffD2], rule wp_or_rollback [OF lift]) auto
    qed
  qed auto
qed

end

text \<open>The parts taken are the ones the transaction read, each once, and the counts of the tree drop by
  their blocks.\<close>

definition took_parts :: "string \<Rightarrow> string \<Rightarrow> string \<Rightarrow> i64 list \<Rightarrow> multipart list \<Rightarrow> content \<Rightarrow> content \<Rightarrow> bool" where
  "took_parts b k u ns parts c c' \<longleftrightarrow>
     list_all2 (\<lambda>n mp. part_at c (part_key b k u n) = Some mp) ns parts \<and>
     parts_gone (part_key b k u ` set ns) c c' \<and>
     (\<forall>h. part_refs c' h + count_list (concat (map mp_blocks parts)) h = part_refs c h)"

lemma took_parts_Nil: "took_parts b k u [] [] c c"
  by (simp add: took_parts_def parts_gone_refl)

lemma took_parts_Cons:
  assumes "cont_ok c" "part_at c (part_key b k u n) = Some mp"
    "took_parts b k u ns parts (cont_del MULTIPART_PARTS_TREE (part_key b k u n) c) c'"
  shows "took_parts b k u (n # ns) (mp # parts) c c'"
proof -
  let ?c = "cont_del MULTIPART_PARTS_TREE (part_key b k u n) c"
  have gone: "parts_gone {part_key b k u n} c ?c" by (rule parts_gone_del [OF assms(1)])
  have "list_all2 (\<lambda>n mp. part_at c (part_key b k u n) = Some mp) ns parts"
    by (rule list_all2_mono [OF conjunct1 [OF assms(3) [unfolded took_parts_def]]])
      (simp add: parts_gone_part_at [OF gone] split: if_splits)
  moreover have "parts_gone (part_key b k u ` set (n # ns)) c c'"
    using parts_gone_trans [OF gone] assms(3) by (simp add: took_parts_def)
  moreover have "part_refs c' h + count_list (concat (map mp_blocks (mp # parts))) h = part_refs c h" for h
    using part_refs_taken [OF assms(1,2), of h] assms(3) by (simp add: took_parts_def) (metis add.assoc add.commute)
  ultimately show ?thesis using assms(2) by (simp add: took_parts_def)
qed

context store_contract
begin

lemma take_parts_spec:
  assumes "inv s" "in_tx s"
  shows "wp (take_parts S b k u ns)
    (\<lambda>r s'. txf s s' \<and> (case r of
        Inl n \<Rightarrow> n \<in> set ns
      | Inr parts \<Rightarrow> took_parts b k u ns parts (txv s) (txv s')))
    (\<lambda>e s'. txf s s') s"
  using assms
proof (induction ns arbitrary: s)
  case (Cons n ns)
  let ?key = "part_key b k u n"
  have cok: "cont_ok (txv s)" by (rule inv_txv [OF Cons.prems])
  show ?case unfolding take_parts.simps
  proof (rule wp_seq [OF wp_mono [OF take_part_spec [OF Cons.prems]]])
    fix r t assume t: "txf s t \<and> r = map_of (txv s MULTIPART_PARTS_TREE) ?key \<and>
      txv t = (if r = None then txv s else cont_del MULTIPART_PARTS_TREE ?key (txv s))"
    show "wp (case r of None \<Rightarrow> ret (Inl n) | Some raw \<Rightarrow> bindM (liftE (corrupt (multipart_try_from raw)))
        (\<lambda>part. bindM (take_parts S b k u ns) (\<lambda>rest. ret (map_sum id ((#) part) rest))))
      (\<lambda>r s'. txf s s' \<and> (case r of Inl m \<Rightarrow> m \<in> set (n # ns) | Inr parts \<Rightarrow> took_parts b k u (n # ns) parts (txv s) (txv s')))
      (\<lambda>e s'. txf s s') t"
    proof (cases r)
      case None
      with t show ?thesis by simp
    next
      case (Some raw)
      have raw: "map_of (txv s MULTIPART_PARTS_TREE) ?key = Some raw" using t Some by (elim conjE) simp
      show ?thesis
      proof (cases "multipart_try_from raw")
        case (Inl e)
        from t have "txf s t" by simp
        then show ?thesis unfolding Some option.case Inl by simp
      next
        case (Inr mp)
        have at: "part_at (txv s) ?key = Some mp" using raw Inr by (simp add: part_at_def)
        have "txv t = cont_del MULTIPART_PARTS_TREE ?key (txv s)" using t Some by (elim conjE) simp
        then have cons: "took_parts b k u (n # ns) (mp # parts) (txv s) c'" if "took_parts b k u ns parts (txv t) c'" for parts c'
          using took_parts_Cons [OF cok at] that by simp
        have tf: "txf s t" using t by simp
        show ?thesis unfolding Some option.case Inr wp_bindM wp_liftE corrupt_simps sum.case wp_ret_fun
          by (rule wp_mono [OF Cons.IH]) (use tf cons in \<open>auto split: sum.splits\<close>)
      qed
    qed
  qed auto
qed (simp add: took_parts_Nil)

lemma claim_upload_with_parts_spec:
  assumes "inv s" "\<not> in_tx s"
  shows "wp (claim_upload_with_parts S b k u ns)
    (\<lambda>r s'. inv s' \<and> \<not> in_tx s' \<and> (case r of
        Claimed rec parts \<Rightarrow> upload_live (cont s) b k u \<and>
          took_parts b k u ns parts (cont_del UPLOADS_TREE (upload_key b k u) (cont s)) (cont s')
      | NoUpload \<Rightarrow> \<not> upload_live (cont s) b k u \<and> cont s' = cont s
      | MissingPart n \<Rightarrow> n \<in> set ns \<and> cont s' = cont s))
    (\<lambda>e s'. inv s' \<and> \<not> in_tx s' \<and> (cont s' = cont s \<or>
       (\<exists>parts. took_parts b k u ns parts (cont_del UPLOADS_TREE (upload_key b k u) (cont s)) (cont s')))) s"
    (is "wp _ ?Q ?R s")
  unfolding claim_upload_with_parts_def wp_bindM
proof (rule wp_begin [OF assms])
  fix t assume t: "inv t" "in_tx t" "cont t = cont s" "txv t = cont s"
  let ?c = "cont_del UPLOADS_TREE (upload_key b k u) (cont s)"
  let ?F = "\<lambda>e t'. inv t' \<and> in_tx t' \<and> cont t' = cont s \<and> {} \<subseteq> names t'"
  let ?B = "\<lambda>(r :: upload_record option) t'. inv t' \<and> in_tx t' \<and> cont t' = cont s \<and> (r \<noteq> None \<longleftrightarrow> upload_live (cont s) b k u) \<and>
    (r \<noteq> None \<longrightarrow> txv t' = ?c)"
  have body: "wp (take_upload S (upload_key b k u)) ?B ?F t"
    by (rule wp_mono [OF take_upload_spec [OF t(1,2)]]) (use t in \<open>auto simp: upload_live_def split: option.splits\<close>)
  have parts: "wp (or_rollback S (take_parts S b k u ns)) (\<lambda>taken. wp (case taken of
          Inl part_number \<Rightarrow> bindM (rollback S) (\<lambda>_. ret (MissingPart part_number))
        | Inr parts \<Rightarrow> bindM (tx_commit S) (\<lambda>_. ret (Claimed rec parts))) ?Q ?R) ?R v"
    if v: "inv v" "in_tx v" "cont v = cont s" "upload_live (cont s) b k u" "txv v = ?c" for v rec
  proof (rule wp_or_rollback [OF wp_mono [OF take_parts_spec [OF v(1,2)]]])
    fix r w assume w: "txf v w \<and> (case r of Inl n \<Rightarrow> n \<in> set ns | Inr parts \<Rightarrow> took_parts b k u ns parts (txv v) (txv w))"
    show "wp (case r of Inl part_number \<Rightarrow> bindM (rollback S) (\<lambda>_. ret (MissingPart part_number))
        | Inr parts \<Rightarrow> bindM (tx_commit S) (\<lambda>_. ret (Claimed rec parts))) ?Q ?R w"
    proof (cases r)
      case (Inl n)
      show ?thesis unfolding Inl sum.case wp_bindM wp_ret_fun by (rule wp_rollback) (use w v Inl in auto)
    next
      case (Inr ps)
      show ?thesis unfolding Inr sum.case wp_bindM wp_ret_fun by (rule wp_tx_commit) (use w v Inr in auto)
    qed
  qed (use v in auto)
  show "wp (or_rollback S (take_upload S (upload_key b k u))) (\<lambda>r. wp (case r of
      None \<Rightarrow> bindM (rollback S) (\<lambda>_. ret NoUpload)
    | Some rec \<Rightarrow> bindM (or_rollback S (take_parts S b k u ns)) (\<lambda>taken. case taken of
          Inl part_number \<Rightarrow> bindM (rollback S) (\<lambda>_. ret (MissingPart part_number))
        | Inr parts \<Rightarrow> bindM (tx_commit S) (\<lambda>_. ret (Claimed rec parts)))) ?Q ?R) ?R t"
  proof (rule wp_or_rollback [OF wp_mono [OF body]])
    fix r v assume v: "?B r v"
    show "wp (case r of None \<Rightarrow> bindM (rollback S) (\<lambda>_. ret NoUpload)
      | Some rec \<Rightarrow> bindM (or_rollback S (take_parts S b k u ns)) (\<lambda>taken. case taken of
          Inl part_number \<Rightarrow> bindM (rollback S) (\<lambda>_. ret (MissingPart part_number))
        | Inr parts \<Rightarrow> bindM (tx_commit S) (\<lambda>_. ret (Claimed rec parts)))) ?Q ?R v"
    proof (cases r)
      case None
      show ?thesis unfolding None option.case wp_bindM wp_ret_fun by (rule wp_rollback) (use v None in auto)
    next
      case (Some rec)
      show ?thesis unfolding Some option.case wp_bindM by (rule parts) (use v Some in auto)
    qed
  qed auto
qed

end

subsection \<open>Scans of one upload's parts\<close>

text \<open>The records under a prefix, in key order.\<close>

definition under_prefix :: "bytes \<Rightarrow> content \<Rightarrow> (bytes \<times> bytes) list" where
  "under_prefix p c = filter (\<lambda>(k, v). p < k \<and> starts_with k p) (c MULTIPART_PARTS_TREE)"

lemma starts_with_less: "p < k \<Longrightarrow> k < k' \<Longrightarrow> starts_with k' p \<Longrightarrow> starts_with k p" for p :: "'a::linorder list"
proof (induction p arbitrary: k k')
  case (Cons x p)
  from Cons.prems(3) obtain r where r: "k' = x # r" "starts_with r p" by (cases k') (auto simp: starts_with_def)
  with Cons.prems(1,2) obtain y where y: "k = x # y" by (cases k) auto
  with Cons.prems r have "starts_with y p" by (intro Cons.IH [of y r]) auto
  with y show ?case by (simp add: starts_with_def)
qed (simp add: starts_with_def)

lemma under_after:
  assumes "omap_ok m"
  shows "takeWhile (\<lambda>(k, v). starts_with k p) (filter (\<lambda>(k, v). p < k) m) = filter (\<lambda>(k, v). p < k \<and> starts_with k p) m"
  using assms
proof (induction m)
  case (Cons kv m)
  obtain k v where kv: "kv = (k, v)" by (cases kv)
  have ok: "omap_ok m" "\<And>k' v'. (k', v') \<in> set m \<Longrightarrow> k < k'" using Cons.prems kv by (auto simp: omap_ok_Cons)
  show ?case
  proof (cases "p < k \<and> \<not> starts_with k p")
    case True
    then have "filter (\<lambda>(k, v). p < k \<and> starts_with k p) m = []"
      using ok(2) starts_with_less [of p k] by (auto simp: filter_empty_conv)
    with True kv show ?thesis by simp
  qed (use Cons.IH [OF ok(1)] kv in auto)
qed simp

context store_contract
begin

lemma wp_parts_next:
  assumes "inv s"
    and "\<And>s' cur'. same s s' \<Longrightarrow> names s' = names s \<Longrightarrow>
      takeWhile (\<lambda>(k, v). starts_with k p) (after cur (cont s MULTIPART_PARTS_TREE)) = [] \<Longrightarrow> Q (None, cur') s'"
    and "\<And>s' e. same s s' \<Longrightarrow> names s' = names s \<Longrightarrow> Q (Some (Inl e), cur) s'"
    and "\<And>s' k v. same s s' \<Longrightarrow> names s' = names s \<Longrightarrow>
      takeWhile (\<lambda>(k, v). starts_with k p) (after cur (cont s MULTIPART_PARTS_TREE)) =
        (k, v) # takeWhile (\<lambda>(k, v). starts_with k p) (after (Some k) (cont s MULTIPART_PARTS_TREE)) \<Longrightarrow>
      Q (Some (corrupt (multipart_try_from v)), Some k) s'"
  shows "wp (parts_next S p cur) Q E s"
  unfolding parts_next_def wp_bindM
  by (rule wp_iter_next [OF assms(1)]) (use assms(2-4) in \<open>auto simp: takeWhile_eq_Nil_iff\<close>)

lemma collect_parts_spec:
  assumes "inv s" "length (takeWhile (\<lambda>(k, v). starts_with k p) (after cur (cont s MULTIPART_PARTS_TREE))) < fuel"
  shows "wp (collect_parts fuel S p cur)
    (\<lambda>r s'. same s s' \<and> names s' = names s \<and> (\<exists>mps. r = Some mps \<and>
       list_all2 (\<lambda>(k, v) mp. multipart_try_from v = Inr mp)
         (takeWhile (\<lambda>(k, v). starts_with k p) (after cur (cont s MULTIPART_PARTS_TREE))) mps))
    (\<lambda>e s'. same s s' \<and> names s' = names s) s"
  using assms
proof (induction fuel arbitrary: cur s)
  case (Suc fuel)
  show ?case unfolding collect_parts.simps wp_bindM
  proof (rule wp_parts_next [where p = p and cur = cur, OF Suc.prems(1)], goal_cases)
    case (3 s' k v)
    show ?case
    proof (cases "multipart_try_from v")
      case (Inl e)
      with 3 show ?thesis by simp
    next
      case (Inr mp)
      from 3 Suc.prems(2) have "length (takeWhile (\<lambda>(k, v). starts_with k p) (after (Some k) (cont s' MULTIPART_PARTS_TREE))) < fuel"
        by simp
      from Suc.IH [OF _ this] 3 show ?thesis unfolding Inr corrupt_simps prod.case option.case sum.case wp_bindM wp_ret_fun
        by (auto simp: Inr elim!: wp_mono)
    qed
  qed auto
qed simp

lemma readable_parts_spec:
  assumes "inv s"
  shows "wp (readable_parts fuel S p cur) (\<lambda>r s'. same s s') (\<lambda>e s'. same s s') s"
  using assms
proof (induction fuel arbitrary: cur s)
  case (Suc fuel)
  have step: "wp (parts_next S p cur) (\<lambda>r s'. same s s') (\<lambda>e s'. same s s') s"
    by (rule wp_parts_next [OF Suc.prems]) auto
  show ?case unfolding readable_parts.simps
  proof (rule wp_seq [OF step], goal_cases)
    case (1 r t)
    have IH: "wp (readable_parts fuel S p cur') (\<lambda>r s'. same s s') (\<lambda>e s'. same s s') t" for cur'
      by (rule wp_mono [OF Suc.IH]) (use 1 in auto)
    obtain item cur' where r: "r = (item, cur')" by (cases r)
    show ?case using IH [of cur'] 1 unfolding r by (auto split: option.split sum.split)
  qed
qed simp

lemma upload_parts_spec:
  assumes "inv s" "length (under_prefix (part_prefix b k u) (cont s)) < fuel"
  shows "wp (upload_parts fuel S b k u)
    (\<lambda>r s'. same s s' \<and> (\<exists>mps. r = Some mps \<and>
       list_all2 (\<lambda>(k, v) mp. multipart_try_from v = Inr mp) (under_prefix (part_prefix b k u) (cont s)) mps))
    (\<lambda>e s'. same s s') s"
proof -
  have "omap_ok (cont s MULTIPART_PARTS_TREE)" using inv_cont [OF assms(1)] by (simp add: cont_ok_def)
  from under_after [OF this] have eq: "takeWhile (\<lambda>(ka, v). starts_with ka (part_prefix b k u))
      (after (Some (part_prefix b k u)) (cont s MULTIPART_PARTS_TREE)) = under_prefix (part_prefix b k u) (cont s)"
    by (simp add: under_prefix_def)
  show ?thesis unfolding upload_parts_def Let_def
    by (rule wp_mono [OF collect_parts_spec [OF assms(1), of "part_prefix b k u" "Some (part_prefix b k u)", unfolded eq, OF assms(2)]]) auto
qed

end

subsection \<open>Claims and reaping keep the accounting\<close>

definition parts_swept :: "content \<Rightarrow> content \<Rightarrow> bool" where
  "parts_swept c c' \<longleftrightarrow>
     (\<forall>key. map_of (c' MULTIPART_PARTS_TREE) key = map_of (c MULTIPART_PARTS_TREE) key \<or>
        map_of (c' MULTIPART_PARTS_TREE) key = None \<and>
        ((\<exists>b k u n. key = part_key b k u n \<and> upload_live c b k u \<and> \<not> upload_live c' b k u) \<or>
         (\<exists>mp. part_at c key = Some mp \<and> \<not> upload_live c' (mp_bucket mp) (mp_key mp) (mp_upload_id mp))))"

lemma parts_swept_trans:
  assumes "parts_swept c d" "parts_swept d e"
    "\<And>b k u. upload_live d b k u \<Longrightarrow> upload_live c b k u" "\<And>b k u. upload_live e b k u \<Longrightarrow> upload_live d b k u"
  shows "parts_swept c e"
  unfolding parts_swept_def
proof
  fix key
  have at: "part_at c key = Some mp" if "part_at d key = Some mp" for mp
  proof -
    have "map_of (d MULTIPART_PARTS_TREE) key = map_of (c MULTIPART_PARTS_TREE) key"
      using assms(1) part_atD [OF that] unfolding parts_swept_def by (metis option.distinct(1))
    with that show ?thesis by (simp add: part_at_def)
  qed
  show "map_of (e MULTIPART_PARTS_TREE) key = map_of (c MULTIPART_PARTS_TREE) key \<or>
        map_of (e MULTIPART_PARTS_TREE) key = None \<and>
        ((\<exists>b k u n. key = part_key b k u n \<and> upload_live c b k u \<and> \<not> upload_live e b k u) \<or>
         (\<exists>mp. part_at c key = Some mp \<and> \<not> upload_live e (mp_bucket mp) (mp_key mp) (mp_upload_id mp)))"
  proof (cases "map_of (d MULTIPART_PARTS_TREE) key = map_of (c MULTIPART_PARTS_TREE) key")
    case True
    then show ?thesis using assms(2,3) at unfolding parts_swept_def by metis
  next
    case False
    then have "map_of (d MULTIPART_PARTS_TREE) key = None" using assms(1) unfolding parts_swept_def by metis
    then have "map_of (e MULTIPART_PARTS_TREE) key = None" using assms(2) unfolding parts_swept_def by metis
    then show ?thesis using False assms(1,4) unfolding parts_swept_def by metis
  qed
qed

context cas_contract
begin

lemma shared_names: "cas_ok g s \<Longrightarrow> MULTIPART_PARTS_TREE \<in> snames (cs_sh s)" "cas_ok g s \<Longrightarrow> UPLOADS_TREE \<in> snames (cs_sh s)"
  using sh.inv_keep [OF cas_okD(4)] by (auto simp: shared_trees_def)

lemma sh_step:
  assumes "cas_ok g s" "sinv t" "\<not> stx t" "blk_of (scont t) = blk_of (scont (cs_sh s))"
    "\<And>h. part_refs (scont t) h + L h \<le> part_refs (scont (cs_sh s)) h + gh_refs g h"
  shows "cas_ok (g\<lparr>gh_refs := L\<rparr>) (s\<lparr>cs_sh := t\<rparr>)"
  by (rule cas_ok_sh [OF assms(1-3) cas_inv_sh [OF cas_okD(7) [OF assms(1)] assms(4,5)]])

lemma sh_same:
  assumes "cas_ok g s" "sinv t" "\<not> stx t" "scont t = scont (cs_sh s)"
  shows "cas_ok g (s\<lparr>cs_sh := t\<rparr>)"
  using sh_step [OF assms(1-3), of "gh_refs g"] assms(4) by simp

lemma sh_take:
  assumes "cas_ok g s" "sinv t" "\<not> stx t" "blk_of (scont t) = blk_of (scont (cs_sh s))"
    "\<And>h. part_refs (scont t) h + count_list bs h = part_refs (scont (cs_sh s)) h"
  shows "cas_ok (g\<lparr>gh_refs := add_refs (gh_refs g) bs\<rparr>) (s\<lparr>cs_sh := t\<rparr>)"
proof (rule sh_step [OF assms(1-4)])
  fix h show "part_refs (scont t) h + add_refs (gh_refs g) bs h \<le> part_refs (scont (cs_sh s)) h + gh_refs g h"
    using assms(5) [of h] by (simp add: add_refs_def)
qed

lemma create_upload_spec:
  assumes "cas_ok g s"
  shows "wp (on_sh (create_upload (en_sh E) now b k u))
    (\<lambda>_ s'. cas_ok g s' \<and> cs_ns s' = cs_ns s \<and>
       scont (cs_sh s') = cont_ins UPLOADS_TREE (upload_key b k u) (upload_record_to_vec (upload_record_new now b k u)) (scont (cs_sh s)))
    (\<lambda>_ s'. cas_ok g s' \<and> cs_ns s' = cs_ns s) s"
  unfolding create_upload_def Let_def wp_on_sh
  by (rule sh.wp_tr_insert [OF cas_okD(4,5) [OF assms] shared_names(2) [OF assms]])
    (use sh_step [OF assms, of _ "gh_refs g"] sh_same [OF assms] in auto)

text \<open>A part record takes over the references of the operation that stored the blocks. Overwriting a part leaves the
  references of the record it displaces with nobody.\<close>

lemma insert_multipart_part_spec:
  assumes "cas_ok (g\<lparr>gh_refs := add_refs L blocks\<rparr>) s"
    and mp: "mp = multipart_new sz n b k u hash blocks" "multipart_try_from (multipart_to_vec mp) = Inr mp"
  shows "wp (on_sh (insert_multipart_part (en_sh E) b k sz n u hash blocks))
    (\<lambda>_ s'. cas_ok (g\<lparr>gh_refs := L\<rparr>) s' \<and> cs_ns s' = cs_ns s \<and>
       scont (cs_sh s') = cont_ins MULTIPART_PARTS_TREE (part_key b k u n) (multipart_to_vec mp) (scont (cs_sh s)))
    (\<lambda>_ s'. cas_ok (g\<lparr>gh_refs := L\<rparr>) s' \<and> cs_ns s' = cs_ns s) s"
proof -
  let ?g = "g\<lparr>gh_refs := add_refs L blocks\<rparr>" and ?raw = "multipart_to_vec mp" and ?c = "scont (cs_sh s)"
  have blocks: "mp_blocks mp = blocks" by (simp add: mp(1) multipart_new_def)
  have cok: "cont_ok ?c" by (rule sh.inv_cont [OF cas_okD(4) [OF assms(1)]])
  have stored: "cas_ok (g\<lparr>gh_refs := L\<rparr>) (s\<lparr>cs_sh := t\<rparr>)"
    if "sinv t" "\<not> stx t" "scont t = cont_ins MULTIPART_PARTS_TREE (part_key b k u n) ?raw ?c" for t
  proof -
    have "part_refs (scont t) h + L h \<le> part_refs ?c h + add_refs L blocks h" for h
      using part_refs_ins [OF cok, of "part_key b k u n" ?raw h] mp(2) blocks that(3) by (simp add: mp_refs_def add_refs_def)
    with sh_step [OF assms(1) that(1,2), of L] that(3) show ?thesis by simp
  qed
  have kept: "cas_ok (g\<lparr>gh_refs := L\<rparr>) (s\<lparr>cs_sh := t\<rparr>)" if "sinv t" "\<not> stx t" "scont t = ?c" for t
    by (rule drop_ref [OF sh_same [OF assms(1) that]])
  show ?thesis
    unfolding insert_multipart_part_def mptree_insert_def wp_on_sh mp(1) [symmetric]
    by (rule sh.wp_tr_insert [OF cas_okD(4,5) [OF assms(1)] shared_names(1) [OF assms(1)]])
      (use stored kept in auto)
qed

lemma on_claim_upload:
  assumes "cas_ok g s"
  shows "wp (on_sh (claim_upload (en_sh E) b k u))
    (\<lambda>r s'. cas_ok g s' \<and> cs_ns s' = cs_ns s \<and> (r \<noteq> None \<longleftrightarrow> upload_live (scont (cs_sh s)) b k u) \<and>
       scont (cs_sh s') = (if r = None then scont (cs_sh s) else cont_del UPLOADS_TREE (upload_key b k u) (scont (cs_sh s))))
    (\<lambda>e s'. cas_ok g s' \<and> cs_ns s' = cs_ns s \<and>
       (scont (cs_sh s') = scont (cs_sh s) \<or> scont (cs_sh s') = cont_del UPLOADS_TREE (upload_key b k u) (scont (cs_sh s)))) s"
  unfolding wp_on_sh
  by (rule wp_mono [OF sh.claim_upload_spec [OF cas_okD(4,5) [OF assms]]])
    (use sh_step [OF assms, of _ "gh_refs g"] in \<open>auto split: if_splits\<close>)

text \<open>The claim of a complete: all the named parts and their references, or nothing.\<close>

lemma on_claim_upload_with_parts:
  assumes ok: "cas_ok g s"
  shows "wp (on_sh (claim_upload_with_parts (en_sh E) b k u ns))
    (\<lambda>r s'. cs_ns s' = cs_ns s \<and> (case r of
        Claimed rec parts \<Rightarrow> cas_ok (g\<lparr>gh_refs := add_refs (gh_refs g) (concat (map mp_blocks parts))\<rparr>) s' \<and>
          upload_live (scont (cs_sh s)) b k u \<and>
          took_parts b k u ns parts (cont_del UPLOADS_TREE (upload_key b k u) (scont (cs_sh s))) (scont (cs_sh s'))
      | NoUpload \<Rightarrow> cas_ok g s' \<and> \<not> upload_live (scont (cs_sh s)) b k u \<and> scont (cs_sh s') = scont (cs_sh s)
      | MissingPart n \<Rightarrow> cas_ok g s' \<and> n \<in> set ns \<and> scont (cs_sh s') = scont (cs_sh s)))
    (\<lambda>e s'. cas_ok g s' \<and> cs_ns s' = cs_ns s \<and> (scont (cs_sh s') = scont (cs_sh s) \<or>
       (\<exists>parts. took_parts b k u ns parts (cont_del UPLOADS_TREE (upload_key b k u) (scont (cs_sh s))) (scont (cs_sh s'))))) s"
proof -
  let ?c = "cont_del UPLOADS_TREE (upload_key b k u) (scont (cs_sh s))"
  have taken: "cas_ok (g\<lparr>gh_refs := add_refs (gh_refs g) (concat (map mp_blocks parts))\<rparr>) (s\<lparr>cs_sh := t\<rparr>)"
    if "sinv t" "\<not> stx t" "took_parts b k u ns parts ?c (scont t)" for t parts
    by (rule sh_take [OF ok that(1,2)]) (use that(3) in \<open>auto simp: took_parts_def dest: parts_gone_blk\<close>)
  have dropped: "cas_ok g (s\<lparr>cs_sh := t\<rparr>)" if "sinv t" "\<not> stx t" "took_parts b k u ns parts ?c (scont t)" for t parts
    using drop_ref [OF taken [OF that]] by simp
  show ?thesis unfolding wp_on_sh
  proof (rule wp_mono [OF sh.claim_upload_with_parts_spec [OF cas_okD(4,5) [OF ok]]], goal_cases)
    case (1 r t)
    then show ?case using taken [of t] sh_same [OF ok, of t] by (cases r) auto
  next
    case (2 e t)
    then show ?case using dropped [of t] sh_same [OF ok, of t] by auto
  qed
qed

text \<open>Part records at some of the keys are gone; everything else outside the block tree is as before.\<close>

definition reaped :: "bytes set \<Rightarrow> ('n, 's, 'd) cas \<Rightarrow> ('n, 's, 'd) cas \<Rightarrow> bool" where
  "reaped K s s' \<longleftrightarrow> cs_ns s' = cs_ns s \<and>
     (\<forall>n. n \<notin> {DEFAULT_BLOCK_TREE, MULTIPART_PARTS_TREE} \<longrightarrow> scont (cs_sh s') n = scont (cs_sh s) n) \<and>
     (\<forall>k. map_of (scont (cs_sh s') MULTIPART_PARTS_TREE) k = map_of (scont (cs_sh s) MULTIPART_PARTS_TREE) k \<or>
        k \<in> K \<and> map_of (scont (cs_sh s') MULTIPART_PARTS_TREE) k = None)"

lemma reaped_refl: "reaped K s s"
  by (simp add: reaped_def)

lemma reaped_trans: "reaped K s t \<Longrightarrow> reaped K t u \<Longrightarrow> reaped K s u"
  unfolding reaped_def by metis

lemma reaped_mono: "reaped K s t \<Longrightarrow> K \<subseteq> K' \<Longrightarrow> reaped K' s t"
  unfolding reaped_def by blast

lemma reaped_gone: "reaped K s t \<Longrightarrow> map_of (scont (cs_sh s) MULTIPART_PARTS_TREE) k = None \<Longrightarrow>
  map_of (scont (cs_sh t) MULTIPART_PARTS_TREE) k = None"
  unfolding reaped_def by metis

lemma reap_part_spec:
  assumes ok: "cas_ok g s"
  shows "wp (reap_part E key)
    (\<lambda>r s'. cas_ok g s' \<and> reaped {key} s s' \<and> r = part_at (scont (cs_sh s)) key \<and>
       map_of (scont (cs_sh s') MULTIPART_PARTS_TREE) key = None)
    (\<lambda>e s'. cas_ok g s' \<and> reaped {key} s s') s"
    (is "wp _ ?Q ?R s")
proof -
  let ?c = "scont (cs_sh s)"
  have cok: "cont_ok ?c" by (rule sh.inv_cont [OF cas_okD(4) [OF ok]])
  have taken: "cas_ok (g\<lparr>gh_refs := add_refs (gh_refs g) (mp_blocks mp)\<rparr>) (s\<lparr>cs_sh := t\<rparr>)"
    if "sinv t" "\<not> stx t" "scont t = cont_del MULTIPART_PARTS_TREE key ?c" "part_at ?c key = Some mp" for t mp
    by (rule sh_take [OF ok that(1,2)]) (use part_refs_taken [OF cok that(4)] that(3) in simp_all)
  show ?thesis unfolding reap_part_def wp_bindM wp_on_sh
  proof (rule wp_mono [OF sh.claim_part_spec [OF cas_okD(4,5) [OF ok]]], goal_cases)
    case (1 r t)
    show ?case
    proof (cases r)
      case None
      with 1 sh_same [OF ok, of t] show ?thesis by (simp add: reaped_def part_at_def)
    next
      case (Some mp)
      with 1 have t: "sinv t" "\<not> stx t" "scont t = cont_del MULTIPART_PARTS_TREE key ?c" "part_at ?c key = Some mp" by auto
      have rel: "wp (release_blocks E (mp_blocks mp))
          (\<lambda>_ s'. cas_ok (g\<lparr>gh_refs := gh_refs g\<rparr>) s' \<and> blocks_only (s\<lparr>cs_sh := t\<rparr>) s') (\<lambda>_ _. False) (s\<lparr>cs_sh := t\<rparr>)"
        by (rule release_blocks_spec [OF taken [OF t]]) (use part_at_wf [OF t(4)] in blast)
      show ?thesis unfolding Some option.case wp_bindM wp_ret_fun
        by (rule wp_mono [OF rel]) (use t cok in \<open>auto simp: blocks_only_def reaped_def\<close>)
    qed
  next
    case (2 e t)
    then show ?case
    proof (elim conjE disjE exE)
      assume "sinv t" "\<not> stx t" "scont t = ?c"
      with sh_same [OF ok, of t] show ?thesis by (simp add: reaped_def)
    next
      fix mp assume t: "sinv t" "\<not> stx t" "part_at ?c key = Some mp" "scont t = cont_del MULTIPART_PARTS_TREE key ?c"
      from drop_ref [OF taken [OF t(1,2,4,3)]] t(4) cok show ?thesis by (simp add: reaped_def)
    qed
  qed
qed

lemma reap_parts_spec:
  assumes "cas_ok g s"
  shows "wp (reap_parts E b k u parts n) (\<lambda>r s'. cas_ok g s' \<and> reaped (range (part_key b k u)) s s') (\<lambda>_ _. False) s"
  using assms
proof (induction parts arbitrary: n s)
  case (Cons p parts)
  have step: "wp (tryM (reap_part E (part_key b k u (mp_part_number p))))
      (\<lambda>r s'. cas_ok g s' \<and> reaped (range (part_key b k u)) s s') (\<lambda>_ _. False) s"
    unfolding wp_tryM
    by (rule wp_mono [OF reap_part_spec [OF Cons.prems]]) (auto elim: reaped_mono)
  show ?case unfolding reap_parts.simps
  proof (rule wp_seq [OF step], goal_cases)
    case (1 r t)
    then show ?case by (intro wp_mono [OF Cons.IH]) (auto elim: reaped_trans)
  qed
qed (simp add: reaped_refl)

text \<open>What a clean-up may do: upload records go, and part records whose upload is gone, by the key they are stored
  under or by the upload they name. The namespace is untouched.\<close>

definition swept :: "('n, 's, 'd) cas \<Rightarrow> ('n, 's, 'd) cas \<Rightarrow> bool" where
  "swept s s' \<longleftrightarrow> cs_ns s' = cs_ns s \<and>
     (\<forall>k. map_of (scont (cs_sh s') UPLOADS_TREE) k = map_of (scont (cs_sh s) UPLOADS_TREE) k \<or>
        map_of (scont (cs_sh s') UPLOADS_TREE) k = None) \<and>
     parts_swept (scont (cs_sh s)) (scont (cs_sh s'))"

lemma sweptI:
  assumes "cs_ns s' = cs_ns s"
    "\<And>k. map_of (scont (cs_sh s') UPLOADS_TREE) k = map_of (scont (cs_sh s) UPLOADS_TREE) k \<or>
        map_of (scont (cs_sh s') UPLOADS_TREE) k = None"
    "parts_swept (scont (cs_sh s)) (scont (cs_sh s'))"
  shows "swept s s'"
  using assms by (simp add: swept_def)

lemma swept_live: "swept s s' \<Longrightarrow> upload_live (scont (cs_sh s')) b k u \<Longrightarrow> upload_live (scont (cs_sh s)) b k u"
  unfolding swept_def upload_live_def by metis

lemma swept_refl: "swept s s"
  by (simp add: swept_def parts_swept_def)

lemma swept_trans:
  assumes "swept s t" "swept t u"
  shows "swept s u"
proof (rule sweptI)
  show "cs_ns u = cs_ns s" using assms by (simp add: swept_def)
  show "map_of (scont (cs_sh u) UPLOADS_TREE) k = map_of (scont (cs_sh s) UPLOADS_TREE) k \<or>
    map_of (scont (cs_sh u) UPLOADS_TREE) k = None" for k using assms unfolding swept_def by metis
  show "parts_swept (scont (cs_sh s)) (scont (cs_sh u))"
    using parts_swept_trans [of "scont (cs_sh s)" "scont (cs_sh t)" "scont (cs_sh u)"] assms swept_live [OF assms(1)]
      swept_live [OF assms(2)] by (auto simp: swept_def)
qed

lemma reaped_swept:
  assumes "reaped K s s'"
    "\<And>key. key \<in> K \<Longrightarrow> (\<exists>b k u n. key = part_key b k u n \<and> upload_live (scont (cs_sh s0)) b k u \<and> \<not> upload_live (scont (cs_sh s)) b k u) \<or>
       (\<exists>mp. part_at (scont (cs_sh s)) key = Some mp \<and> \<not> upload_live (scont (cs_sh s)) (mp_bucket mp) (mp_key mp) (mp_upload_id mp))"
    "cs_ns s = cs_ns s0" "scont (cs_sh s) MULTIPART_PARTS_TREE = scont (cs_sh s0) MULTIPART_PARTS_TREE"
    "\<And>k. map_of (scont (cs_sh s) UPLOADS_TREE) k = map_of (scont (cs_sh s0) UPLOADS_TREE) k \<or>
        map_of (scont (cs_sh s) UPLOADS_TREE) k = None"
  shows "swept s0 s'"
proof -
  have up: "scont (cs_sh s') UPLOADS_TREE = scont (cs_sh s) UPLOADS_TREE" using assms(1) by (simp add: reaped_def)
  have live: "upload_live (scont (cs_sh s')) = upload_live (scont (cs_sh s))" by (simp add: fun_eq_iff upload_live_def up)
  have at: "part_at (scont (cs_sh s)) = part_at (scont (cs_sh s0))" by (simp add: fun_eq_iff part_at_def assms(4))
  show ?thesis
  proof (rule sweptI)
    show "cs_ns s' = cs_ns s0" using assms(1,3) by (simp add: reaped_def)
    show "parts_swept (scont (cs_sh s0)) (scont (cs_sh s'))"
      unfolding parts_swept_def live using assms(1,2) unfolding reaped_def at assms(4) by metis
  qed (use assms(5) in \<open>simp add: up\<close>)
qed

lemma abort_upload_spec:
  assumes ok: "cas_ok g s"
  shows "wp (abort_upload fuel E b k u)
    (\<lambda>r s'. cas_ok g s' \<and> swept s s' \<and> (r \<noteq> Some None \<longleftrightarrow> upload_live (scont (cs_sh s)) b k u) \<and>
       (\<forall>key. key \<noteq> upload_key b k u \<longrightarrow> map_of (scont (cs_sh s') UPLOADS_TREE) key = map_of (scont (cs_sh s) UPLOADS_TREE) key) \<and>
       \<not> upload_live (scont (cs_sh s')) b k u)
    (\<lambda>e s'. cas_ok g s' \<and> swept s s' \<and>
       (\<forall>key. key \<noteq> upload_key b k u \<longrightarrow> map_of (scont (cs_sh s') UPLOADS_TREE) key = map_of (scont (cs_sh s) UPLOADS_TREE) key)) s"
    (is "wp _ ?Q ?R s")
proof -
  let ?c = "scont (cs_sh s)" and ?d = "cont_del UPLOADS_TREE (upload_key b k u) (scont (cs_sh s))"
  let ?K = "range (part_key b k u)"
  have cok: "cont_ok ?c" by (rule sh.inv_cont [OF cas_okD(4) [OF ok]])
  have gone: "\<not> upload_live ?d b k u" using cok by (simp add: upload_live_def)
  have after: "swept s t' \<and> \<not> upload_live (scont (cs_sh t')) b k u \<and>
      (\<forall>key. key \<noteq> upload_key b k u \<longrightarrow> map_of (scont (cs_sh t') UPLOADS_TREE) key = map_of (?c UPLOADS_TREE) key)"
    if t: "cs_ns t = cs_ns s" "scont (cs_sh t) = ?d" "upload_live ?c b k u" and r: "reaped ?K t t'" for t t'
  proof -
    have "swept s t'"
      by (rule reaped_swept [OF r]) (use t gone cok in auto)
    moreover have "scont (cs_sh t') UPLOADS_TREE = ?d UPLOADS_TREE" using r t(2) by (simp add: reaped_def)
    ultimately show ?thesis using gone cok by (simp add: upload_live_def)
  qed
  have scan: "wp (on_sh (readable_parts fuel (en_sh E) p (Some p))) (\<lambda>r t'. cas_ok g t' \<and> cs_ns t' = cs_ns s \<and> scont (cs_sh t') = ?d)
      (\<lambda>e t'. cas_ok g t' \<and> cs_ns t' = cs_ns s \<and> scont (cs_sh t') = ?d) t"
    if t: "cas_ok g t" "cs_ns t = cs_ns s" "scont (cs_sh t) = ?d" for p t
    unfolding wp_on_sh
    by (rule wp_mono [OF sh.readable_parts_spec [OF cas_okD(4) [OF t(1)]]])
      (use sh_same [OF t(1)] cas_okD(5) [OF t(1)] t in auto)
  show ?thesis unfolding abort_upload_def wp_bindM
  proof (rule wp_mono [OF on_claim_upload [OF ok]], goal_cases)
    case (2 e t)
    then show ?case using cok by (auto intro!: sweptI simp: parts_swept_def split: if_splits)
  next
    case (1 r t)
    show ?case
    proof (cases r)
      case None
      with 1 show ?thesis by (auto intro!: sweptI simp: parts_swept_def)
    next
      case (Some rec)
      with 1 have t: "cas_ok g t" "cs_ns t = cs_ns s" "scont (cs_sh t) = ?d" and live: "upload_live ?c b k u" by auto
      have err: "?R e t'" if "cas_ok g t' \<and> cs_ns t' = cs_ns s \<and> scont (cs_sh t') = ?d" for e t'
        using after [OF _ _ live reaped_refl] that by auto
      show ?thesis unfolding Some option.case Let_def wp_bindM
      proof (rule wp_mono [OF scan [OF t]], goal_cases)
        case (2 e v)
        then show ?case by (rule err)
      next
        case (1 ps v)
        then have v: "cas_ok g v" "cs_ns v = cs_ns s" "scont (cs_sh v) = ?d" by auto
        show ?case
        proof (cases ps)
          case None
          with v after [OF v(2,3) live reaped_refl] live show ?thesis by simp
        next
          case (Some parts)
          show ?thesis unfolding Some option.case wp_bindM wp_ret_fun
            by (rule wp_mono [OF reap_parts_spec [OF v(1)]]) (use after [OF v(2,3) live] live in auto)
        qed
      qed
    qed
  qed
qed

end

end
