(* ===== verification/Gc.thy ===== *)
theory Gc
  imports Uploads
begin

section \<open>The sweep over stale uploads\<close>

text \<open>
  \<open>cas/gc.rs\<close>. A sweep aborts the uploads that are older than a cutoff and then reaps the part records whose upload is
  gone. It never stops at an error; it counts it. The counters are \<open>u64\<close> in the code, one step per record, and
  natural numbers here. The time is an argument.

  The walk over the part tree steps over an item the database fails on without moving, so it may not end: \<open>None\<close>
  is that outcome, and \<open>sweep_ends\<close> shows that it is the only way not to end.
\<close>

subsection \<open>The code\<close>

record sweep_stats =
  uploads_reaped :: nat
  orphan_parts_reaped :: nat
  sweep_errors :: nat

definition sweep_stats_default :: sweep_stats where
  "sweep_stats_default = \<lparr>uploads_reaped = 0, orphan_parts_reaped = 0, sweep_errors = 0\<rparr>"

definition count_error :: "sweep_stats \<Rightarrow> sweep_stats" where
  "count_error st = st\<lparr>sweep_errors := sweep_errors st + 1\<rparr>"

fun abort_aged ::
  "nat \<Rightarrow> ('n, 's, 'd) env \<Rightarrow> i64 \<Rightarrow> upload_record list \<Rightarrow> sweep_stats \<Rightarrow> ('n, 's, 'd, sweep_stats option) cas_act" where
  "abort_aged fuel E cutoff [] stats = ret (Some stats)"
| "abort_aged fuel E cutoff (rec # recs) stats =
    (if sint (up_created_at rec) \<ge> sint cutoff then abort_aged fuel E cutoff recs stats
     else
       bindM (tryM (abort_upload fuel E (up_bucket rec) (up_key rec) (up_upload_id rec))) (\<lambda>r. case r of
         Inr None \<Rightarrow> ret None
       | Inr (Some (Some parts)) \<Rightarrow> abort_aged fuel E cutoff recs (stats\<lparr>uploads_reaped := uploads_reaped stats + 1\<rparr>)
       | Inr (Some None) \<Rightarrow> abort_aged fuel E cutoff recs stats
       | Inl e \<Rightarrow> abort_aged fuel E cutoff recs (count_error stats)))"

definition sweep_aged_uploads ::
  "nat \<Rightarrow> ('n, 's, 'd) env \<Rightarrow> i64 \<Rightarrow> sweep_stats \<Rightarrow> ('n, 's, 'd, sweep_stats option) cas_act" where
  "sweep_aged_uploads fuel E cutoff stats =
    bindM (tryM (on_sh (list_uploads fuel (en_sh E)))) (\<lambda>r. case r of
      Inl e \<Rightarrow> ret (Some (count_error stats))
    | Inr None \<Rightarrow> ret None
    | Inr (Some records) \<Rightarrow> abort_aged fuel E cutoff records stats)"

fun find_orphans ::
  "nat \<Rightarrow> 's store_ops \<Rightarrow> bytes option \<Rightarrow> sweep_stats \<Rightarrow>
   ('s, meta_error, ((bytes \<times> multipart) list \<times> sweep_stats) option) act" where
  "find_orphans 0 S cur stats = ret None"
| "find_orphans (Suc fuel) S cur stats =
    bindM (\<lambda>s. let (r, s') = tr_iter_next S MULTIPART_PARTS_TREE cur s in (Inr r, s')) (\<lambda>(item, cur'). case item of
      None \<Rightarrow> ret (Some ([], stats))
    | Some (Inl e) \<Rightarrow> find_orphans fuel S cur' (count_error stats)
    | Some (Inr (storage_key, raw)) \<Rightarrow> (case multipart_try_from raw of
        Inl e \<Rightarrow> find_orphans fuel S cur' (count_error stats)
      | Inr part \<Rightarrow>
          bindM (tryM (get_upload S (mp_bucket part) (mp_key part) (mp_upload_id part))) (\<lambda>r. case r of
            Inr (Some _) \<Rightarrow> find_orphans fuel S cur' stats
          | Inr None \<Rightarrow>
              bindM (find_orphans fuel S cur' stats) (\<lambda>rest. ret (map_option (apfst ((#) (storage_key, part))) rest))
          | Inl e \<Rightarrow> find_orphans fuel S cur' (count_error stats))))"

fun reap_orphans ::
  "('n, 's, 'd) env \<Rightarrow> (bytes \<times> multipart) list \<Rightarrow> sweep_stats \<Rightarrow> ('n, 's, 'd, sweep_stats) cas_act" where
  "reap_orphans E [] stats = ret stats"
| "reap_orphans E ((storage_key, part) # orphans) stats =
    bindM (tryM (reap_part E storage_key)) (\<lambda>r. reap_orphans E orphans (case r of
      Inr (Some _) \<Rightarrow> stats\<lparr>orphan_parts_reaped := orphan_parts_reaped stats + 1\<rparr>
    | Inr None \<Rightarrow> stats
    | Inl e \<Rightarrow> count_error stats))"

definition sweep_orphan_parts ::
  "nat \<Rightarrow> ('n, 's, 'd) env \<Rightarrow> sweep_stats \<Rightarrow> ('n, 's, 'd, sweep_stats option) cas_act" where
  "sweep_orphan_parts fuel E stats =
    bindM (tryM (on_sh (st_tree_open (en_sh E) MULTIPART_PARTS_TREE))) (\<lambda>r. case r of
      Inl e \<Rightarrow> ret (Some (count_error stats))
    | Inr _ \<Rightarrow>
        bindM (on_sh (find_orphans fuel (en_sh E) None stats)) (\<lambda>found. case found of
          None \<Rightarrow> ret None
        | Some (orphans, stats) \<Rightarrow> bindM (reap_orphans E orphans stats) (\<lambda>stats. ret (Some stats))))"

definition i64_saturating_sub :: "i64 \<Rightarrow> i64 \<Rightarrow> i64" where
  "i64_saturating_sub a b = word_of_int (max (- (2 ^ 63)) (min (2 ^ 63 - 1) (sint a - sint b)))"

definition sweep_cutoff :: "i64 \<Rightarrow> u64 \<Rightarrow> i64" where
  "sweep_cutoff now ttl =
    (let ttl_secs = (if unat ttl < 2 ^ 63 then ttl else 2 ^ 63 - 1) in i64_saturating_sub now ttl_secs)"

definition sweep_stale_uploads ::
  "nat \<Rightarrow> ('n, 's, 'd) env \<Rightarrow> i64 \<Rightarrow> u64 \<Rightarrow> ('n, 's, 'd, sweep_stats option) cas_act" where
  "sweep_stale_uploads fuel E now ttl =
    bindM (sweep_aged_uploads fuel E (sweep_cutoff now ttl) sweep_stats_default) (\<lambda>r. case r of
      None \<Rightarrow> ret None
    | Some stats \<Rightarrow> sweep_orphan_parts fuel E stats)"

subsection \<open>The cutoff\<close>

lemma sint_i64_bounds: "- (2 ^ 63) \<le> sint (w :: i64)" "sint (w :: i64) < 2 ^ 63"
  using sint_ge [of w] sint_lt [of w] by simp_all

lemma sint_word_of_int_64: "- (2 ^ 63) \<le> x \<Longrightarrow> x < 2 ^ 63 \<Longrightarrow> sint (word_of_int x :: i64) = x"
  unfolding sint_sbintrunc' by (rule signed_take_bit_int_eq_self) simp_all

lemma sint_saturating_sub: "sint (i64_saturating_sub a b) = max (- (2 ^ 63)) (min (2 ^ 63 - 1) (sint a - sint b))"
  unfolding i64_saturating_sub_def by (rule sint_word_of_int_64) auto

lemma sint_small_word:
  assumes "unat (w :: i64) < 2 ^ 63"
  shows "sint w = int (unat w)"
proof -
  have "int (unat w) < 2 ^ 63" using assms by (metis of_nat_less_iff of_nat_numeral of_nat_power)
  moreover have "- (2 ^ 63) \<le> int (unat w)" by (rule order_trans [of _ 0]) simp_all
  ultimately show ?thesis using sint_word_of_int_64 [of "int (unat w)"] by simp
qed

lemma sint_sweep_cutoff:
  "sint (sweep_cutoff now ttl) = max (- (2 ^ 63)) (sint now - int (min (unat ttl) (2 ^ 63 - 1)))"
proof (cases "unat ttl < 2 ^ 63")
  case True
  have "sint now - int (unat ttl) \<le> 2 ^ 63 - 1" using sint_i64_bounds(2) [of now] by linarith
  moreover have "min (unat ttl) (2 ^ 63 - 1) = unat ttl" using True by simp
  ultimately show ?thesis
    unfolding sweep_cutoff_def Let_def if_P [OF True] sint_saturating_sub sint_small_word [OF True] by simp
next
  case False
  have s: "sint (2 ^ 63 - 1 :: i64) = 2 ^ 63 - 1" by (simp add: sint_word_of_int_64)
  have "min (unat ttl) (2 ^ 63 - 1) = 2 ^ 63 - 1" using False by simp
  then show ?thesis using sint_i64_bounds(2) [of now]
    unfolding sweep_cutoff_def Let_def if_not_P [OF False] sint_saturating_sub s by simp
qed

subsection \<open>What a sweep finds\<close>

definition aged :: "i64 \<Rightarrow> upload_record \<Rightarrow> bool" where
  "aged cutoff rec \<longleftrightarrow> sint (up_created_at rec) < sint cutoff"

abbreviation record_key :: "upload_record \<Rightarrow> bytes" where
  "record_key rec \<equiv> upload_key (up_bucket rec) (up_key rec) (up_upload_id rec)"

abbreviation part_live :: "content \<Rightarrow> multipart \<Rightarrow> bool" where
  "part_live c mp \<equiv> upload_live c (mp_bucket mp) (mp_key mp) (mp_upload_id mp)"

definition orphan_at :: "content \<Rightarrow> bytes \<times> multipart \<Rightarrow> bool" where
  "orphan_at c = (\<lambda>(key, mp). part_at c key = Some mp \<and> \<not> part_live c mp)"

text \<open>A record the walk leaves alone: it decodes and its upload is there.\<close>

definition tended :: "content \<Rightarrow> bytes \<Rightarrow> bool" where
  "tended c key \<longleftrightarrow> (\<exists>mp. part_at c key = Some mp \<and> part_live c mp)"

lemma count_error_simps [simp]:
  "sweep_errors (count_error st) = Suc (sweep_errors st)" "uploads_reaped (count_error st) = uploads_reaped st"
  "orphan_parts_reaped (count_error st) = orphan_parts_reaped st"
  by (simp_all add: count_error_def)

context store_contract
begin

abbreviation found_from :: "bytes option \<Rightarrow> 's \<Rightarrow> sweep_stats \<Rightarrow> (bytes \<times> multipart) list \<Rightarrow> sweep_stats \<Rightarrow> bool" where
  "found_from cur s st os st' \<equiv> (\<forall>x \<in> set os. orphan_at (cont s) x) \<and> sweep_errors st \<le> sweep_errors st' \<and>
     (sweep_errors st' = sweep_errors st \<longrightarrow>
       (\<forall>(k, v) \<in> set (after cur (cont s MULTIPART_PARTS_TREE)). k \<in> fst ` set os \<or> tended (cont s) k))"

lemma after_at:
  assumes "inv s" "after cur (cont s n) = (k, v) # es"
  shows "map_of (cont s n) k = Some v"
proof -
  have "omap_ok (cont s n)" using inv_cont [OF assms(1)] by (simp add: cont_ok_def)
  moreover have "(k, v) \<in> set (cont s n)" using assms(2) by (metis filter_is_subset list.set_intros(1) subsetD)
  ultimately show ?thesis by (simp add: omap_ok_map_of)
qed

lemma iter_collect_sound:
  assumes "inv s"
  shows "wp (iter_collect fuel S n f cur)
    (\<lambda>r s'. same s s' \<and> (\<forall>xs. r = Some xs \<longrightarrow> list_all2 (\<lambda>(k, v) x. f k v = Inr x) (after cur (cont s n)) xs))
    (\<lambda>e s'. same s s') s"
  using assms
proof (induction fuel arbitrary: cur s)
  case (Suc fuel)
  show ?case
    unfolding iter_collect.simps wp_bindM
  proof (rule wp_iter_next [OF Suc.prems(1)], goal_cases)
    case (3 s' k v es)
    with Suc.IH [of s' "Some k"] show ?case
      by (auto split: sum.split elim!: wp_mono)
  qed auto
qed simp

lemma iter_collect_ends:
  assumes "inv s"
  shows "wp (iter_collect fuel S n f cur) (\<lambda>r s'. length (after cur (cont s n)) < fuel \<longrightarrow> r \<noteq> None) (\<lambda>e s'. True) s"
proof (cases "length (after cur (cont s n)) < fuel")
  case True
  show ?thesis by (rule wp_mono [OF iter_collect_spec [OF assms True]]) auto
next
  case False
  then show ?thesis by (auto simp: wp_def split: prod.splits sum.splits)
qed

lemma find_orphans_spec:
  assumes "inv s"
  shows "wp (find_orphans fuel S cur st)
    (\<lambda>r s'. same s s' \<and> names s' = names s \<and> (case r of None \<Rightarrow> True | Some (os, st') \<Rightarrow> found_from cur s st os st'))
    (\<lambda>e s'. same s s' \<and> names s' = names s) s"
  using assms
proof (induction fuel arbitrary: cur s st)
  case (Suc fuel)
  show ?case unfolding find_orphans.simps wp_bindM
  proof (rule wp_iter_next [OF Suc.prems], goal_cases)
    case (2 s' e)
    then have "inv s'" by simp
    from Suc.IH [OF this, of cur "count_error st"] 2 show ?case
      by (auto elim!: wp_mono split: option.splits)
  next
    case (3 s' k v es)
    have at: "map_of (cont s MULTIPART_PARTS_TREE) k = Some v" by (rule after_at [OF Suc.prems 3(3)])
    from 3 have s': "inv s'" "cont s' = cont s" by auto
    note IH = Suc.IH [OF _, of _ "Some k"]
    have worse: "wp (find_orphans fuel S (Some k) (count_error st))
      (\<lambda>r s'. same s s' \<and> names s' = names s \<and> (case r of None \<Rightarrow> True | Some (os, st') \<Rightarrow> found_from cur s st os st'))
      (\<lambda>e s'. same s s' \<and> names s' = names s) t" if "same s t" "names t = names s" for t
      by (rule wp_mono [OF IH]) (use that in \<open>auto split: option.splits\<close>)
    show ?case
    proof (cases "multipart_try_from v")
      case (Inl e)
      with worse [of s'] 3 show ?thesis by simp
    next
      case (Inr mp)
      with at have mp: "part_at (cont s) k = Some mp" by (simp add: part_at_def)
      show ?thesis unfolding Inr prod.case option.case sum.case wp_bindM wp_tryM
      proof (rule wp_mono [OF get_upload_spec [OF s'(1)]], goal_cases)
        case (1 r t)
        then have t: "inv t" "same s t" "names t = names s" "cont t = cont s" "r \<noteq> None \<longleftrightarrow> part_live (cont s) mp"
          using 3 by auto
        show ?case
        proof (cases r)
          case None
          then have orph: "orphan_at (cont s) (k, mp)" using t(5) mp by (simp add: orphan_at_def)
          show ?thesis unfolding None sum.case option.case wp_bindM wp_ret_fun
            by (rule wp_mono [OF IH [OF t(1)]]) (use t 3 orph in \<open>auto split: option.splits\<close>)
        next
          case (Some x)
          then have "tended (cont s) k" using t(5) mp by (auto simp: tended_def)
          then show ?thesis unfolding Some sum.case option.case
            by (intro wp_mono [OF IH [OF t(1)]]) (use t 3 in \<open>auto split: option.splits\<close>)
        qed
      next
        case (2 e t)
        with worse [of t] 3 show ?case by simp
      qed
    qed
  qed auto
qed simp

end

subsection \<open>What a sweep does\<close>

context cas_contract
begin

abbreviation uploads_of :: "('n, 's, 'd) cas \<Rightarrow> bytes \<Rightarrow> bytes option" where
  "uploads_of s \<equiv> map_of (scont (cs_sh s) UPLOADS_TREE)"

abbreviation parts_in :: "('n, 's, 'd) cas \<Rightarrow> bytes \<Rightarrow> bytes option" where
  "parts_in s \<equiv> map_of (scont (cs_sh s) MULTIPART_PARTS_TREE)"

lemma reap_orphans_spec:
  assumes "cas_ok g s"
  shows "wp (reap_orphans E os st)
    (\<lambda>st' s'. cas_ok g s' \<and> reaped (fst ` set os) s s' \<and> sweep_errors st \<le> sweep_errors st' \<and>
       (sweep_errors st' = sweep_errors st \<longrightarrow> (\<forall>key \<in> fst ` set os. parts_in s' key = None)))
    (\<lambda>_ _. False) s"
  using assms
proof (induction os arbitrary: s st)
  case (Cons x os)
  obtain key mp where x: "x = (key, mp)" by (cases x)
  have step: "wp (tryM (reap_part E key)) (\<lambda>r t. cas_ok g t \<and> reaped {key} s t \<and> ((\<exists>y. r = Inr y) \<longrightarrow> parts_in t key = None))
      (\<lambda>_ _. False) s"
    unfolding wp_tryM by (rule wp_mono [OF reap_part_spec [OF Cons.prems]]) auto
  show ?case unfolding x reap_orphans.simps
  proof (rule wp_seq [OF step], goal_cases)
    case (1 r t)
    let ?st = "case r of Inr (Some _) \<Rightarrow> st\<lparr>orphan_parts_reaped := orphan_parts_reaped st + 1\<rparr> | Inr None \<Rightarrow> st | Inl e \<Rightarrow> count_error st"
    have st: "sweep_errors st \<le> sweep_errors ?st" "sweep_errors ?st = sweep_errors st \<Longrightarrow> \<exists>y. r = Inr y"
      by (auto split: sum.splits option.splits)
    from 1 have t: "cas_ok g t" "reaped (fst ` set (x # os)) s t" by (auto simp: x elim: reaped_mono)
    show ?case
    proof (rule wp_mono [OF Cons.IH [OF t(1)]], goal_cases)
      case (1 st' u)
      then have r: "reaped (fst ` set os) t u" "reaped (fst ` set ((key, mp) # os)) t u"
        by (auto elim: reaped_mono)
      have "parts_in u key = None" if "\<exists>y. r = Inr y"
        using reaped_gone [OF r(1)] \<open>_ \<and> _ \<and> (_ \<longrightarrow> parts_in t key = None)\<close> that by blast
      with 1 st reaped_trans [OF t(2) [unfolded x] r(2)] show ?case by (auto simp del: split_paired_All)
    qed
  qed
qed (simp add: reaped_refl)

lemma sweep_orphan_parts_spec:
  assumes ok: "cas_ok g s"
  shows "wp (sweep_orphan_parts fuel E st)
    (\<lambda>r s'. cas_ok g s' \<and> swept s s' \<and> uploads_of s' = uploads_of s \<and> (\<forall>st'. r = Some st' \<longrightarrow>
       sweep_errors st \<le> sweep_errors st' \<and>
       (sweep_errors st' = sweep_errors st \<longrightarrow> (\<forall>key. parts_in s' key \<noteq> None \<longrightarrow> tended (scont (cs_sh s')) key))))
    (\<lambda>e s'. cas_ok g s' \<and> swept s s' \<and> uploads_of s' = uploads_of s) s"
    (is "wp _ ?Q ?R s")
proof -
  have sweep: "swept s t" if "cs_ns t = cs_ns s" "scont (cs_sh t) = scont (cs_sh s)" for t
    using that by (intro sweptI) (simp_all add: parts_swept_def)
  have opened: "wp (tryM (on_sh (st_tree_open (en_sh E) MULTIPART_PARTS_TREE)))
      (\<lambda>_ t. cas_ok g t \<and> cs_ns t = cs_ns s \<and> scont (cs_sh t) = scont (cs_sh s)) ?R s"
    unfolding wp_tryM wp_on_sh
    by (rule sh.wp_tree_open [OF cas_okD(4) [OF ok]]) (use sh_same [OF ok] cas_okD(5) [OF ok] in auto)
  show ?thesis unfolding sweep_orphan_parts_def
  proof (rule wp_seq [OF opened], goal_cases)
    case (1 r t)
    then have t: "cas_ok g t" "cs_ns t = cs_ns s" "scont (cs_sh t) = scont (cs_sh s)" by auto
    show ?case
    proof (cases r)
      case (Inl e)
      with t sweep [of t] show ?thesis by simp
    next
      case (Inr x)
      have find: "wp (on_sh (find_orphans fuel (en_sh E) None st))
        (\<lambda>found v. cas_ok g v \<and> cs_ns v = cs_ns s \<and> scont (cs_sh v) = scont (cs_sh s) \<and>
           (case found of None \<Rightarrow> True | Some (os, st') \<Rightarrow> sh.found_from None (cs_sh s) st os st')) ?R t"
        unfolding wp_on_sh
        by (rule wp_mono [OF sh.find_orphans_spec [OF cas_okD(4) [OF t(1)], unfolded t(3)]])
          (use t sh_same [OF t(1)] cas_okD(5) [OF t(1)] sweep in auto)
      show ?thesis unfolding Inr sum.case
      proof (rule wp_seq [OF find], goal_cases)
        case (1 found v)
        then have v: "cas_ok g v" "cs_ns v = cs_ns s" "scont (cs_sh v) = scont (cs_sh s)" by auto
        show ?case
        proof (cases found)
          case None
          with v sweep [of v] show ?thesis by simp
        next
          case (Some y)
          obtain os st1 where y: "y = (os, st1)" by (cases y)
          from 1 Some y have f: "\<forall>x \<in> set os. orphan_at (scont (cs_sh s)) x" "sweep_errors st \<le> sweep_errors st1"
            "sweep_errors st1 = sweep_errors st \<Longrightarrow>
              \<forall>(k, w) \<in> set (scont (cs_sh s) MULTIPART_PARTS_TREE). k \<in> fst ` set os \<or> tended (scont (cs_sh s)) k" by auto
          show ?thesis unfolding Some y option.case prod.case wp_bindM wp_ret_fun
          proof (rule wp_mono [OF reap_orphans_spec [OF v(1)]], goal_cases)
            case (1 st2 w)
            then have r: "reaped (fst ` set os) v w" by simp
            have up: "scont (cs_sh w) UPLOADS_TREE = scont (cs_sh s) UPLOADS_TREE" using r v(3) by (simp add: reaped_def)
            have "swept s w"
              by (rule reaped_swept [OF r]) (use v f(1) in \<open>auto simp: orphan_at_def\<close>)
            moreover have "tended (scont (cs_sh w)) key"
              if e: "sweep_errors st2 = sweep_errors st" and p: "parts_in w key \<noteq> None" for key
            proof -
              have same: "parts_in w key = parts_in s key" using r p v(3) unfolding reaped_def by metis
              with p obtain raw where raw: "parts_in s key = Some raw" by auto
              have "key \<notin> fst ` set os" using 1 e p f(2) by auto
              with f(3) e 1 f(2) map_of_SomeD [OF raw] have "tended (scont (cs_sh s)) key" by fastforce
              then show ?thesis using same up by (auto simp: tended_def part_at_def upload_live_def)
            qed
            ultimately show ?case using 1 f(2) up by auto
          qed simp
        qed
      qed
    qed
  qed
qed

text \<open>The upload records that may go are the ones of the aged records of the list.\<close>

definition aged_gone :: "i64 \<Rightarrow> upload_record list \<Rightarrow> ('n, 's, 'd) cas \<Rightarrow> ('n, 's, 'd) cas \<Rightarrow> bool" where
  "aged_gone cutoff recs s s' \<longleftrightarrow>
     (\<forall>key. key \<notin> record_key ` {rec \<in> set recs. aged cutoff rec} \<longrightarrow> uploads_of s' key = uploads_of s key)"

lemma abort_aged_spec:
  assumes "cas_ok g s"
  shows "wp (abort_aged fuel E cutoff recs st)
    (\<lambda>r s'. cas_ok g s' \<and> swept s s' \<and> aged_gone cutoff recs s s' \<and> (\<forall>st'. r = Some st' \<longrightarrow>
       sweep_errors st \<le> sweep_errors st' \<and> (sweep_errors st' = sweep_errors st \<longrightarrow>
         (\<forall>rec \<in> set recs. aged cutoff rec \<longrightarrow> uploads_of s' (record_key rec) = None))))
    (\<lambda>_ _. False) s"
  using assms
proof (induction recs arbitrary: s st)
  case Nil
  then show ?case by (simp add: swept_refl aged_gone_def)
next
  case (Cons rec recs)
  show ?case
  proof (cases "aged cutoff rec")
    case False
    then have c: "sint (up_created_at rec) \<ge> sint cutoff" by (simp add: aged_def)
    show ?thesis unfolding abort_aged.simps if_P [OF c]
      by (rule wp_mono [OF Cons.IH [OF Cons.prems]]) (use False in \<open>auto simp: aged_gone_def\<close>)
  next
    case True
    then have c: "\<not> sint (up_created_at rec) \<ge> sint cutoff" by (simp add: aged_def)
    let ?Q = "\<lambda>r s'. cas_ok g s' \<and> swept s s' \<and> aged_gone cutoff (rec # recs) s s' \<and> (\<forall>st'. r = Some st' \<longrightarrow>
       sweep_errors st \<le> sweep_errors st' \<and> (sweep_errors st' = sweep_errors st \<longrightarrow>
         (\<forall>rec \<in> set (rec # recs). aged cutoff rec \<longrightarrow> uploads_of s' (record_key rec) = None)))"
    have step: "wp (tryM (abort_upload fuel E (up_bucket rec) (up_key rec) (up_upload_id rec)))
        (\<lambda>r t. cas_ok g t \<and> swept s t \<and> (\<forall>key. key \<noteq> record_key rec \<longrightarrow> uploads_of t key = uploads_of s key) \<and>
          ((\<exists>y. r = Inr y) \<longrightarrow> uploads_of t (record_key rec) = None)) (\<lambda>_ _. False) s"
      unfolding wp_tryM by (rule wp_mono [OF abort_upload_spec [OF Cons.prems]]) (auto simp: upload_live_def)
    have rest: "wp (abort_aged fuel E cutoff recs st1) ?Q (\<lambda>_ _. False) t"
      if t: "cas_ok g t" "swept s t" "\<forall>key. key \<noteq> record_key rec \<longrightarrow> uploads_of t key = uploads_of s key"
        "sweep_errors st1 = sweep_errors st \<longrightarrow> uploads_of t (record_key rec) = None" "sweep_errors st \<le> sweep_errors st1" for t st1
    proof (rule wp_mono [OF Cons.IH [OF t(1), of st1]], goal_cases)
      case (1 r u)
      then have u: "swept s u" using swept_trans [OF t(2)] by simp
      have gone: "uploads_of u (record_key rec) = None" if "uploads_of t (record_key rec) = None"
        using 1 that unfolding swept_def by metis
      have "record_key ` {x \<in> set (rec # recs). aged cutoff x} = insert (record_key rec) (record_key ` {x \<in> set recs. aged cutoff x})"
        using True by auto
      with 1 t(3) have "aged_gone cutoff (rec # recs) s u" by (simp add: aged_gone_def)
      with 1 u gone t(4,5) show ?case by (auto simp: le_antisym)
    qed simp
    show ?thesis unfolding abort_aged.simps if_not_P [OF c]
    proof (rule wp_seq [OF step], goal_cases)
      case (1 r t)
      then have t: "cas_ok g t" "swept s t" "\<forall>key. key \<noteq> record_key rec \<longrightarrow> uploads_of t key = uploads_of s key" by auto
      have "wp (ret None) ?Q (\<lambda>_ _. False) t"
        using t True by (auto simp: aged_gone_def)
      with rest [OF t] 1 show ?case by (auto split: sum.splits option.splits)
    qed
  qed
qed

definition listed_from :: "('n, 's, 'd) cas \<Rightarrow> upload_record list \<Rightarrow> bool" where
  "listed_from s recs \<longleftrightarrow>
     list_all2 (\<lambda>(k, v) rec. upload_record_try_from v = Inr rec) (scont (cs_sh s) UPLOADS_TREE) recs"

lemma listed_mem:
  assumes "cas_ok g s" "listed_from s recs"
  shows "rec \<in> set recs \<longleftrightarrow> (\<exists>k raw. uploads_of s k = Some raw \<and> upload_record_try_from raw = Inr rec)"
proof -
  have ok: "omap_ok (scont (cs_sh s) UPLOADS_TREE)"
    using sh.inv_cont [OF cas_okD(4) [OF assms(1)]] by (simp add: cont_ok_def)
  have "rec \<in> set xs \<longleftrightarrow> (\<exists>k raw. (k, raw) \<in> set m \<and> upload_record_try_from raw = Inr rec)"
    if "list_all2 (\<lambda>(k, v) rec. upload_record_try_from v = Inr rec) m xs" for m :: "(bytes \<times> bytes) list" and xs
    using that by (induction rule: list_all2_induct) auto
  with assms(2) ok show ?thesis by (auto simp: listed_from_def omap_ok_map_of)
qed

lemma on_list_uploads:
  assumes ok: "cas_ok g s"
  shows "wp (on_sh (list_uploads fuel (en_sh E)))
    (\<lambda>r t. cas_ok g t \<and> cs_ns t = cs_ns s \<and> scont (cs_sh t) = scont (cs_sh s) \<and> (\<forall>recs. r = Some recs \<longrightarrow> listed_from s recs) \<and>
       (length (scont (cs_sh s) UPLOADS_TREE) < fuel \<longrightarrow> r \<noteq> None))
    (\<lambda>e t. cas_ok g t \<and> cs_ns t = cs_ns s \<and> scont (cs_sh t) = scont (cs_sh s)) s"
  unfolding list_uploads_def wp_on_sh
  by (rule wp_mono [OF wp_conj [OF sh.iter_collect_sound [OF cas_okD(4) [OF ok]] sh.iter_collect_ends [OF cas_okD(4) [OF ok]]]])
    (use sh_same [OF ok] cas_okD(5) [OF ok] in \<open>auto simp: listed_from_def corrupt_eq_Inr split: prod.splits elim: list_all2_mono\<close>)

lemma sweep_aged_uploads_spec:
  assumes ok: "cas_ok g s"
  shows "wp (sweep_aged_uploads fuel E cutoff st)
    (\<lambda>r s'. cas_ok g s' \<and> swept s s' \<and>
       (\<forall>key. uploads_of s' key = uploads_of s key \<or>
         (\<exists>k raw rec. uploads_of s k = Some raw \<and> upload_record_try_from raw = Inr rec \<and> aged cutoff rec \<and> key = record_key rec)) \<and>
       (\<forall>st'. r = Some st' \<longrightarrow> sweep_errors st \<le> sweep_errors st' \<and> (sweep_errors st' = sweep_errors st \<longrightarrow>
         (\<forall>k raw rec. uploads_of s k = Some raw \<longrightarrow> upload_record_try_from raw = Inr rec \<longrightarrow> aged cutoff rec \<longrightarrow>
            uploads_of s' (record_key rec) = None))))
    (\<lambda>_ _. False) s"
    (is "wp _ ?Q ?R s")
proof -
  have listing: "wp (tryM (on_sh (list_uploads fuel (en_sh E))))
      (\<lambda>r t. cas_ok g t \<and> cs_ns t = cs_ns s \<and> scont (cs_sh t) = scont (cs_sh s) \<and>
         (\<forall>recs. r = Inr (Some recs) \<longrightarrow> listed_from s recs)) ?R s"
    unfolding wp_tryM by (rule wp_mono [OF on_list_uploads [OF ok]]) auto
  show ?thesis unfolding sweep_aged_uploads_def
  proof (rule wp_seq [OF listing], goal_cases)
    case (1 r t)
    then have t: "cas_ok g t" "swept s t" "scont (cs_sh t) = scont (cs_sh s)"
      by (auto intro!: sweptI simp: parts_swept_def)
    show ?case
    proof (cases "\<exists>recs. r = Inr (Some recs)")
      case True
      then obtain recs where r: "r = Inr (Some recs)" "listed_from s recs" using 1 by auto
      note mem = listed_mem [OF ok r(2)]
      show ?thesis unfolding r(1) sum.case option.case
      proof (rule wp_mono [OF abort_aged_spec [OF t(1)]], goal_cases)
        case (1 x u)
        then have "swept s u" using swept_trans [OF t(2)] by blast
        moreover have "uploads_of u key = uploads_of s key \<or>
          (\<exists>k raw rec. uploads_of s k = Some raw \<and> upload_record_try_from raw = Inr rec \<and> aged cutoff rec \<and> key = record_key rec)" for key
          using 1 mem unfolding aged_gone_def t(3) by (auto simp: image_iff) metis
        ultimately show ?case using 1 mem by auto
      qed simp
    next
      case False
      then show ?thesis using 1 t by (auto split: sum.splits option.splits)
    qed
  qed
qed

text \<open>Both phases.\<close>

lemma sweep_stale_uploads_spec:
  assumes ok: "cas_ok g s" and cut: "cutoff = sweep_cutoff now ttl"
  shows "wp (sweep_stale_uploads fuel E now ttl)
    (\<lambda>r s'. cas_ok g s' \<and> swept s s' \<and>
       (\<forall>key. uploads_of s' key = uploads_of s key \<or>
         (\<exists>k raw rec. uploads_of s k = Some raw \<and> upload_record_try_from raw = Inr rec \<and> aged cutoff rec \<and> key = record_key rec)) \<and>
       (\<forall>st. r = Some st \<longrightarrow> sweep_errors st = 0 \<longrightarrow>
         (\<forall>k raw rec. uploads_of s k = Some raw \<longrightarrow> upload_record_try_from raw = Inr rec \<longrightarrow> aged cutoff rec \<longrightarrow>
            uploads_of s' (record_key rec) = None) \<and>
         (\<forall>key. parts_in s' key \<noteq> None \<longrightarrow> tended (scont (cs_sh s')) key)))
    (\<lambda>e s'. cas_ok g s' \<and> swept s s' \<and>
       (\<forall>key. uploads_of s' key = uploads_of s key \<or>
         (\<exists>k raw rec. uploads_of s k = Some raw \<and> upload_record_try_from raw = Inr rec \<and> aged cutoff rec \<and> key = record_key rec))) s"
    (is "wp _ ?Q ?R s")
  unfolding sweep_stale_uploads_def cut [symmetric] wp_bindM
proof (rule wp_mono [OF sweep_aged_uploads_spec [OF ok]], goal_cases)
  case (1 r t)
  then have t: "cas_ok g t" "swept s t" by auto
  show ?case
  proof (cases r)
    case None
    with 1 show ?thesis by simp
  next
    case (Some st)
    show ?thesis unfolding Some option.case
    proof (rule wp_mono [OF sweep_orphan_parts_spec [OF t(1)]], goal_cases)
      case (1 r' u)
      then have "swept s u" "uploads_of u = uploads_of t" using swept_trans [OF t(2)] by auto
      then show ?case using 1 \<open>cas_ok g t \<and> _\<close> Some by (auto simp: sweep_stats_default_def)
    next
      case (2 e u)
      then have "swept s u" "uploads_of u = uploads_of t" using swept_trans [OF t(2)] by auto
      then show ?case using 2 \<open>cas_ok g t \<and> _\<close> by auto
    qed
  qed
qed simp

end

subsection \<open>A sweep ends\<close>

text \<open>A database whose iterators report no error.\<close>

definition steady :: "'s store_ops \<Rightarrow> bool" where
  "steady S \<longleftrightarrow> (\<forall>n cur s. case fst (fst (tr_iter_next S n cur s)) of Some (Inl e) \<Rightarrow> False | _ \<Rightarrow> True)"

context store_contract
begin

lemma wp_steady_next:
  assumes "inv s" "steady S"
    and "\<And>s' cur'. same s s' \<Longrightarrow> after cur (cont s n) = [] \<Longrightarrow> Q (None, cur') s'"
    and "\<And>s' k v es. same s s' \<Longrightarrow> after cur (cont s n) = (k, v) # es \<Longrightarrow>
      after (Some k) (cont s n) = es \<Longrightarrow> Q (Some (Inr (k, v)), Some k) s'"
  shows "wp (\<lambda>s. let (r, s') = tr_iter_next S n cur s in (Inr r, s')) Q E s"
proof -
  have never: "case fst (fst (tr_iter_next S n cur s)) of Some (Inl e) \<Rightarrow> False | _ \<Rightarrow> True"
    using assms(2) by (simp add: steady_def)
  have "wp (\<lambda>s. let (r, s') = tr_iter_next S n cur s in (Inr r, s'))
     (\<lambda>x t. Q x t \<or> (\<exists>e. fst x = Some (Inl e))) E s"
    by (rule wp_iter_next [OF assms(1)]) (use assms(3,4) in auto)
  then show ?thesis using never
    by (cases "tr_iter_next S n cur s") (auto simp: wp_def Let_def split: prod.splits option.splits sum.splits)
qed

lemma readable_parts_ends:
  assumes "inv s" "steady S" "length (after cur (cont s MULTIPART_PARTS_TREE)) < fuel"
  shows "wp (readable_parts fuel S p cur) (\<lambda>r s'. r \<noteq> None) (\<lambda>e s'. True) s"
  using assms(1,3)
proof (induction fuel arbitrary: cur s)
  case (Suc fuel)
  show ?case unfolding readable_parts.simps parts_next_def wp_bindM
  proof (rule wp_steady_next [OF Suc.prems(1) assms(2)], goal_cases)
    case (2 s' k v es)
    have IH: "wp (readable_parts fuel S p (Some k)) (\<lambda>r s'. r \<noteq> None) (\<lambda>e s'. True) s'"
      by (rule Suc.IH) (use 2 Suc.prems(2) in auto)
    then show ?case by (auto split: sum.split elim!: wp_mono)
  qed simp
qed simp

lemma find_orphans_ends:
  assumes "inv s" "steady S" "length (after cur (cont s MULTIPART_PARTS_TREE)) < fuel"
  shows "wp (find_orphans fuel S cur st) (\<lambda>r s'. r \<noteq> None) (\<lambda>e s'. False) s"
  using assms(1,3)
proof (induction fuel arbitrary: cur s st)
  case (Suc fuel)
  show ?case unfolding find_orphans.simps wp_bindM
  proof (rule wp_steady_next [OF Suc.prems(1) assms(2)], goal_cases)
    case (2 s' k v es)
    have IH: "wp (find_orphans fuel S (Some k) st') (\<lambda>r s'. r \<noteq> None) (\<lambda>e s'. False) t" if "inv t" "cont t = cont s" for t st'
      by (rule Suc.IH [OF that(1)]) (use 2 Suc.prems(2) that(2) in auto)
    have s': "inv s'" "cont s' = cont s" using 2 by auto
    show ?case
    proof (cases "multipart_try_from v")
      case (Inl e)
      with IH [OF s'] show ?thesis by simp
    next
      case (Inr mp)
      show ?thesis unfolding Inr prod.case option.case sum.case wp_bindM wp_tryM
      proof (rule wp_mono [OF get_upload_spec [OF s'(1)]], goal_cases)
        case (1 r t)
        then have "inv t" "cont t = cont s" using s'(2) by auto
        note rest = IH [OF this]
        have "wp (bindM (find_orphans fuel S (Some k) st) (\<lambda>rest. ret (map_option (apfst ((#) (k, mp))) rest)))
            (\<lambda>r s'. r \<noteq> None) (\<lambda>e s'. False) t"
          unfolding wp_bindM wp_ret_fun by (rule wp_mono [OF rest]) simp_all
        with rest show ?case by (cases r) (simp_all only: sum.case option.case)
      next
        case (2 e t)
        with IH [of t] s'(2) show ?case by simp
      qed
    qed
  qed simp
qed simp

end

context cas_contract
begin

lemma parts_shrink:
  assumes "cas_ok g s" "cas_ok g' t" "swept s t"
  shows "length (scont (cs_sh t) MULTIPART_PARTS_TREE) \<le> length (scont (cs_sh s) MULTIPART_PARTS_TREE)"
proof -
  have len: "length m = card (dom (map_of m))" if "omap_ok m" for m :: "(bytes, bytes) omap"
    using that distinct_card [of "map fst m"] by (simp add: omap_ok_def strict_sorted_iff dom_map_of_conv_image_fst)
  have ok: "omap_ok (scont (cs_sh s) MULTIPART_PARTS_TREE)" "omap_ok (scont (cs_sh t) MULTIPART_PARTS_TREE)"
    using sh.inv_cont [OF cas_okD(4) [OF assms(1)]] sh.inv_cont [OF cas_okD(4) [OF assms(2)]] by (simp_all add: cont_ok_def)
  have "dom (parts_in t) \<subseteq> dom (parts_in s)"
    using assms(3) unfolding swept_def parts_swept_def dom_def by (metis (mono_tags, lifting) Collect_mono)
  then show ?thesis unfolding len [OF ok(1)] len [OF ok(2)] by (intro card_mono finite_dom_map_of)
qed

lemma filter_short: "length xs < n \<Longrightarrow> length (filter P xs) < n"
  by (rule le_less_trans [OF length_filter_le])

lemma abort_upload_ends:
  assumes ok: "cas_ok g s" and st: "steady (en_sh E)" and fuel: "length (scont (cs_sh s) MULTIPART_PARTS_TREE) < fuel"
  shows "wp (abort_upload fuel E b k u) (\<lambda>r s'. r \<noteq> None) (\<lambda>e s'. True) s"
  unfolding abort_upload_def Let_def wp_bindM
proof (rule wp_mono [OF on_claim_upload [OF ok]], goal_cases)
  case (1 r t)
  then have t: "cas_ok g t" "scont (cs_sh t) MULTIPART_PARTS_TREE = scont (cs_sh s) MULTIPART_PARTS_TREE"
    by (auto split: if_splits)
  show ?case
  proof (cases r)
    case (Some rec)
    show ?thesis unfolding Some option.case wp_bindM wp_on_sh
    proof (rule wp_mono [OF wp_conj [OF sh.readable_parts_ends sh.readable_parts_spec]], goal_cases)
      case (5 ps v)
      then have v: "cas_ok g (t\<lparr>cs_sh := v\<rparr>)" using sh_same [OF t(1)] cas_okD(5) [OF t(1)] by auto
      from 5 obtain parts where ps: "ps = Some parts" by auto
      show ?case unfolding ps option.case wp_bindM wp_ret_fun
        by (rule wp_mono [OF reap_parts_spec [OF v]]) auto
    qed (use cas_okD(4) [OF t(1)] st fuel t(2) in \<open>auto intro: filter_short\<close>)
  qed simp
qed simp

lemma abort_aged_ends:
  assumes "cas_ok g s" "steady (en_sh E)" "length (scont (cs_sh s) MULTIPART_PARTS_TREE) < fuel"
  shows "wp (abort_aged fuel E cutoff recs st) (\<lambda>r s'. r \<noteq> None) (\<lambda>e s'. False) s"
  using assms(1,3)
proof (induction recs arbitrary: s st)
  case (Cons rec recs)
  show ?case
  proof (cases "sint (up_created_at rec) \<ge> sint cutoff")
    case False
    show ?thesis unfolding abort_aged.simps if_not_P [OF False] wp_bindM wp_tryM
    proof (rule wp_mono [OF wp_conj [OF abort_upload_ends [OF Cons.prems(1) assms(2) Cons.prems(2)] abort_upload_spec [OF Cons.prems(1)]]],
        goal_cases)
      case (1 r t)
      then have t: "cas_ok g t" "swept s t" and r: "r \<noteq> None" by auto
      have "wp (abort_aged fuel E cutoff recs st') (\<lambda>r s'. r \<noteq> None) (\<lambda>e s'. False) t" for st'
        by (rule Cons.IH [OF t(1)]) (use parts_shrink [OF Cons.prems(1) t] Cons.prems(2) in simp)
      then show ?case using r by (auto split: option.splits)
    next
      case (2 e t)
      then have t: "cas_ok g t" "swept s t" by auto
      show ?case unfolding sum.case
        by (rule Cons.IH [OF t(1)]) (use parts_shrink [OF Cons.prems(1) t] Cons.prems(2) in simp)
    qed
  qed (use Cons in simp)
qed simp

lemma sweep_stale_uploads_ends:
  assumes ok: "cas_ok g s" and st: "steady (en_sh E)"
    and fuel: "length (scont (cs_sh s) MULTIPART_PARTS_TREE) < fuel" "length (scont (cs_sh s) UPLOADS_TREE) < fuel"
  shows "wp (sweep_stale_uploads fuel E now ttl) (\<lambda>r s'. r \<noteq> None) (\<lambda>e s'. False) s"
proof -
  have first: "wp (sweep_aged_uploads fuel E cutoff st0) (\<lambda>r s'. r \<noteq> None) (\<lambda>e s'. False) s" for cutoff st0
    unfolding sweep_aged_uploads_def wp_bindM wp_tryM
  proof (rule wp_mono [OF on_list_uploads [OF ok]], goal_cases)
    case (1 r t)
    then show ?case using abort_aged_ends [of g t fuel cutoff] st fuel by (auto split: option.splits)
  qed simp
  have second: "wp (sweep_orphan_parts fuel E st0) (\<lambda>r s'. r \<noteq> None) (\<lambda>e s'. False) t"
    if t: "cas_ok g t" "swept s t" for t st0
  proof -
    have len: "length (scont (cs_sh t) MULTIPART_PARTS_TREE) < fuel" using parts_shrink [OF ok t] fuel(1) by simp
    show ?thesis unfolding sweep_orphan_parts_def wp_bindM wp_tryM wp_on_sh
    proof (rule sh.wp_tree_open [OF cas_okD(4) [OF t(1)]], goal_cases)
      case (1 v)
      then have v: "sinv v" "\<not> stx v" "scont v = scont (cs_sh t)" using cas_okD(5) [OF t(1)] by auto
      show ?case unfolding sum.case wp_bindM wp_on_sh
      proof (rule wp_mono [OF wp_conj [OF sh.find_orphans_ends sh.find_orphans_spec]], goal_cases)
        case (5 found w)
        then have "cas_ok g (t\<lparr>cs_sh := v\<rparr>\<lparr>cs_sh := w\<rparr>)" using sh_same [OF t(1), of w] v by auto
        note reap = reap_orphans_spec [OF this]
        from 5 obtain os st1 where f: "found = Some (os, st1)" by auto
        show ?case unfolding f option.case prod.case wp_bindM wp_ret_fun by (rule wp_mono [OF reap]) simp_all
      qed (use v st len in \<open>auto intro: filter_short\<close>)
    qed simp
  qed
  show ?thesis unfolding sweep_stale_uploads_def wp_bindM
  proof (rule wp_mono [OF wp_conj [OF first sweep_aged_uploads_spec [OF ok]]], goal_cases)
    case (1 r t)
    then show ?case using second [of t] by (auto split: option.splits)
  qed simp
qed

end

subsection \<open>Properties\<close>

abbreviation shared_content :: "'b fjall_view \<Rightarrow> ('a fjall_store, 'b fjall_store, disk) cas \<Rightarrow> content" where
  "shared_content W s \<equiv> fjall_cont W (cs_sh s)"

definition upload_at :: "content \<Rightarrow> bytes \<Rightarrow> upload_record option" where
  "upload_at c key = (case map_of (c UPLOADS_TREE) key of
     None \<Rightarrow> None
   | Some raw \<Rightarrow> (case upload_record_try_from raw of Inr rec \<Rightarrow> Some rec | Inl _ \<Rightarrow> None))"

text \<open>The key of an upload record that was made before the cutoff.\<close>

definition expired :: "content \<Rightarrow> i64 \<Rightarrow> bytes \<Rightarrow> bool" where
  "expired c cutoff key \<longleftrightarrow> (\<exists>k rec. upload_at c k = Some rec \<and> aged cutoff rec \<and> key = record_key rec)"

lemma upload_at_iff: "upload_at c k = Some rec \<longleftrightarrow> (\<exists>raw. map_of (c UPLOADS_TREE) k = Some raw \<and> upload_record_try_from raw = Inr rec)"
  by (auto simp: upload_at_def split: option.splits sum.splits)

text \<open>A range read that reports no error makes the iterators steady.\<close>

definition range_steady :: "'d fjall \<Rightarrow> bool" where
  "range_steady F \<longleftrightarrow> (\<forall>n lo hi d g. g \<in> set (fst (fj_range F n lo hi d)) \<longrightarrow> \<not> isl g)"

lemma range_steady: "range_steady F \<Longrightarrow> steady (fjall_store_ops F mode)"
proof -
  assume F: "range_steady F"
  have "case fst (fst (fjall_iter_next F n cur s)) of Some (Inl e) \<Rightarrow> False | _ \<Rightarrow> True" for n cur s
  proof -
    let ?lo = "Some (case cur of Some k \<Rightarrow> k @ [0] | None \<Rightarrow> [])"
    obtain gs d where gs: "fj_range F n ?lo None (fst_db s) = (gs, d)" by (metis surj_pair)
    then have "\<not> isl g" if "g \<in> set gs" for g using F that unfolding range_steady_def by (metis fst_conv)
    with gs show ?thesis
      by (cases gs) (auto simp: fjall_iter_next_def on_db_def advance_def Let_def isl_def split: sum.splits prod.splits)
  qed
  then show ?thesis by (simp add: steady_def fjall_store_ops_def)
qed

lemma sweep_run:
  assumes "store_ok F V G W P g s" "sweep_stale_uploads fuel (fjall_env F nm G sm P) now ttl s = (r, s')"
  shows "store_ok F V G W P g s' \<and> objects V s' = objects V s \<and> parts_swept (shared_content W s) (shared_content W s') \<and>
    (\<forall>key. map_of (shared_content W s' UPLOADS_TREE) key = map_of (shared_content W s UPLOADS_TREE) key \<or>
       expired (shared_content W s) (sweep_cutoff now ttl) key) \<and>
    (\<forall>st. r = Inr (Some st) \<longrightarrow> sweep_errors st = 0 \<longrightarrow>
       (\<forall>key. expired (shared_content W s) (sweep_cutoff now ttl) key \<longrightarrow> map_of (shared_content W s' UPLOADS_TREE) key = None) \<and>
       (\<forall>key. map_of (shared_content W s' MULTIPART_PARTS_TREE) key \<noteq> None \<longrightarrow> tended (shared_content W s') key))"
proof -
  have post: "case r of
      Inr x \<Rightarrow> fc.cas_ok F nm G sm P V W g s' \<and> fc.swept W s s' \<and>
       (\<forall>key. fc.uploads_of W s' key = fc.uploads_of W s key \<or> (\<exists>k raw rec. fc.uploads_of W s k = Some raw \<and>
          upload_record_try_from raw = Inr rec \<and> aged (sweep_cutoff now ttl) rec \<and> key = record_key rec)) \<and>
       (\<forall>st. x = Some st \<longrightarrow> sweep_errors st = 0 \<longrightarrow>
         (\<forall>k raw rec. fc.uploads_of W s k = Some raw \<longrightarrow> upload_record_try_from raw = Inr rec \<longrightarrow> aged (sweep_cutoff now ttl) rec \<longrightarrow>
            fc.uploads_of W s' (record_key rec) = None) \<and>
         (\<forall>key. fc.parts_in W s' key \<noteq> None \<longrightarrow> tended (fjall_cont W (cs_sh s')) key))
    | Inl e \<Rightarrow> fc.cas_ok F nm G sm P V W g s' \<and> fc.swept W s s' \<and>
       (\<forall>key. fc.uploads_of W s' key = fc.uploads_of W s key \<or> (\<exists>k raw rec. fc.uploads_of W s k = Some raw \<and>
          upload_record_try_from raw = Inr rec \<and> aged (sweep_cutoff now ttl) rec \<and> key = record_key rec))"
    by (rule wp_run [OF fc.sweep_stale_uploads_spec [OF _ refl] assms(2)]) (simp add: assms(1))
  then have "store_ok F V G W P g s'" "fc.swept W s s'"
    "\<forall>key. map_of (shared_content W s' UPLOADS_TREE) key = map_of (shared_content W s UPLOADS_TREE) key \<or>
       expired (shared_content W s) (sweep_cutoff now ttl) key"
    unfolding expired_def upload_at_iff by (auto split: sum.splits)
  moreover have "objects V s' = objects V s" "parts_swept (shared_content W s) (shared_content W s')"
    using \<open>fc.swept W s s'\<close> objects_same [of V s' s] by (simp_all add: fc.swept_def)
  ultimately show ?thesis using post unfolding expired_def upload_at_iff by auto
qed

text \<open>C19: A sweep, whatever fails on the way, keeps every object and loses no block in use. It removes the record of an
  upload only if the upload was made before the cutoff, and a part record only if its upload, by the record's
  key or by the upload it names, is gone when the sweep is over: the parts of a live upload stay.\<close>
theorem sweep_safe:
  assumes "store_ok F V G W P g s" "sweep_stale_uploads fuel (fjall_env F nm G sm P) now ttl s = (r, s')"
  shows "store_ok F V G W P g s' \<and> objects V s' = objects V s \<and> parts_swept (shared_content W s) (shared_content W s') \<and>
    (\<forall>key. map_of (shared_content W s' UPLOADS_TREE) key = map_of (shared_content W s UPLOADS_TREE) key \<or>
       expired (shared_content W s) (sweep_cutoff now ttl) key)"
  using sweep_run [OF assms] by simp

text \<open>C20: A sweep that counted no error leaves no upload made before the cutoff and no orphan: every part record that
  is left decodes and its upload is there.\<close>
theorem sweep_clean:
  assumes "store_ok F V G W P g s" "sweep_stale_uploads fuel (fjall_env F nm G sm P) now ttl s = (Inr (Some st), s')"
    "sweep_errors st = 0"
  shows "(\<forall>key. expired (shared_content W s) (sweep_cutoff now ttl) key \<longrightarrow> map_of (shared_content W s' UPLOADS_TREE) key = None) \<and>
    (\<forall>key. map_of (shared_content W s' MULTIPART_PARTS_TREE) key \<noteq> None \<longrightarrow> tended (shared_content W s') key)"
  using sweep_run [OF assms(1,2)] assms(3) by simp

text \<open>C21: A sweep ends if the database reports no error on a range read: one item per record of the two trees is
  enough. (An error that stays makes the walk over the part tree ask for the same item for ever.)\<close>
theorem sweep_ends:
  assumes "store_ok F V G W P g s" "range_steady G"
    "length (shared_content W s MULTIPART_PARTS_TREE) < fuel" "length (shared_content W s UPLOADS_TREE) < fuel"
  shows "\<exists>st. fst (sweep_stale_uploads fuel (fjall_env F nm G sm P) now ttl s) = Inr (Some st)"
proof -
  have "wp (sweep_stale_uploads fuel (fjall_env F nm G sm P) now ttl) (\<lambda>r s'. r \<noteq> None) (\<lambda>e s'. False) s"
    by (rule fc.sweep_stale_uploads_ends [where V = V and W = W and g = g])
      (use assms range_steady [OF assms(2)] in simp_all)
  then show ?thesis by (auto simp: wp_def split: prod.splits sum.splits)
qed

subsection \<open>A sweep to run\<close>

text \<open>An upload from second 1, and an empty part of an upload that was never made.\<close>

definition toy_litter :: "(mem_db fjall_store, mem_db fjall_store, disk, unit) cas_act" where
  "toy_litter =
    bindM (on_sh (create_upload (en_sh toy_env) 1 ''b'' ''k'' ''u'')) (\<lambda>_.
      on_sh (insert_multipart_part (en_sh toy_env) ''b'' ''k'' 0 1 ''v'' (toy_md5 []) []))"

abbreviation toy_littered :: "(mem_db fjall_store, mem_db fjall_store, disk) cas" where
  "toy_littered \<equiv> snd (toy_litter toy_state)"

abbreviation toy_sweep :: "(mem_db fjall_store, mem_db fjall_store, disk, sweep_stats option) cas_act" where
  "toy_sweep \<equiv> sweep_stale_uploads 5 toy_env 100 10"

lemma toy_litter_runs: "fst (toy_litter toy_state) = Inr ()"
  by code_simp

lemma toy_sweep_runs:
  "fst (toy_sweep toy_littered) = Inr (Some \<lparr>uploads_reaped = 1, orphan_parts_reaped = 1, sweep_errors = 0\<rparr>)"
  by code_simp

lemma toy_litter_ok:
  "toy_ok toy_ghost toy_littered"
  "shared_content mem_view toy_littered = cont_ins MULTIPART_PARTS_TREE (part_key ''b'' ''k'' ''v'' 1)
     (multipart_to_vec (multipart_new 0 1 ''b'' ''k'' ''v'' (toy_md5 []) []))
     (cont_ins UPLOADS_TREE (upload_key ''b'' ''k'' ''u'') (upload_record_to_vec (upload_record_new 1 ''b'' ''k'' ''u'')) (\<lambda>_. []))"
proof -
  let ?mp = "multipart_new 0 1 ''b'' ''k'' ''v'' (toy_md5 []) []"
  have mp: "multipart_try_from (multipart_to_vec ?mp) = Inr ?mp" by code_simp
  have c: "shared_content mem_view toy_state = (\<lambda>_. [])"
    by (simp add: fjall_cont_def mem_view_def mem_empty_def toy_state_def)
  have up: "wp (on_sh (create_upload (en_sh toy_env) 1 ''b'' ''k'' ''u'')) (\<lambda>_ t. toy_ok toy_ghost t \<and>
      shared_content mem_view t = cont_ins UPLOADS_TREE (upload_key ''b'' ''k'' ''u'') (upload_record_to_vec (upload_record_new 1 ''b'' ''k'' ''u'')) (\<lambda>_. []))
      (\<lambda>_ _. True) toy_state"
    by (rule wp_mono [OF fc.create_upload_spec [where V = mem_view and W = mem_view and g = toy_ghost]]) (use toy_state_ok c in auto)
  have put: "wp (on_sh (insert_multipart_part (en_sh toy_env) ''b'' ''k'' 0 1 ''v'' (toy_md5 []) []))
      (\<lambda>_ t'. toy_ok toy_ghost t' \<and> shared_content mem_view t' =
        cont_ins MULTIPART_PARTS_TREE (part_key ''b'' ''k'' ''v'' 1) (multipart_to_vec ?mp) (shared_content mem_view t)) (\<lambda>_ _. True) t"
    if "toy_ok toy_ghost t" for t
    by (rule wp_mono [OF fc.insert_multipart_part_spec [where V = mem_view and W = mem_view and g = toy_ghost and L = "gh_refs toy_ghost", OF _ refl mp]])
      (use that in auto)
  have "wp toy_litter (\<lambda>_ t. toy_ok toy_ghost t \<and> shared_content mem_view t =
      cont_ins MULTIPART_PARTS_TREE (part_key ''b'' ''k'' ''v'' 1) (multipart_to_vec ?mp)
        (cont_ins UPLOADS_TREE (upload_key ''b'' ''k'' ''u'') (upload_record_to_vec (upload_record_new 1 ''b'' ''k'' ''u'')) (\<lambda>_. [])))
      (\<lambda>_ _. True) toy_state"
    unfolding toy_litter_def by (rule wp_seq [OF up], rule wp_mono [OF put]) auto
  from wp_run [OF this, of "Inr ()" toy_littered] toy_litter_runs
  show "toy_ok toy_ghost toy_littered" "shared_content mem_view toy_littered = cont_ins MULTIPART_PARTS_TREE (part_key ''b'' ''k'' ''v'' 1)
     (multipart_to_vec ?mp)
     (cont_ins UPLOADS_TREE (upload_key ''b'' ''k'' ''u'') (upload_record_to_vec (upload_record_new 1 ''b'' ''k'' ''u'')) (\<lambda>_. []))"
    by (simp_all add: prod_eq_iff)
qed

theorem sweep_safe_witness:
  "toy_ok toy_ghost (snd (toy_sweep toy_littered)) \<and> objects mem_view (snd (toy_sweep toy_littered)) = objects mem_view toy_littered"
  using sweep_safe [OF toy_litter_ok(1), of 5 PersistSyncAll PersistSyncAll 100 10 "fst (toy_sweep toy_littered)" "snd (toy_sweep toy_littered)"] by simp

theorem sweep_clean_witness:
  "map_of (shared_content mem_view (snd (toy_sweep toy_littered)) UPLOADS_TREE) (upload_key ''b'' ''k'' ''u'') = None"
proof -
  let ?r = "upload_record_new 1 ''b'' ''k'' ''u''"
  have "toy_sweep toy_littered = (Inr (Some \<lparr>uploads_reaped = 1, orphan_parts_reaped = 1, sweep_errors = 0\<rparr>), snd (toy_sweep toy_littered))"
    using toy_sweep_runs by (simp add: prod_eq_iff)
  note clean = sweep_clean [OF toy_litter_ok(1) this]
  have "upload_record_try_from (upload_record_to_vec ?r) = Inr ?r" by code_simp
  then have "upload_at (shared_content mem_view toy_littered) (upload_key ''b'' ''k'' ''u'') = Some ?r"
    by (simp add: toy_litter_ok(2) upload_at_def)
  moreover have "aged (sweep_cutoff 100 10) ?r" by code_simp
  ultimately have "expired (shared_content mem_view toy_littered) (sweep_cutoff 100 10) (upload_key ''b'' ''k'' ''u'')"
    unfolding expired_def by (intro exI [of _ "upload_key ''b'' ''k'' ''u''"] exI [of _ ?r])
      (simp add: upload_record_new_def upload_record_with_created_at_def)
  with clean show ?thesis by simp
qed

theorem sweep_ends_witness: "\<exists>st. fst (toy_sweep toy_littered) = Inr (Some st)"
proof (rule sweep_ends [OF toy_litter_ok(1)])
  show "range_steady mem_fjall" by (auto simp: range_steady_def mem_fjall_def)
qed (simp_all add: toy_litter_ok(2) cont_ins_def)

end
