(* ===== verification/S3Objects.thy ===== *)
theory S3Objects
  imports Gc
begin

section \<open>The S3 front end: buckets and objects\<close>

text \<open>
  \<open>s3cas/api.rs\<close>, \<open>api/buckets.rs\<close> and \<open>api/objects.rs\<close>. A handler is a function of the fields of its request to the
  fields of its answer. The framework \<open>s3s\<close> is not part of the program: how it resolves a range is the argument
  \<open>check\<close>, base64 is the argument \<open>b64\<close>. Log lines and metrics are left out, and so is the \<open>debug_assert!\<close> of a GET.
  The body of a GET is what a client gets that reads it to the end.
\<close>

subsection \<open>Errors\<close>

datatype s3_code =
    NoSuchBucket | NoSuchKey | NoSuchUpload | BucketAlreadyExists
  | InvalidPart | InvalidRequest | InvalidArgument | InvalidRange | InvalidDigest | InvalidStorageClass | InvalidToken
  | BadDigest | IncompleteBody | MissingContentLength | InternalError | ServiceUnavailable | NotImplemented

datatype s3_fail = S3Error s3_code | S3Panic string

type_synonym ('n, 's, 'd, 'a) s3_act = "(('n, 's, 'd) cas, s3_fail, 'a) act"

definition s3_error :: "s3_code \<Rightarrow> ('n, 's, 'd, 'a) s3_act" where
  "s3_error c = raise (S3Error c)"

definition fail_as :: "s3_code \<Rightarrow> cas_error \<Rightarrow> s3_fail" where
  "fail_as c e = (case e of CPanic m \<Rightarrow> S3Panic m | _ \<Rightarrow> S3Error c)"

text \<open>The macro \<open>try_!\<close>.\<close>

definition s3_try :: "('n, 's, 'd, 'a) cas_act \<Rightarrow> ('n, 's, 'd, 'a) s3_act" where
  "s3_try m = mapE (fail_as InternalError) m"

lemma wp_s3_try [simp]: "wp (s3_try m) Q R s = wp m Q (\<lambda>e. R (fail_as InternalError e)) s"
  by (simp add: s3_try_def)

lemma wp_s3_error [simp]: "wp (s3_error c) Q R s = R (S3Error c) s"
  by (simp add: s3_error_def)

lemma fail_as_simps [simp]: "fail_as c (CMeta m) = S3Error c" "fail_as c (CIo i) = S3Error c"
  by (simp_all add: fail_as_def)

subsection \<open>Request fields\<close>

definition parse_content_md5 :: "(string \<Rightarrow> bytes option) \<Rightarrow> string \<Rightarrow> s3_fail + bytes" where
  "parse_content_md5 b64 header = (case b64 header of
     None \<Rightarrow> Inl (S3Error InvalidDigest)
   | Some bs \<Rightarrow> if length bs = 16 then Inr bs else Inl (S3Error InvalidDigest))"

definition optional_md5 :: "(string \<Rightarrow> bytes option) \<Rightarrow> string option \<Rightarrow> s3_fail + bytes option" where
  "optional_md5 b64 header = (case header of
     None \<Rightarrow> Inr None
   | Some h \<Rightarrow> (case parse_content_md5 b64 h of Inl e \<Rightarrow> Inl e | Inr bs \<Rightarrow> Inr (Some bs)))"

text \<open>\<open>str::parse::<i64>\<close>.\<close>

fun digits_value :: "string \<Rightarrow> int \<Rightarrow> int option" where
  "digits_value [] acc = Some acc"
| "digits_value (c # cs) acc =
    (let n = of_char c :: int in if 48 \<le> n \<and> n \<le> 57 then digits_value cs (10 * acc + (n - 48)) else None)"

definition parse_i64 :: "string \<Rightarrow> i64 option" where
  "parse_i64 s =
    (let (neg, ds) = (case s of [] \<Rightarrow> (False, []) | c # cs \<Rightarrow> if c = CHR ''-'' then (True, cs) else if c = CHR ''+'' then (False, cs) else (False, s)) in
     if ds = [] then None
     else case digits_value ds 0 of
       None \<Rightarrow> None
     | Some n \<Rightarrow> let v = (if neg then - n else n) in if - (2 ^ 63) \<le> v \<and> v < 2 ^ 63 then Some (word_of_int v) else None)"

text \<open>\<open>header\<close> is the value of \<open>x-amz-decoded-content-length\<close> as text, if it is there and is text.\<close>

definition decoded_content_length :: "string option \<Rightarrow> i64 option" where
  "decoded_content_length header = (case header of None \<Rightarrow> None | Some h \<Rightarrow> parse_i64 h)"

definition option_or :: "'a option \<Rightarrow> 'a option \<Rightarrow> 'a option" where
  "option_or a b = (case a of None \<Rightarrow> b | Some _ \<Rightarrow> a)"

definition usize_try_from :: "i64 \<Rightarrow> nat option" where
  "usize_try_from n = (if sint n < 0 then None else Some (nat (sint n)))"

definition format_e_tag :: "(bytes \<Rightarrow> string) \<Rightarrow> object \<Rightarrow> string" where
  "format_e_tag hex ob = (case obj_data ob of
     MultiPart blocks parts \<Rightarrow> hex (obj_hash ob) @ ''-'' @ show_nat (unat parts)
   | _ \<Rightarrow> hex (obj_hash ob))"

definition fmt_content_range :: "u64 \<Rightarrow> u64 \<Rightarrow> u64 \<Rightarrow> string" where
  "fmt_content_range start end_inclusive sz =
    ''bytes '' @ show_nat (unat start) @ ''-'' @ show_nat (unat end_inclusive) @ ''/'' @ show_nat (unat sz)"

subsection \<open>Buckets\<close>

definition create_bucket :: "'n store_ops \<Rightarrow> i64 \<Rightarrow> string \<Rightarrow> ('n, meta_error, unit) act" where
  "create_bucket S now bucket_name = insert_bucket S bucket_name (bucket_meta_to_vec (bucket_meta_new now bucket_name))"

definition key_exists :: "'n store_ops \<Rightarrow> string \<Rightarrow> bytes \<Rightarrow> ('n, meta_error, bool) act" where
  "key_exists S bucket key = bindM (st_tree_open S bucket) (\<lambda>_. tr_contains_key S bucket key)"

definition require_bucket :: "('n, 's, 'd) env \<Rightarrow> string \<Rightarrow> ('n, 's, 'd, unit) s3_act" where
  "require_bucket E bucket =
    bindM (s3_try (on_ns (bucket_exists (en_ns E) bucket))) (\<lambda>ex. if ex then ret () else s3_error NoSuchBucket)"

definition create_bucket_op :: "('n, 's, 'd) env \<Rightarrow> i64 \<Rightarrow> string \<Rightarrow> ('n, 's, 'd, string) s3_act" where
  "create_bucket_op E now bucket =
    bindM (s3_try (on_ns (bucket_exists (en_ns E) bucket))) (\<lambda>ex.
      if ex then s3_error BucketAlreadyExists
      else bindM (s3_try (on_ns (create_bucket (en_ns E) now bucket))) (\<lambda>_. ret (''/'' @ bucket)))"

definition delete_bucket_op :: "nat \<Rightarrow> ('n, 's, 'd) env \<Rightarrow> string \<Rightarrow> ('n, 's, 'd, bool) s3_act" where
  "delete_bucket_op fuel E bucket = s3_try (bucket_delete fuel E bucket)"

definition get_bucket_location_op :: "('n, 's, 'd) env \<Rightarrow> string \<Rightarrow> ('n, 's, 'd, unit) s3_act" where
  "get_bucket_location_op E bucket = require_bucket E bucket"

definition head_bucket_op :: "('n, 's, 'd) env \<Rightarrow> string \<Rightarrow> ('n, 's, 'd, unit) s3_act" where
  "head_bucket_op E bucket = require_bucket E bucket"

definition list_buckets_op :: "nat \<Rightarrow> ('n, 's, 'd) env \<Rightarrow> ('n, 's, 'd, (string \<times> u64) list option) s3_act" where
  "list_buckets_op fuel E =
    bindM (s3_try (on_ns (list_buckets fuel (en_ns E)))) (\<lambda>bs. ret (map_option (map (\<lambda>b. (bm_name b, bm_ctime b))) bs))"

subsection \<open>Objects\<close>

record get_output =
  go_body :: "stream_error + bytes"
  go_content_length :: u64
  go_content_range :: "string option"
  go_last_modified :: u64
  go_e_tag :: string

text \<open>\<open>files\<close> and \<open>io\<close> are what reading the block files finds, as for \<open>retrieve\<close>; \<open>verify\<close> is the store's
  \<open>verify_on_read\<close>. Slicing the bytes of an inlined object panics when the range does not lie in them.\<close>

definition get_object_op ::
  "('n, 's, 'd) env \<Rightarrow> ('d \<Rightarrow> path \<Rightarrow> bytes option) \<Rightarrow> read_io \<Rightarrow> bool \<Rightarrow> ('r \<Rightarrow> u64 \<Rightarrow> (u64 \<times> u64) option) \<Rightarrow>
   string \<Rightarrow> string \<Rightarrow> 'r option \<Rightarrow> ('n, 's, 'd, get_output) s3_act" where
  "get_object_op E files io verify check bucket key rng =
    bindM (require_bucket E bucket) (\<lambda>_.
    bindM (mapE (fail_as ServiceUnavailable) (get_object_paths E bucket (as_bytes key))) (\<lambda>r. case r of
      None \<Rightarrow> s3_error NoSuchKey
    | Some (obj_meta, paths) \<Rightarrow>
        let e_tag = format_e_tag (hex_of E) obj_meta in
        (case inlined obj_meta of
          Some data \<Rightarrow>
            let full_size = of_nat (length data) in
            (case rng of
              None \<Rightarrow> ret \<lparr>go_body = Inr data, go_content_length = of_nat (length data), go_content_range = None,
                go_last_modified = obj_ctime obj_meta, go_e_tag = e_tag\<rparr>
            | Some r \<Rightarrow> (case check r full_size of
                None \<Rightarrow> s3_error InvalidRange
              | Some (start, end) \<Rightarrow>
                  if unat start \<le> unat end \<and> unat end \<le> length data then
                    let bytes = take (unat end - unat start) (drop (unat start) data) in
                    ret \<lparr>go_body = Inr bytes, go_content_length = of_nat (length bytes),
                      go_content_range = Some (fmt_content_range start (end - 1) full_size),
                      go_last_modified = obj_ctime obj_meta, go_e_tag = e_tag\<rparr>
                  else raise (S3Panic ''range out of bounds'')))
        | None \<Rightarrow>
            let full_size = obj_size obj_meta in
            bindM (case rng of
                None \<Rightarrow> ret None
              | Some r \<Rightarrow> (case check r full_size of None \<Rightarrow> s3_error InvalidRange | Some ae \<Rightarrow> ret (Some ae))) (\<lambda>resolved.
              let (range_request, stream_size, content_range) = (case resolved of
                    Some (start, end) \<Rightarrow> (Range start (end - 1), end - start, Some (fmt_content_range start (end - 1) full_size))
                  | None \<Rightarrow> (All, full_size, None));
                  block_size = sum_list (map snd paths);
                  stream = block_stream_new paths block_size range_request;
                  stream = (if verify \<and> range_request = All then verified (block_hash (en_params E)) (object_blocks obj_meta) stream
                            else stream) in
              getsM (\<lambda>s. \<lparr>go_body = serve (files (bs_disk (cs_bs s))) io stream, go_content_length = stream_size,
                go_content_range = content_range, go_last_modified = obj_ctime obj_meta, go_e_tag = e_tag\<rparr>)))))"

record put_request =
  pr_storage_class :: "string option"
  pr_content_md5 :: "string option"
  pr_body :: "(io_error + bytes) list option"
  pr_content_length :: "i64 option"
  pr_decoded_length :: "string option"

definition expect_md5 :: "bytes option \<Rightarrow> bytes \<Rightarrow> bool" where
  "expect_md5 expected hash = (case expected of None \<Rightarrow> True | Some e \<Rightarrow> hash = e)"

definition put_object_op ::
  "('n, 's, 'd) env \<Rightarrow> (string \<Rightarrow> bytes option) \<Rightarrow> nat \<Rightarrow> i64 \<Rightarrow> string \<Rightarrow> string \<Rightarrow> put_request \<Rightarrow> ('n, 's, 'd, string) s3_act" where
  "put_object_op E b64 inline_size now bucket key req =
    (if case pr_storage_class req of None \<Rightarrow> False | Some c \<Rightarrow> c \<notin> {''STANDARD'', ''REDUCED_REDUNDANCY''} then s3_error InvalidStorageClass
     else
       bindM (liftE (optional_md5 b64 (pr_content_md5 req))) (\<lambda>expected_md5.
       case pr_body req of
         None \<Rightarrow> s3_error IncompleteBody
       | Some frames \<Rightarrow>
           bindM (require_bucket E bucket) (\<lambda>_.
           case option_or (pr_content_length req) (decoded_content_length (pr_decoded_length req)) of
             None \<Rightarrow> s3_error MissingContentLength
           | Some content_length \<Rightarrow> (case usize_try_from content_length of
               None \<Rightarrow> s3_error InvalidRequest
             | Some len \<Rightarrow>
                 if len \<le> max_inlined_data_length inline_size then
                   if \<exists>f \<in> set frames. isl f then s3_error InternalError
                   else let data = concat (map projr frames) in
                     if \<not> expect_md5 expected_md5 (cp_md5 (en_params E) data) then s3_error BadDigest
                     else bindM (s3_try (store_inlined_object E now bucket (as_bytes key) data)) (\<lambda>obj_meta.
                       ret (format_e_tag (hex_of E) obj_meta))
                 else
                   bindM (s3_try (store_single_object_and_meta E now bucket (as_bytes key) frames len)) (\<lambda>obj_meta.
                     if \<not> expect_md5 expected_md5 (obj_hash obj_meta) then
                       bindM (s3_try (delete_object E bucket (as_bytes key))) (\<lambda>_. s3_error BadDigest)
                     else ret (format_e_tag (hex_of E) obj_meta))))))"

record head_output =
  ho_content_length :: u64
  ho_last_modified :: u64
  ho_e_tag :: string

definition head_object_op :: "('n, 's, 'd) env \<Rightarrow> string \<Rightarrow> string \<Rightarrow> ('n, 's, 'd, head_output) s3_act" where
  "head_object_op E bucket key =
    bindM (require_bucket E bucket) (\<lambda>_.
    bindM (mapE (fail_as ServiceUnavailable) (get_object_meta E bucket (as_bytes key))) (\<lambda>r. case r of
      None \<Rightarrow> s3_error NoSuchKey
    | Some obj_meta \<Rightarrow> ret \<lparr>ho_content_length = obj_size obj_meta, ho_last_modified = obj_ctime obj_meta,
        ho_e_tag = format_e_tag (hex_of E) obj_meta\<rparr>))"

definition delete_object_op :: "('n, 's, 'd) env \<Rightarrow> string \<Rightarrow> string \<Rightarrow> ('n, 's, 'd, unit) s3_act" where
  "delete_object_op E bucket key =
    bindM (s3_try (on_ns (key_exists (en_ns E) bucket (as_bytes key)))) (\<lambda>ex.
      if \<not> ex then s3_error NoSuchKey
      else bindM (s3_try (delete_object E bucket (as_bytes key))) (\<lambda>_. ret ()))"

fun delete_each :: "('n, 's, 'd) env \<Rightarrow> string \<Rightarrow> string list \<Rightarrow> ('n, 's, 'd, string list) s3_act" where
  "delete_each E bucket [] = ret []"
| "delete_each E bucket (key # keys) =
    bindM (tryM (delete_object E bucket (as_bytes key))) (\<lambda>r.
    bindM (delete_each E bucket keys) (\<lambda>deleted. ret (case r of Inr _ \<Rightarrow> key # deleted | Inl _ \<Rightarrow> deleted)))"

definition delete_objects_op :: "('n, 's, 'd) env \<Rightarrow> string \<Rightarrow> string list \<Rightarrow> ('n, 's, 'd, string list) s3_act" where
  "delete_objects_op E bucket keys = bindM (require_bucket E bucket) (\<lambda>_. delete_each E bucket keys)"

definition copy_object_op :: "('n, 's, 'd, unit) s3_act" where
  "copy_object_op = s3_error NotImplemented"

subsection \<open>What the handlers do\<close>

text \<open>What \<open>s3s\<close> documents of resolving a range: a range it resolves is not empty and lies in the object.\<close>

definition range_check_ok :: "('r \<Rightarrow> u64 \<Rightarrow> (u64 \<times> u64) option) \<Rightarrow> bool" where
  "range_check_ok check \<longleftrightarrow> (\<forall>r n a e. check r n = Some (a, e) \<longrightarrow> a < e \<and> e \<le> n)"

lemma require_bucket_run:
  assumes "store_ok F V G W P g s"
  shows "wp (require_bucket (fjall_env F nm G sm P) b) (\<lambda>_ s'. s' = s \<and> b \<in> fjall_names V (cs_ns s))
    (\<lambda>e s'. e = S3Error NoSuchBucket \<and> s' = s \<and> b \<notin> fjall_names V (cs_ns s)) s"
  unfolding require_bucket_def bucket_exists_def wp_bindM wp_s3_try wp_on_ns fjall_env_simps
  by (rule fjs.wp_tree_exists [where V = V and K = "{}"]) (use assms in \<open>auto simp: store_ok_def\<close>)

text \<open>The bytes a resolved range selects.\<close>

definition byte_slice :: "bytes \<Rightarrow> (u64 \<times> u64) option \<Rightarrow> bytes" where
  "byte_slice data r = (case r of None \<Rightarrow> data | Some (a, e) \<Rightarrow> take (unat e - unat a) (drop (unat a) data))"

lemma serve_slice:
  assumes "files_match files ps" "length (contents files ps) < 2 ^ 63" "a < e" "unat e \<le> length (contents files ps)"
  shows "serve files io (block_stream_new ps (sum_list (map snd ps)) (Range a (e - 1))) = Inr (byte_slice (contents files ps) (Some (a, e))) \<or>
    (\<exists>er. io_fault io er \<and> serve files io (block_stream_new ps (sum_list (map snd ps)) (Range a (e - 1))) = Inl (IoFailed er))"
proof -
  have e: "unat (e - 1) + 1 = unat e" using assms(3) by (metis Suc_eq_plus1 Suc_pred' bot_nat_0.not_eq_extremum unat_0_iff unat_dec word_not_simps(1))
  have a: "unat a < unat e" using assms(3) by (simp add: word_less_nat_alt)
  have "bounds (block_stream_new ps (sum_list (map snd ps)) (Range a (e - 1))) = (unat a, unat e)"
    using e assms(2,4) by (simp add: bounds_def block_stream_new_def usize_max_eq)
  moreover have "ps \<noteq> []" using assms(4) a by (auto simp: contents_def)
  moreover have "unat a < 2 ^ 63" using a assms(2,4) by linarith
  ultimately have "plain_ok files (block_stream_new ps (sum_list (map snd ps)) (Range a (e - 1)))"
    using assms(1) by (auto simp: plain_ok_def block_stream_new_def)
  from serve_window [OF this, of io] show ?thesis
    using \<open>bounds _ = _\<close> length_contents [OF assms(1)] by (simp add: window_def unread_def block_stream_new_def byte_slice_def)
qed

text \<open>A block file with the bytes of its block.\<close>

definition file_has :: "(path \<Rightarrow> bytes option) \<Rightarrow> bytes \<Rightarrow> path \<times> nat \<Rightarrow> bool" where
  "file_has files c p \<longleftrightarrow> files (fst p) = Some c \<and> snd p = length c"

lemma file_has_all:
  assumes "list_all2 (file_has files) cs ps"
  shows "files_match files ps" "contents files ps = concat cs"
  using assms by (induction rule: list_all2_induct) (auto simp: files_match_def contents_def file_has_def)

lemma length_concat_member: "c \<in> set cs \<Longrightarrow> length c \<le> length (concat cs)"
  by (induction cs) auto

lemma checked_whole:
  assumes "list_all2 (file_has files) cs ps"
  shows "checked hash (blocks_from files (map hash cs) ps 0) = Inr (concat cs)"
proof -
  have "checked hash (map2 (\<lambda>c p. (hash c, fst p, c)) cs ps) = Inr (concat cs)"
    using assms by (induction rule: list_all2_induct) auto
  moreover have "blocks_from files (map hash cs) ps 0 = map2 (\<lambda>c p. (hash c, fst p, c)) cs ps"
    using assms by (intro nth_equalityI) (auto simp: blocks_from_def list_all2_conv_all_nth file_has_def)
  ultimately show ?thesis by simp
qed

lemma serve_verified:
  assumes "list_all2 (file_has files) cs ps" "[] \<notin> set cs"
  shows "serve files io (verified hash (map hash cs) (block_stream_new ps (sum_list (map snd ps)) All)) = Inr (concat cs) \<or>
    (\<exists>er. io_fault io er \<and>
      serve files io (verified hash (map hash cs) (block_stream_new ps (sum_list (map snd ps)) All)) = Inl (IoFailed er))"
proof -
  have len: "length cs = length ps" using assms(1) by (rule list_all2_lengthD)
  have "intact_sizes files hash (map hash cs) ps"
    unfolding intact_sizes_def
  proof (intro conjI allI impI)
    fix j assume j: "j < length ps"
    then have "file_has files (cs ! j) (ps ! j)" "cs ! j \<noteq> []"
      using assms len by (auto simp: list_all2_conv_all_nth in_set_conv_nth)
    then show "0 < snd (ps ! j)" "\<exists>bs. files (fst (ps ! j)) = Some bs \<and> (hash bs = map hash cs ! j \<longrightarrow> length bs = snd (ps ! j))"
      by (auto simp: file_has_def)
  qed (simp add: len)
  then have "verifying files hash (map hash cs) (verified hash (map hash cs) (block_stream_new ps (sum_list (map snd ps)) All))"
    by (simp add: verifying_def verified_def block_stream_new_def len)
  moreover have "to_check files (map hash cs) (verified hash (map hash cs) (block_stream_new ps (sum_list (map snd ps)) All)) =
      blocks_from files (map hash cs) ps 0"
    by (simp add: to_check_def verified_def block_stream_new_def len)
  ultimately show ?thesis
    using serve_checked [of files hash "map hash cs" "verified hash (map hash cs) (block_stream_new ps (sum_list (map snd ps)) All)" io]
      checked_whole [OF assms(1), of hash] by simp
qed

text \<open>An object record and the bytes it stands for, as a stored object has them.\<close>

definition object_whole :: "cas_params \<Rightarrow> block_id set \<Rightarrow> object \<Rightarrow> bytes \<Rightarrow> bool" where
  "object_whole P D ob data \<longleftrightarrow> obj_size ob = of_nat (length data) \<and> length data < 2 ^ 63 \<and> (case inlined ob of
     Some d \<Rightarrow> d = data
   | None \<Rightarrow> \<exists>cs. object_blocks ob = map (block_hash P) cs \<and> concat cs = data \<and>
       (\<forall>c \<in> set cs. c \<noteq> [] \<and> unique_hash P c \<and> block_hash P c \<notin> D))"

definition resolved :: "('r \<Rightarrow> u64 \<Rightarrow> (u64 \<times> u64) option) \<Rightarrow> 'r option \<Rightarrow> nat \<Rightarrow> (u64 \<times> u64) option" where
  "resolved check rng n = (case rng of None \<Rightarrow> None | Some r \<Rightarrow> check r (of_nat n))"

definition content_range :: "(u64 \<times> u64) option \<Rightarrow> nat \<Rightarrow> string option" where
  "content_range r n = (case r of None \<Rightarrow> None | Some (a, e) \<Rightarrow> Some (fmt_content_range a (e - 1) (of_nat n)))"

definition get_answer :: "cas_params \<Rightarrow> object \<Rightarrow> bytes \<Rightarrow> (u64 \<times> u64) option \<Rightarrow> get_output" where
  "get_answer P ob data r = \<lparr>go_body = Inr (byte_slice data r), go_content_length = of_nat (length (byte_slice data r)),
     go_content_range = content_range r (length data), go_last_modified = obj_ctime ob,
     go_e_tag = format_e_tag (cp_hex P) ob\<rparr>"

text \<open>An answer with the right bytes, or whose body ends in an error that the operating system answered.\<close>

definition get_served :: "cas_params \<Rightarrow> read_io \<Rightarrow> object \<Rightarrow> bytes \<Rightarrow> (u64 \<times> u64) option \<Rightarrow> get_output \<Rightarrow> bool" where
  "get_served P io ob data r out \<longleftrightarrow> out = get_answer P ob data r \<or>
     (\<exists>er. io_fault io er \<and> inlined ob = None \<and> out = (get_answer P ob data r)\<lparr>go_body := Inl (IoFailed er)\<rparr>)"

lemma slice_length:
  assumes "a < e" "e \<le> of_nat (length data)" "length data < 2 ^ 63"
  shows "unat e \<le> length data" "of_nat (length (byte_slice data (Some (a, e)))) = e - a" "unat a \<le> unat e"
proof -
  have n: "unat (of_nat (length data) :: u64) = length data" using assms(3) by (intro unat_of_nat_eq) simp
  show e: "unat e \<le> length data" using assms(2) n by (metis word_le_nat_alt)
  show a: "unat a \<le> unat e" using assms(1) by (simp add: word_less_nat_alt)
  have "length (byte_slice data (Some (a, e))) = unat e - unat a" using e by (simp add: byte_slice_def)
  moreover have "(of_nat (unat e - unat a) :: u64) = e - a" using a by (simp add: of_nat_diff)
  ultimately show "of_nat (length (byte_slice data (Some (a, e)))) = e - a" by simp
qed

lemma get_object_run:
  assumes ok: "store_ok F V G W P g s" and ob: "objects V s b (as_bytes key) = Some ob"
    and holds: "object_whole P (gh_degraded g) ob data" and check: "range_check_ok check"
  shows "wp (get_object_op (fjall_env F nm G sm P) disk_file io verify check b key rng)
    (\<lambda>out s'. store_ok F V G W P g s' \<and> (rng = None \<or> resolved check rng (length data) \<noteq> None) \<and>
       get_served P io ob data (resolved check rng (length data)) out)
    (\<lambda>e s'. store_ok F V G W P g s' \<and> (e = S3Error ServiceUnavailable \<and>
         (\<exists>m. get_object_paths (fjall_env F nm G sm P) b (as_bytes key) s = (Inl (CMeta m), s') \<and> db_fault F G m) \<or>
       e = S3Error InvalidRange \<and> rng \<noteq> None \<and> resolved check rng (length data) = None)) s"
    (is "wp _ ?Q ?R s")
proof -
  have b: "\<not> reserved_name b" and at: "object_at (fjall_cont V (cs_ns s)) b (as_bytes key) = Some ob"
    using ob by (simp_all add: objects_def split: if_splits)
  have "fjall_cont V (cs_ns s) b \<noteq> []" using object_atD [OF at] by auto
  then have mem: "b \<in> fjall_names V (cs_ns s)"
    using fjs.inv_names [of F V "{}" "cs_ns s" b] ok by (auto simp: store_ok_def)
  have bucket: "wp (require_bucket (fjall_env F nm G sm P) b) (\<lambda>_ t. t = s) ?R s"
    by (rule wp_mono [OF require_bucket_run [OF ok]]) (use mem in auto)
  have size: "obj_size ob = of_nat (length data)" "length data < 2 ^ 63" using holds by (simp_all add: object_whole_def)
  note get = wp_traced [OF fc.get_object_paths_spec [where g = g and V = V and W = W and k = "as_bytes key",
    unfolded cas_ok_store_ok fjall_env_simps, OF ok b]]
  show ?thesis unfolding get_object_op_def
  proof (rule wp_seq [OF bucket], unfold wp_bindM wp_mapE, elim ssubst, rule wp_mono [OF get], goal_cases)
    case (2 x t e s')
    then show ?case using at by (auto intro: lookup_faults)
  next
    case (1 x t r s')
    then obtain ps where r: "r = Some (ob, ps)" and ok': "store_ok F V G W P g s'"
      and ps: "list_all2 (block_file_of P (fjall_cont W (cs_sh s))) (object_blocks ob) ps" and bs: "cs_bs s' = cs_bs s"
      using at object_atD [OF at] by (auto simp: fc.reads_only_def split: option.splits)
    show ?case
    proof (cases "inlined ob")
      case (Some d)
      then have d: "d = data" using holds by (simp add: object_whole_def)
      show ?thesis
      proof (cases "resolved check rng (length data)")
        case None
        then show ?thesis using r Some d ok' by (cases rng) (auto simp: get_served_def get_answer_def resolved_def byte_slice_def content_range_def)
      next
        case res: (Some ae)
        obtain a e where ae: "ae = (a, e)" by (cases ae)
        obtain r' where rng: "rng = Some r'" "check r' (of_nat (length data)) = Some (a, e)"
          using res ae by (cases rng) (auto simp: resolved_def)
        then have "a < e" "e \<le> of_nat (length data)" using check by (auto simp: range_check_ok_def)
        from slice_length [OF this size(2)] show ?thesis using r Some d ok' rng
          by (simp add: get_served_def get_answer_def resolved_def byte_slice_def content_range_def)
      qed
    next
      case None
      with holds obtain cs where cs: "object_blocks ob = map (block_hash P) cs" "concat cs = data"
        "\<forall>c \<in> set cs. c \<noteq> [] \<and> unique_hash P c \<and> block_hash P c \<notin> gh_degraded g" by (auto simp: object_whole_def)
      let ?files = "disk_file (bs_disk (cs_bs s))"
      have inv: "cas_inv P g (fjall_cont V (cs_ns s)) (fjall_cont W (cs_sh s)) ?files (bs_nonce (cs_bs s))"
        using ok by (simp add: store_ok_def)
      have "list_all2 (\<lambda>c. block_file_of P (fjall_cont W (cs_sh s)) (block_hash P c)) cs ps"
        using ps unfolding cs(1) list_all2_map1 .
      then have "list_all2 (file_has ?files) cs ps"
      proof (rule list.rel_mono_strong)
        fix c p assume c: "c \<in> set cs" and p: "block_file_of P (fjall_cont W (cs_sh s)) (block_hash P c) p"
        have "length c < 2 ^ 64" using length_concat_member [OF c] size(2) unfolding cs(2) by simp
        then show "file_has ?files c p"
          using block_file_served [OF inv p] cs(3) c object_at_wf [OF at] cs(1) by (simp add: file_has_def)
      qed
      note has = file_has_all [OF this] and ver = serve_verified [OF this, of io "block_hash P"]
      have block: "sum_list (map snd ps) = length data" using has length_contents [OF has(1)] cs(2) by simp
      show ?thesis
      proof (cases rng)
        case nr: None
        have body: "serve ?files io (if verify then verified (block_hash P) (map (block_hash P) cs) (block_stream_new ps (sum_list (map snd ps)) All)
            else block_stream_new ps (sum_list (map snd ps)) All) = Inr data \<or>
          (\<exists>er. io_fault io er \<and> serve ?files io (if verify then verified (block_hash P) (map (block_hash P) cs) (block_stream_new ps (sum_list (map snd ps)) All)
            else block_stream_new ps (sum_list (map snd ps)) All) = Inl (IoFailed er))"
          using ver serve_whole [OF has(1) refl, of io] has(2) cs by auto
        show ?thesis using r None nr ok' body bs size cs(1)
          by (auto simp: Let_def get_served_def get_answer_def resolved_def byte_slice_def content_range_def)
      next
        case sr: (Some r')
        show ?thesis
        proof (cases "check r' (of_nat (length data))")
          case none: None
          then show ?thesis using r None sr ok' size(1) by (simp add: Let_def resolved_def)
        next
          case (Some ae)
          obtain a e where ae: "ae = (a, e)" by (cases ae)
          with Some have "a < e" "e \<le> of_nat (length data)" using check by (auto simp: range_check_ok_def)
          note sl = slice_length [OF this size(2)]
          have "serve ?files io (block_stream_new ps (sum_list (map snd ps)) (Range a (e - 1))) = Inr (byte_slice data (Some (a, e))) \<or>
            (\<exists>er. io_fault io er \<and> serve ?files io (block_stream_new ps (sum_list (map snd ps)) (Range a (e - 1))) = Inl (IoFailed er))"
            using serve_slice [OF has(1) _ \<open>a < e\<close>, of io] size(2) sl(1) has(2) cs(2) by simp
          then show ?thesis using r None sr Some ae ok' size(1) bs sl(2)
            by (auto simp: Let_def get_served_def get_answer_def resolved_def content_range_def)
        qed
      qed
    qed
  qed
qed

subsection \<open>Deleting a bucket\<close>

text \<open>A database where some records of one tree are gone; the usage tree and the bucket tree are the store's own.\<close>

definition thinned :: "string \<Rightarrow> content \<Rightarrow> content \<Rightarrow> bool" where
  "thinned b c c' \<longleftrightarrow> (\<forall>n. n \<notin> {b, DEFAULT_USAGE_TREE, DEFAULT_BUCKET_TREE} \<longrightarrow> c' n = c n) \<and>
     (\<forall>k. map_of (c' b) k = map_of (c b) k \<or> map_of (c' b) k = None)"

lemma thinned_refl: "thinned b c c"
  by (simp add: thinned_def)

lemma thinned_trans: "thinned b c c' \<Longrightarrow> thinned b c' c'' \<Longrightarrow> thinned b c c''"
  unfolding thinned_def by metis

lemma not_reserved_trees: "\<not> reserved_name b \<Longrightarrow> b \<noteq> DEFAULT_USAGE_TREE \<and> b \<noteq> DEFAULT_BUCKET_TREE"
  by (metis reserved_trees(1,2))

lemma thinned_del:
  assumes "\<forall>n. n \<noteq> DEFAULT_USAGE_TREE \<longrightarrow> c' n = cont_del b k c n" "\<not> reserved_name b" "cont_ok c"
  shows "thinned b c c'"
  using assms(1,3) not_reserved_trees [OF assms(2)] by (simp add: thinned_def)

lemma after_head:
  assumes "omap_ok m" "m = (k, v) # es"
  shows "omap_del k m = es" "filter (\<lambda>(k', v). k < k') es = es"
proof -
  show "omap_del k m = es" using assms by simp
  show "filter (\<lambda>(k', v). k < k') es = es" using assms by (auto simp: omap_ok_Cons filter_id_conv)
qed

context cas_contract
begin

lemma delete_all_spec:
  assumes "cas_ok g s" "\<not> reserved_name b" "ns.after cur (ncont (cs_ns s) b) = ncont (cs_ns s) b"
    "length (ncont (cs_ns s) b) < fuel"
  shows "wp (delete_all fuel E b cur)
    (\<lambda>r s'. r \<and> cas_ok g s' \<and> thinned b (ncont (cs_ns s)) (ncont (cs_ns s')) \<and> ncont (cs_ns s') b = [])
    (\<lambda>e s'. cas_ok g s' \<and> (\<exists>m. e = CMeta m) \<and> thinned b (ncont (cs_ns s)) (ncont (cs_ns s'))) s"
  using assms(1,3,4)
proof (induction fuel arbitrary: cur s)
  case (Suc fuel)
  note D = cas_okD [OF Suc.prems(1)]
  have cok: "cont_ok (ncont (cs_ns s))" by (rule ns.inv_cont [OF D(2)])
  show ?case unfolding delete_all.simps wp_bindM wp_on_ns
  proof (rule ns.wp_iter_next [OF D(2)], goal_cases)
    case (1 t cur')
    then show ?case using ns_step [OF Suc.prems(1), of t] D(3) Suc.prems(2) by (auto simp: thinned_def)
  next
    case (2 t e)
    then show ?case using ns_step [OF Suc.prems(1), of t] D(3) by (auto simp: thinned_def)
  next
    case (3 t k v es)
    then have t: "cas_ok g (s\<lparr>cs_ns := t\<rparr>)" "ncont t = ncont (cs_ns s)" using ns_step [OF Suc.prems(1), of t] D(3) by auto
    have hd: "ncont (cs_ns s) b = (k, v) # es" using 3 Suc.prems(2) by simp
    have "omap_ok (ncont (cs_ns s) b)" using cok by (simp add: cont_ok_def)
    note ah = after_head [OF this hd]
    show ?case unfolding prod.case option.case sum.case wp_bindM
    proof (rule wp_mono [OF delete_object_spec [OF t(1) assms(2)]], goal_cases)
      case (1 r u)
      then have u: "cas_ok g u" "\<forall>n. n \<noteq> DEFAULT_USAGE_TREE \<longrightarrow> ncont (cs_ns u) n = cont_del b k (ncont (cs_ns s)) n"
        using t(2) by auto
      have th: "thinned b (ncont (cs_ns s)) (ncont (cs_ns u))" by (rule thinned_del [OF u(2) assms(2) cok])
      have es: "ncont (cs_ns u) b = es" using u(2) not_reserved_trees [OF assms(2)] ah(1) by (simp add: cont_del_def)
      show ?case
        by (rule wp_mono [OF Suc.IH [OF u(1), of "Some k"]])
          (use es ah(2) hd Suc.prems(3) thinned_trans [OF th] in auto)
    next
      case (2 e u)
      then have "thinned b (ncont (cs_ns s)) (ncont (cs_ns u))"
        using t(2) thinned_refl [of b "ncont (cs_ns s)"] thinned_del [OF _ assms(2) cok, of "ncont (cs_ns u)" k] by auto
      with 2 show ?case by auto
    qed
  qed
qed simp

text \<open>A namespace with fewer objects holds fewer references.\<close>

lemma cas_ok_dropped:
  assumes "cas_ok g s" "ninv t" "\<not> ntx t" "\<And>n. \<not> reserved_name n \<Longrightarrow> ncont t n = ncont (cs_ns s) n \<or> ncont t n = []"
  shows "cas_ok g (s\<lparr>cs_ns := t\<rparr>)"
proof -
  have "ns_refs (ncont t) h \<le> ns_refs (ncont (cs_ns s)) h" for h
  proof -
    have fin: "finite {n. ncont (cs_ns s) n \<noteq> [] \<and> \<not> reserved_name n}"
      by (rule finite_subset [OF _ ns.finite_cont [OF cas_okD(2) [OF assms(1)]]]) auto
    have sub: "{n. ncont t n \<noteq> [] \<and> \<not> reserved_name n} \<subseteq> {n. ncont (cs_ns s) n \<noteq> [] \<and> \<not> reserved_name n}"
      using assms(4) by force
    have "ns_refs (ncont t) h = (\<Sum>n \<in> {n. ncont t n \<noteq> [] \<and> \<not> reserved_name n}. omap_sum (\<lambda>k v. obj_refs v h) (ncont (cs_ns s) n))"
      unfolding ns_refs_def by (rule sum.cong) (use assms(4) in force)+
    also have "\<dots> \<le> ns_refs (ncont (cs_ns s)) h" unfolding ns_refs_def by (rule sum_mono2 [OF fin sub]) simp
    finally show ?thesis .
  qed
  then have "cas_inv (en_params E) (g\<lparr>gh_refs := gh_refs g\<rparr>) (ncont t) (scont (cs_sh s)) (cfil s) (bs_nonce (cs_bs s))"
    by (intro cas_inv_ns [OF cas_okD(7) [OF assms(1)]]) simp
  with cas_ok_ns [OF assms(1-3)] show ?thesis by simp
qed

lemma bucket_delete_spec:
  assumes ok: "cas_ok g s" and b: "\<not> reserved_name b" and fuel: "length (ncont (cs_ns s) b) < fuel"
  shows "wp (bucket_delete fuel E b)
    (\<lambda>r s'. r \<and> cas_ok g s' \<and> thinned b (ncont (cs_ns s)) (ncont (cs_ns s')) \<and> ncont (cs_ns s') b = [] \<and> b \<notin> nnames (cs_ns s'))
    (\<lambda>e s'. cas_ok g s' \<and> (\<exists>m. e = CMeta m) \<and> thinned b (ncont (cs_ns s)) (ncont (cs_ns s'))) s"
    (is "wp _ ?Q ?R s")
proof -
  note D = cas_okD [OF ok] and nb = not_reserved_trees [OF b]
  let ?c = "ncont (cs_ns s)"
  let ?T = "\<lambda>t. ninv t \<and> \<not> ntx t \<and> (\<forall>n. n \<noteq> DEFAULT_BUCKET_TREE \<longrightarrow> ncont t n = ?c n)"
  have keeps: "cas_ok g (s\<lparr>cs_ns := t\<rparr>) \<and> thinned b ?c (ncont t)" if "?T t" for t
  proof
    show "cas_ok g (s\<lparr>cs_ns := t\<rparr>)" by (rule cas_ok_dropped [OF ok]) (use that in \<open>auto dest!: not_reserved_trees\<close>)
    show "thinned b ?c (ncont t)" using that nb by (auto simp: thinned_def)
  qed
  let ?F = "\<lambda>e u. \<exists>t m. e = CMeta m \<and> u = s\<lparr>cs_ns := t\<rparr> \<and> ?T t"
  have err: "wp m Q ?R u" if "wp m Q ?F u" for m :: "('n, 's, 'd, 'x) cas_act" and Q u
  proof (rule wp_mono [OF that])
    fix e v assume "?F e v"
    then obtain t m where "e = CMeta m" "v = s\<lparr>cs_ns := t\<rparr>" "?T t" by blast
    then show "?R e v" using keeps by simp
  qed
  have open1: "wp (on_ns (st_tree_open (en_ns E) DEFAULT_BUCKET_TREE)) (\<lambda>_ u. \<exists>t. u = s\<lparr>cs_ns := t\<rparr> \<and> ?T t \<and> DEFAULT_BUCKET_TREE \<in> nnames t) ?R s"
    by (rule err, unfold wp_on_ns, rule ns.wp_tree_open [OF D(2)]) (use D(3) in auto)
  have remove: "wp (on_ns (tr_remove (en_ns E) DEFAULT_BUCKET_TREE (as_bytes b))) (\<lambda>_ u. \<exists>t. u = s\<lparr>cs_ns := t\<rparr> \<and> ?T t) ?R (s\<lparr>cs_ns := t\<rparr>)"
    if "?T t" "DEFAULT_BUCKET_TREE \<in> nnames t" for t
    by (rule err, unfold wp_on_ns, rule ns.wp_tr_remove) (use that in auto)
  have open2: "wp (on_ns (st_tree_open (en_ns E) b)) (\<lambda>_ u. \<exists>t. u = s\<lparr>cs_ns := t\<rparr> \<and> ?T t) ?R (s\<lparr>cs_ns := t\<rparr>)"
    if "?T t" for t
    by (rule err, unfold wp_on_ns, rule ns.wp_tree_open) (use that in auto)
  have drop: "wp (on_ns (drop_bucket (en_ns E) b)) (\<lambda>_ v. cas_ok g v \<and> thinned b ?c (ncont (cs_ns v)) \<and> ncont (cs_ns v) b = [] \<and> b \<notin> nnames (cs_ns v)) ?R u"
    if u: "cas_ok g u" "thinned b ?c (ncont (cs_ns u))" for u
  proof -
    have gone: "cas_ok g (u\<lparr>cs_ns := t\<rparr>) \<and> thinned b ?c (ncont t)"
      if t: "ninv t" "\<not> ntx t" "ns.kept_but b (ncont (cs_ns u)) (ncont t)" for t
    proof
      show "cas_ok g (u\<lparr>cs_ns := t\<rparr>)"
        by (rule cas_ok_dropped [OF u(1) t(1,2)]) (use t(3) not_reserved_trees in blast)
      have "thinned b (ncont (cs_ns u)) (ncont t)" using t(3) nb by (auto simp: thinned_def)
      then show "thinned b ?c (ncont t)" by (rule thinned_trans [OF u(2)])
    qed
    show ?thesis unfolding wp_on_ns
    proof (rule wp_mono [OF ns.drop_bucket_spec [OF cas_okD(2,3) [OF u(1)]]], goal_cases)
      case (2 x t)
      then show ?case using gone [of t] by auto
    next
      case (3 e t)
      then show ?case using gone [of t] by auto
    qed simp
  qed
  show ?thesis unfolding bucket_delete_def Let_def
  proof (rule wp_seq [OF open1], elim exE conjE, hypsubst, rule wp_seq [OF remove], goal_cases)
    case (3 x u t y v)
    then obtain t2 where v: "v = s\<lparr>cs_ns := t2\<rparr>" "?T t2" by blast
    show ?case unfolding v(1)
    proof (rule wp_seq [OF open2 [OF v(2)]], elim exE conjE, hypsubst, goal_cases)
      case (1 z w t3)
      then have T: "?T t3" by blast
      have same: "ncont t3 b = ?c b" using T nb by auto
      from keeps [OF T] have k: "cas_ok g (s\<lparr>cs_ns := t3\<rparr>)" "thinned b ?c (ncont t3)" by auto
      have all: "wp (delete_all fuel E b None)
        (\<lambda>r s'. r \<and> cas_ok g s' \<and> thinned b ?c (ncont (cs_ns s'))) ?R (s\<lparr>cs_ns := t3\<rparr>)"
        by (rule wp_mono [OF delete_all_spec [OF k(1) b]]) (use same fuel thinned_trans [OF k(2)] in auto)
      show ?case
      proof (rule wp_seq [OF all], goal_cases)
        case (1 fin u)
        show ?case unfolding if_P [OF conjunct1 [OF 1]] wp_bindM wp_ret_fun
          by (rule wp_mono [OF drop]) (use 1 in auto)
      qed
    qed
  qed auto
qed

end

subsection \<open>Properties of the object handlers\<close>

lemma chunk_nonempty: "c \<in> set (chunks_of n bs) \<Longrightarrow> c \<noteq> []"
  by (induction n bs rule: chunks_of.induct) (subst (asm) (2) chunks_of.simps, auto split: if_splits)

definition inline_record :: "cas_params \<Rightarrow> i64 \<Rightarrow> bytes \<Rightarrow> object" where
  "inline_record P now data = object_new now (of_nat (length data)) (cp_md5 P data) (Inline data)"

lemma put_record_whole:
  assumes "\<forall>c \<in> set (chunks_of BLOCK_SIZE data). unique_hash P c \<and> block_hash P c \<notin> D" "length data < 2 ^ 63"
  shows "object_whole P D (put_record P now data) data"
proof -
  have "concat (chunks_of BLOCK_SIZE data) = data" by (rule concat_chunks_of)
  moreover have "inlined (put_record P now data) = None" by (simp add: put_record_def inlined_def object_new_def)
  moreover have "object_blocks (put_record P now data) = map (block_hash P) (chunks_of BLOCK_SIZE data)"
    "obj_size (put_record P now data) = of_nat (length data)"
    by (simp_all add: put_record_def object_blocks_def object_new_def)
  ultimately show ?thesis unfolding object_whole_def using assms chunk_nonempty
    by (auto intro!: exI [of _ "chunks_of BLOCK_SIZE data"])
qed

text \<open>A request whose body can be stored.\<close>

definition put_object_ok :: "cas_params \<Rightarrow> ghost \<Rightarrow> string \<Rightarrow> put_request \<Rightarrow> bytes \<Rightarrow> bool" where
  "put_object_ok P g b req data \<longleftrightarrow> (\<exists>frames. pr_body req = Some frames \<and> body frames = data \<and> put_request_ok P g b frames 1) \<and>
     length data < 2 ^ 62"

definition put_stores :: "(string \<Rightarrow> bytes \<Rightarrow> object option) \<Rightarrow> string \<Rightarrow> bytes \<Rightarrow> object \<Rightarrow> (string \<Rightarrow> bytes \<Rightarrow> object option) \<Rightarrow> bool" where
  "put_stores m b k ob m' \<longleftrightarrow> m' = m \<or> m' = obj_upd m b k (Some ob) \<or> m' = obj_upd m b k None"

definition md5_matches :: "cas_params \<Rightarrow> (string \<Rightarrow> bytes option) \<Rightarrow> put_request \<Rightarrow> bytes \<Rightarrow> bool" where
  "md5_matches P b64 req data \<longleftrightarrow> (case pr_content_md5 req of None \<Rightarrow> True | Some h \<Rightarrow> b64 h = Some (cp_md5 P data))"

definition takes_blocks :: "nat \<Rightarrow> put_request \<Rightarrow> bool" where
  "takes_blocks inline_size req \<longleftrightarrow>
    (case option_or (pr_content_length req) (decoded_content_length (pr_decoded_length req)) of
       None \<Rightarrow> False
     | Some n \<Rightarrow> (case usize_try_from n of None \<Rightarrow> False | Some len \<Rightarrow> max_inlined_data_length inline_size < len))"

lemma expected_md5:
  assumes "optional_md5 b64 (pr_content_md5 req) = Inr ex"
  shows "expect_md5 ex (cp_md5 P data) \<longleftrightarrow> md5_matches P b64 req data"
  using assms by (auto simp: optional_md5_def parse_content_md5_def expect_md5_def md5_matches_def split: option.splits if_splits)

lemma fail_as_digest [simp]: "fail_as InternalError e \<noteq> S3Error BadDigest"
  by (simp add: fail_as_def split: cas_error.split)

lemma store_ok_after_put:
  assumes "store_ok F V G W P g s"
  shows "store_ok F V G W P (after_put g data) s"
  using fc.cas_ok_weaken [where V = V and W = W and g = g and g' = "after_put g data" and s = s] assms
  by (simp add: after_put_def)

lemma put_inline_run:
  assumes ok: "store_ok F V G W P g s" and b: "\<not> reserved_name b" and len: "length data < 2 ^ 62"
  shows "wp (store_inlined_object (fjall_env F nm G sm P) now b k data)
    (\<lambda>r s'. r = inline_record P now data \<and> store_ok F V G W P g s' \<and> objects V s' = obj_upd (objects V s) b k (Some r))
    (\<lambda>e s'. store_ok F V G W P g s' \<and>
       (objects V s' = objects V s \<or> objects V s' = obj_upd (objects V s) b k (Some (inline_record P now data)))) s"
proof -
  let ?ob = "inline_record P now data"
  have dec: "object_try_from (object_to_vec ?ob) = Inr ?ob" unfolding inline_record_def
    by (rule object_decodes) (use len ok in \<open>simp_all add: store_ok_def params_ok_def usize_max_eq enc_blob_def\<close>)
  show ?thesis
    by (rule wp_mono [OF fc.put_inline_spec [where F = F and nm = nm and G = G and sm = sm and P = P and V = V and W = W and g = g
        and ob = ?ob and now = now and key = k, unfolded cas_ok_store_ok fjall_env_simps, OF ok b len inline_record_def]])
      (use objects_stored [OF _ b dec] objects_same in blast)+
qed

lemma put_object_run:
  assumes ok: "store_ok F V G W P g s" and rq: "put_object_ok P g b req data"
    and ob: "ob = (if takes_blocks inline_size req then put_record P now data else inline_record P now data)"
  shows "wp (put_object_op (fjall_env F nm G sm P) b64 inline_size now b key req)
    (\<lambda>tag s'. store_ok F V G W P (after_put g data) s' \<and> md5_matches P b64 req data \<and> tag = format_e_tag (cp_hex P) ob \<and>
       objects V s' = obj_upd (objects V s) b (as_bytes key) (Some ob))
    (\<lambda>e s'. store_ok F V G W P (after_put g data) s' \<and> put_stores (objects V s) b (as_bytes key) ob (objects V s') \<and>
       (e = S3Error BadDigest \<longrightarrow> \<not> md5_matches P b64 req data \<and>
          objects V s' = (if takes_blocks inline_size req then obj_upd (objects V s) b (as_bytes key) None else objects V s))) s"
    (is "wp _ ?Q ?R s")
proof -
  obtain frames where fr: "pr_body req = Some frames" "body frames = data" "put_request_ok P g b frames 1" and len: "length data < 2 ^ 62"
    using rq by (auto simp: put_object_ok_def)
  have b: "\<not> reserved_name b" and clean: "\<forall>f \<in> set frames. \<not> isl f" using fr(3) by (simp_all add: put_request_ok_def)
  let ?g = "after_put g data" and ?k = "as_bytes key" and ?E = "fjall_env F nm G sm P"
  note less = store_ok_after_put [OF ok, of data]
  have keep: "?R e s" if "e \<noteq> S3Error BadDigest" for e using less that by (simp add: put_stores_def)
  have bucket: "wp (require_bucket ?E b) (\<lambda>_ t. t = s) ?R s"
    by (rule wp_mono [OF require_bucket_run [OF ok]]) (use keep in fastforce)+
  have inl: "wp (if \<not> expect_md5 ex (cp_md5 P data) then s3_error BadDigest
      else bindM (s3_try (store_inlined_object ?E now b ?k data)) (\<lambda>r. ret (format_e_tag (hex_of ?E) r))) ?Q ?R s"
    if "optional_md5 b64 (pr_content_md5 req) = Inr ex" "\<not> takes_blocks inline_size req" for ex
    using expected_md5 [OF that(1), of P data] that(2) less ob
    by (auto simp: put_stores_def intro!: wp_mono [OF put_inline_run [OF less b len]])
  have blk: "wp (bindM (s3_try (store_single_object_and_meta ?E now b ?k frames n)) (\<lambda>obj_meta.
        if \<not> expect_md5 ex (obj_hash obj_meta) then bindM (s3_try (delete_object ?E b ?k)) (\<lambda>_. s3_error BadDigest)
        else ret (format_e_tag (hex_of ?E) obj_meta))) ?Q ?R s"
    if ex: "optional_md5 b64 (pr_content_md5 req) = Inr ex" and tb: "takes_blocks inline_size req" and n: "0 < n" for ex n
  proof -
    have "put_request_ok P g b frames n" using fr(3) n by (simp add: put_request_ok_def)
    note put = put_run [OF ok this, where nm = nm and sm = sm and now = now and k = ?k, unfolded fr(2)]
    have ob': "ob = put_record P now data" using ob tb by simp
    have hash: "obj_hash ob = cp_md5 P data" by (simp add: ob' put_record_def object_new_def)
    have del: "wp (delete_object ?E b ?k) (\<lambda>_. ?R (S3Error BadDigest)) (\<lambda>e. ?R (fail_as InternalError e)) u"
      if "\<not> md5_matches P b64 req data" "store_ok F V G W P ?g u" "objects V u = obj_upd (objects V s) b ?k (Some ob)" for u
      by (rule wp_mono [OF delete_run [OF that(2) b]]) (use that tb in \<open>auto simp: put_stores_def obj_upd_def\<close>)
    show ?thesis unfolding wp_bindM wp_s3_try
    proof (rule wp_mono [OF put], goal_cases)
      case (1 r u)
      then have r: "r = ob" "expect_md5 ex (obj_hash r) \<longleftrightarrow> md5_matches P b64 req data"
        using expected_md5 [OF ex, of P data] hash by (simp_all add: ob')
      show ?case
      proof (cases "md5_matches P b64 req data")
        case True
        then show ?thesis using 1 r by simp
      next
        case False
        show ?thesis unfolding r(2) if_P [OF False] wp_bindM wp_s3_try wp_s3_error by (rule del [OF False]) (use 1 r(1) in simp_all)
      qed
    next
      case (2 e u)
      then show ?case by (auto simp: put_stores_def ob')
    qed
  qed
  show ?thesis
  proof (cases "case pr_storage_class req of None \<Rightarrow> False | Some c \<Rightarrow> c \<notin> {''STANDARD'', ''REDUCED_REDUNDANCY''}")
    case True
    show ?thesis unfolding put_object_op_def if_P [OF True] wp_s3_error by (rule keep) simp
  next
    case False
    show ?thesis
    proof (cases "optional_md5 b64 (pr_content_md5 req)")
      case (Inl e)
      then have "e = S3Error InvalidDigest"
        by (auto simp: optional_md5_def parse_content_md5_def split: option.splits sum.splits if_splits)
      then show ?thesis unfolding put_object_op_def if_not_P [OF False] wp_bindM Inl wp_liftE sum.case by (intro keep) simp
    next
      case (Inr ex)
      show ?thesis unfolding put_object_op_def if_not_P [OF False] wp_bindM [of "liftE _"] Inr fr(1) wp_liftE sum.case option.case
      proof (rule wp_seq [OF bucket], hypsubst, goal_cases)
        case 1
        show ?case using fr(2) clean inl [OF Inr] blk [OF Inr] keep
          by (auto simp: takes_blocks_def body_def not_le Let_def split: option.split)
      qed
    qed
  qed
qed

lemma bad_digest_run:
  assumes ok: "store_ok F V G W P g s" and rq: "put_object_ok P g b req data" and tb: "takes_blocks inline_size req"
    and mem: "b \<in> fjall_names V (cs_ns s)" and cls: "pr_storage_class req \<in> {None, Some ''STANDARD'', Some ''REDUCED_REDUNDANCY''}"
    and ex: "optional_md5 b64 (pr_content_md5 req) = Inr (Some digest)" "digest \<noteq> cp_md5 P data"
  shows "wp (put_object_op (fjall_env F nm G sm P) b64 inline_size now b key req) (\<lambda>_ _. False)
    (\<lambda>e s'. e = S3Error BadDigest \<and> objects V s' = obj_upd (objects V s) b (as_bytes key) None \<or>
       (\<exists>len ce. store_single_object_and_meta (fjall_env F nm G sm P) now b (as_bytes key) (the (pr_body req)) len s = (Inl ce, s') \<and>
          e = fail_as InternalError ce) \<or>
       (\<exists>len ob t ce. store_single_object_and_meta (fjall_env F nm G sm P) now b (as_bytes key) (the (pr_body req)) len s = (Inr ob, t) \<and>
          delete_object (fjall_env F nm G sm P) b (as_bytes key) t = (Inl ce, s') \<and> e = fail_as InternalError ce)) s"
    (is "wp _ _ ?R s")
proof -
  obtain frames where fr: "pr_body req = Some frames" "body frames = data" "put_request_ok P g b frames 1"
    using rq by (auto simp: put_object_ok_def)
  have b: "\<not> reserved_name b" using fr(3) by (simp add: put_request_ok_def)
  let ?k = "as_bytes key" and ?E = "fjall_env F nm G sm P"
  have bucket: "wp (require_bucket ?E b) (\<lambda>_ t. t = s) R s" for R
    by (rule wp_mono [OF require_bucket_run [OF ok]]) (use mem in auto)
  have blk: "wp (bindM (s3_try (store_single_object_and_meta ?E now b ?k frames n)) (\<lambda>obj_meta.
        if \<not> expect_md5 (Some digest) (obj_hash obj_meta) then bindM (s3_try (delete_object ?E b ?k)) (\<lambda>_. s3_error BadDigest)
        else ret (format_e_tag (hex_of ?E) obj_meta))) (\<lambda>_ _. False) ?R s" if n: "0 < n" for n
    unfolding wp_bindM wp_s3_try
  proof (rule wp_mono [OF wp_traced [OF put_run [OF ok, where nm = nm and sm = sm and now = now and k = ?k]]], goal_cases)
    case 1
    show ?case using fr(3) n by (simp add: put_request_ok_def)
  next
    case (2 ob u)
    then have u: "store_ok F V G W P (after_put g data) u" "objects V u = obj_upd (objects V s) b ?k (Some ob)"
      "store_single_object_and_meta ?E now b ?k frames n s = (Inr ob, u)" and hash: "obj_hash ob = cp_md5 P data"
      by (auto simp: fr(2) put_record_def object_new_def)
    have bad: "\<not> expect_md5 (Some digest) (obj_hash ob)" using ex(2) hash by (auto simp: expect_md5_def)
    show ?case unfolding if_P [OF bad] wp_bindM wp_s3_try wp_s3_error
    proof (rule wp_mono [OF wp_traced [OF delete_run [OF u(1) b]]], goal_cases)
      case (1 x t)
      then show ?case using u(2) by (auto simp: obj_upd_def fun_eq_iff)
    next
      case (2 e t)
      then show ?case using u(3) fr(1) by fastforce
    qed
  next
    case (3 e u)
    then show ?case using fr(1) by fastforce
  qed
  have cls': "\<not> (case pr_storage_class req of None \<Rightarrow> False | Some c \<Rightarrow> c \<notin> {''STANDARD'', ''REDUCED_REDUNDANCY''})"
    using cls by auto
  show ?thesis unfolding put_object_op_def if_not_P [OF cls'] wp_bindM [of "liftE _"] ex(1) fr(1) wp_liftE sum.case option.case
  proof (rule wp_seq [OF bucket], hypsubst, goal_cases)
    case 1
    show ?case using tb blk by (auto simp: fr(1) takes_blocks_def not_le split: option.splits)
  qed
qed

lemma fail_as_key [simp]: "fail_as InternalError e \<noteq> S3Error NoSuchKey"
  by (simp add: fail_as_def split: cas_error.split)

lemma key_exists_run:
  assumes ok: "store_ok F V G W P g s"
  shows "wp (on_ns (key_exists (en_ns (fjall_env F nm G sm P)) b k))
    (\<lambda>r s'. store_ok F V G W P g s' \<and> fjall_cont V (cs_ns s') = fjall_cont V (cs_ns s) \<and> b \<in> fjall_names V (cs_ns s') \<and>
       r = (map_of (fjall_cont V (cs_ns s) b) k \<noteq> None))
    (\<lambda>e s'. store_ok F V G W P g s' \<and> fjall_cont V (cs_ns s') = fjall_cont V (cs_ns s) \<and> (\<exists>m. e = CMeta m)) s"
  unfolding key_exists_def wp_on_ns wp_bindM fjall_env_simps
  by (rule fjs.wp_tree_open [where V = V and K = "{}"], use ok in \<open>simp add: store_ok_def\<close>)
    (rule fjs.wp_tr_contains_key [where V = V and K = "{}"], use ok in \<open>auto simp: store_ok_def\<close>)+

lemma delete_object_op_run:
  assumes ok: "store_ok F V G W P g s" and b: "\<not> reserved_name b"
  shows "wp (delete_object_op (fjall_env F nm G sm P) b key)
    (\<lambda>_ s'. store_ok F V G W P g s' \<and> map_of (fjall_cont V (cs_ns s) b) (as_bytes key) \<noteq> None \<and>
       objects V s' = obj_upd (objects V s) b (as_bytes key) None)
    (\<lambda>e s'. store_ok F V G W P g s' \<and>
       (objects V s' = objects V s \<or> objects V s' = obj_upd (objects V s) b (as_bytes key) None) \<and>
       (e = S3Error NoSuchKey \<longrightarrow> objects V s' = objects V s \<and> b \<in> fjall_names V (cs_ns s'))) s"
  unfolding delete_object_op_def wp_bindM wp_s3_try
proof (rule wp_mono [OF key_exists_run [OF ok]], goal_cases)
  case (1 r u)
  have same: "objects V u = objects V s" using 1 by (blast intro: objects_same)
  show ?case
  proof (cases r)
    case True
    have u: "store_ok F V G W P g u" using 1 by blast
    have r: "\<not> \<not> r" using True by simp
    show ?thesis unfolding if_not_P [OF r] wp_bindM wp_s3_try wp_ret_fun
      by (rule wp_mono [OF delete_run [OF u b]]) (use 1 True same in auto)
  qed (use 1 same in simp)
next
  case (2 e u)
  then have "objects V u = objects V s" by (blast intro: objects_same)
  then show ?case using 2 by simp
qed

lemma thinned_objects:
  assumes "thinned b (fjall_cont V (cs_ns s)) (fjall_cont V (cs_ns s'))" "\<not> reserved_name b"
  shows "n \<noteq> b \<Longrightarrow> objects V s' n = objects V s n" "objects V s' b k = objects V s b k \<or> objects V s' b k = None"
proof -
  assume "n \<noteq> b"
  then show "objects V s' n = objects V s n"
    using assms(1) reserved_trees by (auto simp: fun_eq_iff objects_def object_at_def thinned_def)
next
  have "map_of (fjall_cont V (cs_ns s') b) k = map_of (fjall_cont V (cs_ns s) b) k \<or> map_of (fjall_cont V (cs_ns s') b) k = None"
    using assms(1) by (simp add: thinned_def)
  then show "objects V s' b k = objects V s b k \<or> objects V s' b k = None"
    by (auto simp: objects_def object_at_def)
qed

text \<open>C22: A GET of a stored object answers with the bytes of the requested range, and the headers fit them: the length is
  the length of the range, the range is the resolved one. A body that is not complete ends in the error the operating
  system answered to opening or reading a block file. A range that cannot be satisfied is refused; the only other refusal
  is \<open>ServiceUnavailable\<close>, when the lookup of the record and its blocks ended in an error the database answered.
  Verification does not change the answer. Asked of the blocks of the object is that no other block of the store has the
  hash of one of them and that none is marked degraded.\<close>
theorem get_object_serves:
  assumes "store_ok F V G W P g s" "objects V s b (as_bytes key) = Some ob" "object_whole P (gh_degraded g) ob data"
    "range_check_ok check"
    "get_object_op (fjall_env F nm G sm P) disk_file io verify check b key rng s = (r, s')"
  shows "store_ok F V G W P g s' \<and> (case r of
      Inr out \<Rightarrow> get_served P io ob data (resolved check rng (length data)) out \<and>
        (rng = None \<or> resolved check rng (length data) \<noteq> None)
    | Inl e \<Rightarrow> e = S3Error ServiceUnavailable \<and>
          (\<exists>m. get_object_paths (fjall_env F nm G sm P) b (as_bytes key) s = (Inl (CMeta m), s') \<and> db_fault F G m) \<or>
        e = S3Error InvalidRange \<and> rng \<noteq> None \<and> resolved check rng (length data) = None)"
  using wp_run [OF get_object_run [OF assms(1-4)] assms(5)] by (auto split: sum.splits)

lemma toy_key: "as_bytes ''k'' = [107]"
  by code_simp

definition toy_check :: "u64 \<times> u64 \<Rightarrow> u64 \<Rightarrow> (u64 \<times> u64) option" where
  "toy_check r n = (if fst r < snd r \<and> snd r \<le> n then Some r else None)"

lemma toy_check_ok: "range_check_ok toy_check"
  by (auto simp: range_check_ok_def toy_check_def split: if_splits)

lemma toy_whole: "object_whole toy_params (gh_degraded (after_put toy_ghost [1, 2, 3])) (put_record toy_params 0 [1, 2, 3]) [1, 2, 3]"
  by (rule put_record_whole) (simp_all add: toy_chunks toy_unique toy_ghost_def after_put_def)

lemma toy_get_object_runs:
  "\<not> isl (fst (get_object_op toy_env disk_file (calm_io 4096) True toy_check ''b'' ''k'' (Some (1, 3)) toy_after_put))"
  by code_simp

theorem get_object_serves_witness:
  "map_option go_body (case fst (get_object_op toy_env disk_file (calm_io 4096) True toy_check ''b'' ''k'' (Some (1, 3)) toy_after_put) of
     Inr out \<Rightarrow> Some out | Inl _ \<Rightarrow> None) = Some (Inr [2, 3])"
proof -
  let ?get = "get_object_op toy_env disk_file (calm_io 4096) True toy_check ''b'' ''k'' (Some (1, 3)) toy_after_put"
  have k: "objects mem_view toy_after_put ''b'' (as_bytes ''k'') = Some (put_record toy_params 0 [1, 2, 3])"
    using toy_after_put_ok(2) by (simp add: toy_key)
  have "?get = (fst ?get, snd ?get)" by simp
  from get_object_serves [OF toy_after_put_ok(1) k toy_whole toy_check_ok this]
  show ?thesis using toy_get_object_runs
    by (auto simp: get_served_def get_answer_def byte_slice_def resolved_def toy_check_def split: sum.splits)
qed

text \<open>C23: A PUT whose body arrives without an error and that is answered with success stored exactly the body under the key, as a record of its own or as blocks depending on
  the declared length, and the \<open>Content-MD5\<close> of the request, if any, is the digest of the body. Whatever the answer, no other
  key is touched and no block in use is lost.\<close>
theorem put_object_refines:
  assumes "store_ok F V G W P g s" "put_object_ok P g b req data"
    "ob = (if takes_blocks inline_size req then put_record P now data else inline_record P now data)"
    "put_object_op (fjall_env F nm G sm P) b64 inline_size now b key req s = (r, s')"
  shows "store_ok F V G W P (after_put g data) s' \<and> (case r of
      Inr tag \<Rightarrow> md5_matches P b64 req data \<and> tag = format_e_tag (cp_hex P) ob \<and>
        objects V s' = obj_upd (objects V s) b (as_bytes key) (Some ob)
    | Inl _ \<Rightarrow> put_stores (objects V s) b (as_bytes key) ob (objects V s'))"
  using wp_run [OF put_object_run [OF assms(1-3)] assms(4)] by (auto split: sum.splits)

abbreviation toy_bucket :: "(mem_db fjall_store, mem_db fjall_store, disk) cas" where
  "toy_bucket \<equiv> snd (delete_object_op toy_env ''c'' ''k'' toy_state)"

lemma toy_bucket_run: "delete_object_op toy_env ''c'' ''k'' toy_state = (Inl (S3Error NoSuchKey), toy_bucket)"
proof -
  have "fst (delete_object_op toy_env ''c'' ''k'' toy_state) = Inl (S3Error NoSuchKey)" by code_simp
  then show ?thesis by (metis prod.collapse)
qed

lemma toy_bucket_name: "\<not> reserved_name ''c''"
  by code_simp

lemma toy_bucket_ok: "toy_ok toy_ghost toy_bucket" "''c'' \<in> fjall_names mem_view (cs_ns toy_bucket)"
  using wp_run [OF delete_object_op_run [OF toy_state_ok toy_bucket_name] toy_bucket_run] by simp_all

abbreviation toy_inlined :: "(mem_db fjall_store, mem_db fjall_store, disk) cas" where
  "toy_inlined \<equiv> snd (store_inlined_object toy_env 0 ''b'' [107] [9] toy_state)"

lemma toy_inlined_runs: "\<not> isl (fst (store_inlined_object toy_env 0 ''b'' [107] [9] toy_state))"
  by code_simp

lemma toy_inlined_ok: "toy_ok toy_ghost toy_inlined" "objects mem_view toy_inlined ''b'' [107] = Some (inline_record toy_params 0 [9])"
proof -
  have b: "\<not> reserved_name ''b''" by code_simp
  have "length [9 :: u8] < 2 ^ 62" by simp
  note run = wp_run [OF put_inline_run [OF toy_state_ok b this] prod.collapse [symmetric],
    of PersistSyncAll PersistSyncAll 0 "[107]"]
  show "toy_ok toy_ghost toy_inlined" "objects mem_view toy_inlined ''b'' [107] = Some (inline_record toy_params 0 [9])"
    using run toy_inlined_runs by (auto simp: obj_upd_def split: sum.splits)
qed

definition toy_put_request :: put_request where
  "toy_put_request = \<lparr>pr_storage_class = None, pr_content_md5 = Some ''x'', pr_body = Some [Inr [4]], pr_content_length = Some 1,
     pr_decoded_length = None\<rparr>"

lemma toy_put_request_ok: "\<not> reserved_name b \<Longrightarrow> put_object_ok toy_params toy_ghost b toy_put_request [4]"
proof -
  assume "\<not> reserved_name b"
  moreover have "put_request_ok toy_params toy_ghost ''c'' [Inr [4]] 1" by code_simp
  ultimately show ?thesis by (simp add: put_object_ok_def toy_put_request_def body_def put_request_ok_def)
qed

abbreviation toy_good_put :: "(mem_db fjall_store, mem_db fjall_store, disk, string) s3_act" where
  "toy_good_put \<equiv> put_object_op toy_env (\<lambda>_. Some (toy_md5 [4])) 2 0 ''c'' ''k'' toy_put_request"

abbreviation toy_bad_put :: "(mem_db fjall_store, mem_db fjall_store, disk, string) s3_act" where
  "toy_bad_put \<equiv> put_object_op toy_env (\<lambda>_. Some (toy_md5 [5])) 0 0 ''b'' ''k'' toy_put_request"

lemma toy_good_put_runs: "\<not> isl (fst (toy_good_put toy_bucket))"
  by code_simp

theorem put_object_refines_witness:
  "objects mem_view (snd (toy_good_put toy_bucket)) ''c'' [107] =
   Some (if takes_blocks 2 toy_put_request then put_record toy_params 0 [4] else inline_record toy_params 0 [4])"
proof -
  let ?run = "toy_good_put toy_bucket"
  have "?run = (fst ?run, snd ?run)" by simp
  from put_object_refines [OF toy_bucket_ok(1) toy_put_request_ok [OF toy_bucket_name] refl this]
  show ?thesis using toy_good_put_runs by (auto simp: obj_upd_def toy_key split: sum.splits)
qed

text \<open>C24: An object too large for its record whose digest does not match its \<open>Content-MD5\<close> is never accepted: the request,
  whose body arrives without an error and whose bucket exists, is refused with \<open>BadDigest\<close>, and the key is then empty,
  also when it held another object before, as the roll back deletes the key and does not restore what the request
  replaced. The only other answer is the error of storing the object or of deleting it again, when that call itself
  fails.\<close>
theorem put_bad_digest_empties:
  assumes "store_ok F V G W P g s" "put_object_ok P g b req data" "takes_blocks inline_size req" "b \<in> fjall_names V (cs_ns s)"
    "pr_storage_class req \<in> {None, Some ''STANDARD'', Some ''REDUCED_REDUNDANCY''}"
    "optional_md5 b64 (pr_content_md5 req) = Inr (Some digest)" "digest \<noteq> cp_md5 P data"
    "put_object_op (fjall_env F nm G sm P) b64 inline_size now b key req s = (r, s')"
  shows "r = Inl (S3Error BadDigest) \<and> objects V s' = obj_upd (objects V s) b (as_bytes key) None \<or>
    (\<exists>len e. store_single_object_and_meta (fjall_env F nm G sm P) now b (as_bytes key) (the (pr_body req)) len s = (Inl e, s') \<and>
       r = Inl (fail_as InternalError e)) \<or>
    (\<exists>len ob t e. store_single_object_and_meta (fjall_env F nm G sm P) now b (as_bytes key) (the (pr_body req)) len s = (Inr ob, t) \<and>
       delete_object (fjall_env F nm G sm P) b (as_bytes key) t = (Inl e, s') \<and> r = Inl (fail_as InternalError e))"
  using wp_run [OF bad_digest_run [OF assms(1-7)] assms(8)] by (cases r) auto

lemma toy_bad_put_runs: "fst (toy_bad_put toy_inlined) = Inl (S3Error BadDigest)"
  by code_simp

lemma toy_inlined_bucket: "''b'' \<in> fjall_names mem_view (cs_ns toy_inlined)"
proof -
  have "fjall_cont mem_view (cs_ns toy_inlined) ''b'' \<noteq> []"
    using toy_inlined_ok(2) by (auto simp: objects_def object_at_def split: if_splits)
  then show ?thesis using fjs.inv_names [of mem_fjall mem_view "{}" "cs_ns toy_inlined" "''b''"] toy_inlined_ok(1)
    by (auto simp: store_ok_def)
qed

theorem put_bad_digest_empties_witness:
  "objects mem_view toy_inlined ''b'' [107] \<noteq> None \<and> fst (toy_bad_put toy_inlined) = Inl (S3Error BadDigest) \<and>
   objects mem_view (snd (toy_bad_put toy_inlined)) ''b'' [107] = None"
proof -
  let ?run = "toy_bad_put toy_inlined"
  have run: "?run = (Inl (S3Error BadDigest), snd ?run)" using toy_bad_put_runs by (metis prod.collapse)
  have tb: "takes_blocks 0 toy_put_request" by code_simp
  have b: "\<not> reserved_name ''b''" by code_simp
  have cls: "pr_storage_class toy_put_request \<in> {None, Some ''STANDARD'', Some ''REDUCED_REDUNDANCY''}"
    by (simp add: toy_put_request_def)
  have md5: "optional_md5 (\<lambda>_. Some (toy_md5 [5])) (pr_content_md5 toy_put_request) = Inr (Some (toy_md5 [5]))"
    "toy_md5 [5] \<noteq> cp_md5 toy_params [4]" by code_simp+
  have ne: "Inl (S3Error BadDigest) \<noteq> (Inl (fail_as InternalError e) :: s3_fail + string)" for e
    by (metis fail_as_digest sum.inject(1))
  from put_bad_digest_empties [OF toy_inlined_ok(1) toy_put_request_ok [OF b] tb toy_inlined_bucket cls md5 run] ne
  have "objects mem_view (snd ?run) = obj_upd (objects mem_view toy_inlined) ''b'' (as_bytes ''k'') None" by blast
  then show ?thesis using toy_inlined_ok(2) toy_bad_put_runs by (simp add: obj_upd_def toy_key)
qed

text \<open>C25: A DELETE of an object in a bucket that does not exist leaves a bucket behind: before it the bucket was unknown, after
  the answer \<open>NoSuchKey\<close> it is found.\<close>
theorem delete_makes_bucket:
  assumes "store_ok F V G W P g s" "\<not> reserved_name b"
    "head_bucket_op (fjall_env F nm G sm P) b s = (Inl before, s)"
    "delete_object_op (fjall_env F nm G sm P) b key s = (Inl (S3Error NoSuchKey), s')"
    "head_bucket_op (fjall_env F nm G sm P) b s' = (after, s'')"
  shows "before = S3Error NoSuchBucket \<and> after = Inr ()"
proof -
  note del = wp_run [OF delete_object_op_run [OF assms(1,2)] assms(4), simplified]
  have "wp (head_bucket_op (fjall_env F nm G sm P) b) (\<lambda>_ _. True) (\<lambda>e t. False) s'"
    unfolding head_bucket_op_def by (rule wp_mono [OF require_bucket_run [OF conjunct1 [OF del]]]) (use del in auto)
  from wp_run [OF this assms(5)] have "after = Inr ()" by (simp split: sum.splits)
  moreover have "before = S3Error NoSuchBucket"
    using wp_run [OF require_bucket_run [OF assms(1)] assms(3) [unfolded head_bucket_op_def]] by simp
  ultimately show ?thesis by blast
qed

theorem delete_makes_bucket_witness:
  "fst (head_bucket_op toy_env ''c'' toy_state) = Inl (S3Error NoSuchBucket) \<and>
   fst (head_bucket_op toy_env ''c'' toy_bucket) = Inr ()"
proof -
  let ?head = "head_bucket_op toy_env ''c''"
  have no: "fst (?head toy_state) = Inl (S3Error NoSuchBucket)" by code_simp
  have "snd (?head toy_state) = toy_state"
    using wp_run [OF require_bucket_run [OF toy_state_ok, of PersistSyncAll PersistSyncAll "''c''"] prod.collapse [symmetric]] no
    by (simp add: head_bucket_op_def)
  then have head: "?head toy_state = (Inl (S3Error NoSuchBucket), toy_state)" using no by (metis prod.collapse)
  have "?head toy_bucket = (fst (?head toy_bucket), snd (?head toy_bucket))" by simp
  from delete_makes_bucket [OF toy_state_ok toy_bucket_name head toy_bucket_run this] no show ?thesis by simp
qed

text \<open>C26: Deleting a bucket ends, empties it and leaves every other bucket as it is; when a database call fails, objects of that
  bucket may be gone but none has changed. Blocks other objects use stay.\<close>
theorem delete_bucket_empties:
  assumes "store_ok F V G W P g s" "\<not> reserved_name b" "length (fjall_cont V (cs_ns s) b) < fuel"
    "delete_bucket_op fuel (fjall_env F nm G sm P) b s = (r, s')"
  shows "store_ok F V G W P g s' \<and> (\<forall>n. n \<noteq> b \<longrightarrow> objects V s' n = objects V s n) \<and> (case r of
      Inr done \<Rightarrow> done \<and> b \<notin> fjall_names V (cs_ns s') \<and> (\<forall>k. objects V s' b k = None)
    | Inl e \<Rightarrow> e = S3Error InternalError \<and> (\<forall>k. objects V s' b k = objects V s b k \<or> objects V s' b k = None))"
proof -
  note spec = fc.bucket_delete_spec [where F = F and nm = nm and G = G and sm = sm and P = P and V = V and W = W and g = g,
    unfolded cas_ok_store_ok fjall_env_simps, OF assms(1-3)]
  have "wp (delete_bucket_op fuel (fjall_env F nm G sm P) b)
    (\<lambda>r s'. r \<and> store_ok F V G W P g s' \<and> thinned b (fjall_cont V (cs_ns s)) (fjall_cont V (cs_ns s')) \<and>
       fjall_cont V (cs_ns s') b = [] \<and> b \<notin> fjall_names V (cs_ns s'))
    (\<lambda>e s'. store_ok F V G W P g s' \<and> e = S3Error InternalError \<and> thinned b (fjall_cont V (cs_ns s)) (fjall_cont V (cs_ns s'))) s"
    unfolding delete_bucket_op_def wp_s3_try by (rule wp_mono [OF spec]) auto
  note run = wp_run [OF this assms(4)]
  then have thin: "thinned b (fjall_cont V (cs_ns s)) (fjall_cont V (cs_ns s'))" "store_ok F V G W P g s'" by (cases r; simp)+
  show ?thesis
  proof (cases r)
    case (Inr fin)
    then have "fin" "b \<notin> fjall_names V (cs_ns s')" "fjall_cont V (cs_ns s') b = []" using run by simp_all
    then show ?thesis using thin thinned_objects(1) [OF thin(1) assms(2)] Inr by (simp add: objects_def object_at_def)
  qed (use run thin thinned_objects [OF thin(1) assms(2)] in simp)
qed

lemma toy_bucket_gone: "\<not> isl (fst (delete_bucket_op 1 toy_env ''c'' toy_bucket))"
  by code_simp

theorem delete_bucket_empties_witness:
  "''c'' \<in> fjall_names mem_view (cs_ns toy_bucket) \<and>
   ''c'' \<notin> fjall_names mem_view (cs_ns (snd (delete_bucket_op 1 toy_env ''c'' toy_bucket)))"
proof -
  let ?run = "delete_bucket_op 1 toy_env ''c'' toy_bucket"
  have len: "length (fjall_cont mem_view (cs_ns toy_bucket) ''c'') < 1" by code_simp
  have "?run = (fst ?run, snd ?run)" by simp
  from delete_bucket_empties [OF toy_bucket_ok(1) toy_bucket_name len this]
  show ?thesis using toy_bucket_gone toy_bucket_ok(2) by (auto split: sum.splits)
qed

end
