(* ===== verification/S3Multipart.thy ===== *)
theory S3Multipart
  imports S3Objects "HOL-Library.Product_Lexorder"
begin

section \<open>The S3 front end: multipart uploads\<close>

text \<open>
  \<open>s3cas/api/multipart.rs\<close>. The upload id a new upload gets is the argument \<open>uuid\<close>. Part numbers of a request are
  \<open>i32\<close>, those of a record \<open>i64\<close>. The scans carry fuel, and \<open>None\<close> is running out of it.

  The properties follow an upload: a part that was taken stands for the bytes of its request, completing an upload makes
  an object of the bytes of its parts in their order, an abort takes the upload and its parts away.
\<close>

subsection \<open>The code\<close>

type_synonym i32 = "32 word"

definition calculate_multipart_hash :: "cas_params \<Rightarrow> multipart list \<Rightarrow> bytes \<times> u64" where
  "calculate_multipart_hash P parts = (cp_md5 P (concat (map mp_hash parts)), sum_list (map mp_size parts))"

definition timestamp_from_secs :: "i64 \<Rightarrow> u64" where
  "timestamp_from_secs secs = (if sint secs < 0 then 0 else secs)"

record part_dto =
  pd_part_number :: i32
  pd_size :: i64
  pd_e_tag :: string

definition part_to_dto :: "(bytes \<Rightarrow> string) \<Rightarrow> multipart \<Rightarrow> part_dto" where
  "part_to_dto hex part = \<lparr>pd_part_number = ucast (mp_part_number part), pd_size = mp_size part, pd_e_tag = hex (mp_hash part)\<rparr>"

record upload_dto =
  ud_key :: string
  ud_upload_id :: string
  ud_initiated :: u64

definition upload_to_dto :: "upload_record \<Rightarrow> upload_dto" where
  "upload_to_dto r = \<lparr>ud_key = up_key r, ud_upload_id = up_upload_id r, ud_initiated = timestamp_from_secs (up_created_at r)\<rparr>"

definition abort_multipart_upload_op ::
  "nat \<Rightarrow> ('n, 's, 'd) env \<Rightarrow> string \<Rightarrow> string \<Rightarrow> string \<Rightarrow> ('n, 's, 'd, unit option) s3_act" where
  "abort_multipart_upload_op fuel E bucket key upload_id =
    bindM (s3_try (abort_upload fuel E bucket key upload_id)) (\<lambda>r. case r of
      None \<Rightarrow> ret None
    | Some None \<Rightarrow> s3_error NoSuchUpload
    | Some (Some parts) \<Rightarrow> ret (Some ()))"

text \<open>The validation loop. \<open>cnt\<close> is the number of the part before.\<close>

fun validate_parts ::
  "('n, 's, 'd) env \<Rightarrow> string \<Rightarrow> string \<Rightarrow> string \<Rightarrow> i32 \<Rightarrow> i32 option list \<Rightarrow> ('n, 's, 'd, i64 list) s3_act" where
  "validate_parts E bucket key upload_id cnt [] = ret []"
| "validate_parts E bucket key upload_id cnt (part # parts) = (case part of
     None \<Rightarrow> s3_error InternalError
   | Some part_number \<Rightarrow>
       let cnt = cnt + 1 in
       if part_number \<noteq> cnt then s3_error InternalError
       else bindM (mapE (fail_as InvalidArgument) (on_sh (get_multipart_part (en_sh E) bucket key upload_id (scast part_number)))) (\<lambda>r. case r of
         None \<Rightarrow> s3_error InvalidArgument
       | Some _ \<Rightarrow> bindM (validate_parts E bucket key upload_id cnt parts) (\<lambda>rest. ret (scast part_number # rest))))"

text \<open>\<open>multipart_upload\<close> is the body of the request: the part numbers it lists, if it has a list, if it is there.\<close>

definition complete_multipart_upload_op ::
  "('n, 's, 'd) env \<Rightarrow> i64 \<Rightarrow> string \<Rightarrow> string \<Rightarrow> string \<Rightarrow> i32 option list option option \<Rightarrow> ('n, 's, 'd, string) s3_act" where
  "complete_multipart_upload_op E now bucket key upload_id multipart_upload = (case multipart_upload of
     None \<Rightarrow> s3_error InvalidPart
   | Some listed \<Rightarrow>
       let parts = (case listed of None \<Rightarrow> [] | Some ps \<Rightarrow> ps) in
       if parts = [] then s3_error InvalidRequest
       else
         bindM (s3_try (on_sh (get_upload (en_sh E) bucket key upload_id))) (\<lambda>rec.
         if rec = None then s3_error NoSuchUpload
         else
           bindM (validate_parts E bucket key upload_id 0 parts) (\<lambda>part_numbers.
           bindM (s3_try (on_sh (claim_upload_with_parts (en_sh E) bucket key upload_id part_numbers))) (\<lambda>claim. case claim of
             NoUpload \<Rightarrow> s3_error NoSuchUpload
           | MissingPart part_number \<Rightarrow> s3_error InvalidArgument
           | Claimed _ parts \<Rightarrow>
               let (content_hash, sz) = calculate_multipart_hash (en_params E) parts;
                   blocks = concat (map mp_blocks parts) in
               bindM (s3_try (create_object_meta E now bucket (as_bytes key) sz content_hash
                 (MultiPart blocks (of_nat (length parts))))) (\<lambda>object_meta.
               ret (format_e_tag (hex_of E) object_meta))))))"

definition create_multipart_upload_op ::
  "('n, 's, 'd) env \<Rightarrow> i64 \<Rightarrow> string \<Rightarrow> string \<Rightarrow> string \<Rightarrow> ('n, 's, 'd, string) s3_act" where
  "create_multipart_upload_op E now uuid bucket key =
    bindM (require_bucket E bucket) (\<lambda>_.
    bindM (s3_try (on_sh (create_upload (en_sh E) now bucket key uuid))) (\<lambda>_. ret uuid))"

definition MAX_PARTS :: int where
  "MAX_PARTS = 1000"

definition MAX_UPLOADS :: int where
  "MAX_UPLOADS = 1000"

text \<open>\<open>unwrap_or(limit).clamp(0, limit)\<close>.\<close>

definition page_size :: "int \<Rightarrow> i32 option \<Rightarrow> nat" where
  "page_size limit requested = nat (min limit (max 0 (case requested of None \<Rightarrow> limit | Some n \<Rightarrow> sint n)))"

record uploads_page =
  ul_uploads :: "upload_record list"
  ul_next :: "(string \<times> string) option"
  ul_is_truncated :: bool

definition uploads_page_of ::
  "string \<Rightarrow> string option \<Rightarrow> string option \<Rightarrow> string option \<Rightarrow> nat \<Rightarrow> upload_record list \<Rightarrow> uploads_page" where
  "uploads_page_of bucket prefix key_marker upload_id_marker max_uploads uploads =
    (let uploads = filter (\<lambda>r. up_bucket r = bucket \<and> (case prefix of None \<Rightarrow> True | Some p \<Rightarrow> starts_with (up_key r) p)) uploads;
         uploads = sort_key (\<lambda>r. (up_key r, up_upload_id r)) uploads;
         uploads = (case key_marker of
             None \<Rightarrow> uploads
           | Some marker \<Rightarrow> filter (\<lambda>r. up_key r > marker \<or> up_key r = marker \<and>
               (case upload_id_marker of None \<Rightarrow> False | Some m \<Rightarrow> up_upload_id r > m)) uploads);
         truncated = length uploads > max_uploads;
         uploads = take max_uploads uploads in
     \<lparr>ul_uploads = uploads,
      ul_next = (if truncated \<and> uploads \<noteq> [] then Some (up_key (last uploads), up_upload_id (last uploads)) else None),
      ul_is_truncated = truncated\<rparr>)"

definition list_multipart_uploads_op ::
  "nat \<Rightarrow> ('n, 's, 'd) env \<Rightarrow> string \<Rightarrow> string option \<Rightarrow> string option \<Rightarrow> string option \<Rightarrow> i32 option \<Rightarrow>
   ('n, 's, 'd, (upload_dto list \<times> (string \<times> string) option \<times> bool) option) s3_act" where
  "list_multipart_uploads_op fuel E bucket prefix key_marker upload_id_marker max_uploads =
    bindM (require_bucket E bucket) (\<lambda>_.
    bindM (s3_try (on_sh (list_uploads fuel (en_sh E)))) (\<lambda>r. case r of
      None \<Rightarrow> ret None
    | Some uploads \<Rightarrow>
        let page = uploads_page_of bucket prefix key_marker upload_id_marker (page_size MAX_UPLOADS max_uploads) uploads in
        ret (Some (map upload_to_dto (ul_uploads page), ul_next page, ul_is_truncated page))))"

record parts_page =
  pl_parts :: "multipart list"
  pl_next :: "i32 option"
  pl_is_truncated :: bool

definition parts_page_of :: "i32 option \<Rightarrow> nat \<Rightarrow> multipart list \<Rightarrow> parts_page" where
  "parts_page_of part_number_marker max_parts parts =
    (let parts = sort_key (\<lambda>p. sint (mp_part_number p)) parts;
         parts = (case part_number_marker of
             None \<Rightarrow> parts
           | Some marker \<Rightarrow> filter (\<lambda>p. sint (mp_part_number p) > sint marker) parts);
         truncated = length parts > max_parts;
         parts = take max_parts parts in
     \<lparr>pl_parts = parts,
      pl_next = (if truncated \<and> parts \<noteq> [] then Some (ucast (mp_part_number (last parts))) else None),
      pl_is_truncated = truncated\<rparr>)"

definition list_parts_op ::
  "nat \<Rightarrow> ('n, 's, 'd) env \<Rightarrow> string \<Rightarrow> string \<Rightarrow> string \<Rightarrow> i32 option \<Rightarrow> i32 option \<Rightarrow>
   ('n, 's, 'd, (part_dto list \<times> i32 option \<times> bool) option) s3_act" where
  "list_parts_op fuel E bucket key upload_id part_number_marker max_parts =
    bindM (s3_try (on_sh (get_upload (en_sh E) bucket key upload_id))) (\<lambda>rec.
    if rec = None then s3_error NoSuchUpload
    else
      bindM (s3_try (on_sh (upload_parts fuel (en_sh E) bucket key upload_id))) (\<lambda>r. case r of
        None \<Rightarrow> ret None
      | Some parts \<Rightarrow>
          let page = parts_page_of part_number_marker (page_size MAX_PARTS max_parts) parts in
          ret (Some (map (part_to_dto (hex_of E)) (pl_parts page), pl_next page, pl_is_truncated page))))"

record part_request =
  pq_content_md5 :: "string option"
  pq_body :: "(io_error + bytes) list option"
  pq_content_length :: "i64 option"
  pq_decoded_length :: "string option"

definition upload_part_op ::
  "('n, 's, 'd) env \<Rightarrow> (string \<Rightarrow> bytes option) \<Rightarrow> string \<Rightarrow> string \<Rightarrow> string \<Rightarrow> i32 \<Rightarrow> part_request \<Rightarrow> ('n, 's, 'd, string) s3_act" where
  "upload_part_op E b64 bucket key upload_id part_number req =
    bindM (s3_try (on_sh (get_upload (en_sh E) bucket key upload_id))) (\<lambda>rec.
    if rec = None then s3_error NoSuchUpload
    else
      bindM (liftE (optional_md5 b64 (pq_content_md5 req))) (\<lambda>expected_md5.
      case pq_body req of
        None \<Rightarrow> s3_error IncompleteBody
      | Some frames \<Rightarrow> (case option_or (pq_content_length req) (decoded_content_length (pq_decoded_length req)) of
          None \<Rightarrow> s3_error MissingContentLength
        | Some content_length \<Rightarrow>
            bindM (s3_try (store_object E frames)) (\<lambda>(blocks, hash, sz).
            if sint content_length < 0 \<or> content_length \<noteq> sz then s3_error InvalidRequest
            else if \<not> expect_md5 expected_md5 hash then s3_error BadDigest
            else
              bindM (s3_try (on_sh (insert_multipart_part (en_sh E) bucket key sz (scast part_number) upload_id hash blocks))) (\<lambda>_.
              ret (hex_of E hash))))))"

subsection \<open>What the records of an upload stand for\<close>

text \<open>The record \<open>upload_part\<close> writes for a part whose blocks are \<open>cs\<close>.\<close>

definition part_record :: "cas_params \<Rightarrow> string \<Rightarrow> string \<Rightarrow> string \<Rightarrow> i64 \<Rightarrow> bytes list \<Rightarrow> multipart" where
  "part_record P b k u n cs =
    multipart_new (of_nat (length (concat cs))) n b k u (cp_md5 P (concat cs)) (map (block_hash P) cs)"

definition uploaded :: "cas_params \<Rightarrow> content \<Rightarrow> string \<Rightarrow> string \<Rightarrow> string \<Rightarrow> i64 \<Rightarrow> bytes list \<Rightarrow> bool" where
  "uploaded P c b k u n cs \<longleftrightarrow> part_at c (part_key b k u n) = Some (part_record P b k u n cs)"

text \<open>The record of the object that is made of such parts.\<close>

definition complete_record :: "cas_params \<Rightarrow> i64 \<Rightarrow> bytes list list \<Rightarrow> object" where
  "complete_record P now css = object_new now (of_nat (length (concat (concat css)))) (cp_md5 P (concat (map (\<lambda>cs. cp_md5 P (concat cs)) css)))
    (MultiPart (map (block_hash P) (concat css)) (of_nat (length css)))"

definition upload_names_ok :: "string \<Rightarrow> string \<Rightarrow> string \<Rightarrow> bool" where
  "upload_names_ok b k u \<longleftrightarrow> utf8_string b \<and> utf8_string k \<and> utf8_string u \<and> length b + length k + length u < 2 ^ 60"

lemma ids_bytes_less:
  assumes "params_ok P" "length cs < 2 ^ 57"
  shows "length (enc_ids (map (block_hash P) cs)) < 2 ^ 62 + 16"
proof -
  have ok: "ok_ids (map (block_hash P) cs)" by (rule ok_ids_hash [OF assms(1)])
  have "length cs * ids_width (map (block_hash P) cs) \<le> length cs * 32" by (rule mult_le_mono2 [OF ids_width_le [OF ok]])
  moreover have "length cs * 32 < 2 ^ 62" using assms(2) by simp
  ultimately have "length cs * ids_width (map (block_hash P) cs) < 2 ^ 62" by (rule le_less_trans)
  then show ?thesis by (simp add: length_enc_ids [OF ok] id_list_len_def)
qed

lemma part_record_decodes:
  assumes P: "params_ok P" and "upload_names_ok b k u" "length cs < 2 ^ 57"
  shows "multipart_try_from (multipart_to_vec (part_record P b k u n cs)) = Inr (part_record P b k u n cs)"
proof (rule multipart_codec.dec_enc)
  let ?mp = "part_record P b k u n cs"
  have hash: "length (cp_md5 P bs) = 16" for bs using P by (simp add: params_ok_def CONTENT_HASH_SIZE_def)
  have ok: "ok_ids (map (block_hash P) cs)" by (rule ok_ids_hash [OF P])
  show "wf_multipart ?mp"
    using assms(2) ok hash by (simp add: wf_multipart_def part_record_def multipart_new_def upload_names_ok_def ok_str_def usize_max_eq CONTENT_HASH_SIZE_def)
  have "length (multipart_to_vec ?mp) = 56 + length b + length k + length u + length (enc_ids (map (block_hash P) cs))"
    by (simp add: multipart_to_vec_def part_record_def multipart_new_def put_id_list_eq put_len_def hash)
  then show "length (multipart_to_vec ?mp) \<le> usize_max"
    using ids_bytes_less [OF P assms(3)] assms(2) by (simp add: upload_names_ok_def usize_max_eq)
qed

lemma complete_record_decodes:
  assumes P: "params_ok P" and "length (concat css) < 2 ^ 57"
  shows "object_try_from (object_to_vec (complete_record P now css)) = Inr (complete_record P now css)"
  unfolding complete_record_def
proof (rule object_decodes)
  show "wf_data (MultiPart (map (block_hash P) (concat css)) (of_nat (length css)))" using ok_ids_hash [OF P] by simp
  show "length (cp_md5 P (concat (map (\<lambda>cs. cp_md5 P (concat cs)) css))) = CONTENT_HASH_SIZE" using P by (simp add: params_ok_def)
  show "length (enc_data (MultiPart (map (block_hash P) (concat css)) (of_nat (length css)))) < 2 ^ 63"
    using ids_bytes_less [OF assms] by simp
qed

lemma calculate_hash_records:
  "calculate_multipart_hash P (map (\<lambda>(n, cs). part_record P b k u n cs) ps) =
    (obj_hash (complete_record P now (map snd ps)), obj_size (complete_record P now (map snd ps)))"
proof -
  have "sum_list (map (\<lambda>(n, cs). of_nat (length (concat cs))) ps) = (of_nat (length (concat (concat (map snd ps)))) :: u64)"
    by (induction ps) auto
  moreover have "map (mp_size \<circ> (\<lambda>(n, cs). part_record P b k u n cs)) ps = map (\<lambda>(n, cs). of_nat (length (concat cs))) ps"
    by (auto simp: part_record_def multipart_new_def)
  moreover have "map (mp_hash \<circ> (\<lambda>(n, cs). part_record P b k u n cs)) ps = map (\<lambda>cs. cp_md5 P (concat cs)) (map snd ps)"
    by (auto simp: part_record_def multipart_new_def)
  ultimately show ?thesis
    by (simp only: calculate_multipart_hash_def complete_record_def object_new_def map_map object.simps)
qed

lemma blocks_records:
  "concat (map mp_blocks (map (\<lambda>(n, cs). part_record P b k u n cs) ps)) = object_blocks (complete_record P now (map snd ps))"
  by (induction ps) (auto simp: part_record_def multipart_new_def complete_record_def object_new_def object_blocks_def)

subsection \<open>The handlers keep the store\<close>

text \<open>The part numbers a request has to list: from one, without gaps.\<close>

fun numbered :: "i32 \<Rightarrow> nat \<Rightarrow> i32 list" where
  "numbered cnt 0 = []"
| "numbered cnt (Suc n) = (cnt + 1) # numbered (cnt + 1) n"

lemma length_numbered [simp]: "length (numbered cnt n) = n"
  by (induction n arbitrary: cnt) simp_all

context cas_contract
begin

abbreviation sh_unchanged where
  "sh_unchanged g s s' \<equiv> cas_ok g s' \<and> cs_ns s' = cs_ns s \<and> scont (cs_sh s') = scont (cs_sh s)"

lemma on_get_upload:
  assumes "cas_ok g s"
  shows "wp (on_sh (get_upload (en_sh E) b k u))
    (\<lambda>r s'. sh_unchanged g s s' \<and> (r \<noteq> None \<longleftrightarrow> upload_live (scont (cs_sh s)) b k u))
    (\<lambda>e s'. sh_unchanged g s s') s"
  unfolding wp_on_sh
  by (rule wp_mono [OF sh.get_upload_spec [OF cas_okD(4) [OF assms]]])
    (use sh_same [OF assms] cas_okD(5) [OF assms] in auto)

lemma on_get_part:
  assumes "cas_ok g s"
  shows "wp (on_sh (get_multipart_part (en_sh E) b k u n))
    (\<lambda>r s'. sh_unchanged g s s' \<and> r = part_at (scont (cs_sh s)) (part_key b k u n))
    (\<lambda>e s'. sh_unchanged g s s' \<and> (\<exists>m. e = CMeta m)) s"
  unfolding wp_on_sh get_multipart_part_def
  by (rule wp_mono [OF sh.mptree_get_spec [OF cas_okD(4) [OF assms]]])
    (use sh_same [OF assms] cas_okD(5) [OF assms] in auto)

lemma validate_parts_spec:
  assumes "cas_ok g s"
  shows "wp (validate_parts E b k u cnt ps)
    (\<lambda>ns s'. sh_unchanged g s s' \<and> ps = map Some (numbered cnt (length ps)) \<and> ns = map scast (numbered cnt (length ps)))
    (\<lambda>e s'. sh_unchanged g s s') s"
  using assms
proof (induction ps arbitrary: cnt s)
  case Nil
  then show ?case by simp
next
  case (Cons p ps)
  show ?case
  proof (cases "p = Some (cnt + 1)")
    case True
    have get: "wp (mapE (fail_as InvalidArgument) (on_sh (get_multipart_part (en_sh E) b k u (scast (cnt + 1)))))
      (\<lambda>_ t. sh_unchanged g s t) (\<lambda>_ t. sh_unchanged g s t) s"
      unfolding wp_mapE by (rule wp_mono [OF on_get_part [OF Cons.prems]]) auto
    show ?thesis
      unfolding True validate_parts.simps option.case Let_def simp_thms if_False
    proof (rule wp_seq [OF get], goal_cases)
      case (1 r t)
      have t: "cas_ok g t" using 1 by blast
      have rest: "wp (validate_parts E b k u (cnt + 1) ps)
        (\<lambda>ns s'. sh_unchanged g s s' \<and> ps = map Some (numbered (cnt + 1) (length ps)) \<and> ns = map scast (numbered (cnt + 1) (length ps)))
        (\<lambda>e s'. sh_unchanged g s s') t"
        by (rule wp_mono [OF Cons.IH [OF t]]) (use 1 in auto)
      show ?case
        by (cases r) (use 1 in simp, use rest in \<open>auto elim!: wp_mono\<close>)
    qed
  next
    case False
    then show ?thesis using Cons.prems by (auto simp: Let_def split: option.split)
  qed
qed

lemma upload_part_spec:
  assumes ok: "cas_ok g s" and names: "upload_names_ok b k u"
    and fr: "pq_body req = Some frames" "\<forall>f \<in> set frames. \<not> isl f" "data = concat (map projr frames)"
    and m: "m = length (chunks_of BLOCK_SIZE data)" "2 * m \<le> gh_room g" "m \<le> gh_nonces g" "m < 2 ^ 57"
    and known: "set (chunks_of BLOCK_SIZE data) \<subseteq> cp_known (en_params E)"
    and g': "g' = spent g (gh_room g - 2 * m) (gh_nonces g - m)"
  shows "wp (upload_part_op E b64 b k u n req)
    (\<lambda>tag s'. cas_ok g' s' \<and> cs_ns s' = cs_ns s \<and> upload_live (scont (cs_sh s)) b k u \<and>
       tag = hex_of E (cp_md5 (en_params E) data) \<and>
       (\<forall>t. t \<noteq> DEFAULT_BLOCK_TREE \<longrightarrow> scont (cs_sh s') t = cont_ins MULTIPART_PARTS_TREE (part_key b k u (scast n))
          (multipart_to_vec (part_record (en_params E) b k u (scast n) (chunks_of BLOCK_SIZE data))) (scont (cs_sh s)) t))
    (\<lambda>e s'. cas_ok g' s' \<and> cs_ns s' = cs_ns s) s"
    (is "wp _ ?Q ?R s")
proof -
  let ?P = "en_params E" and ?cs = "chunks_of BLOCK_SIZE data"
  have P: "params_ok ?P" by (rule cas_okD(1) [OF ok])
  have less: "cas_ok g' t" if "cas_ok g t" for t by (rule cas_ok_weaken [OF that]) (simp_all add: g')
  have bufs: "bufs (stream_items (bstream_new frames)) = ?cs" using bufs_clean [OF fr(2)] fr(3) by simp
  have keep: "?R e t" if "sh_unchanged g s t" for e t using that less by blast
  have store: "wp (store_object E frames)
    (\<lambda>(blocks, hash, sz) v. blocks = map (block_hash ?P) ?cs \<and> hash = cp_md5 ?P data \<and> sz = of_nat (length data) \<and>
       blocks_only t v \<and> cas_ok (g'\<lparr>gh_refs := add_refs (gh_refs g') blocks\<rparr>) v)
    (\<lambda>e. ?R (fail_as InternalError e)) t" if t: "sh_unchanged g s t" for t
  proof -
    have "cas_ok g t" using t by blast
    note spec = store_object_spec [OF this, of m frames, unfolded bufs concat_chunks_of, OF m(1-3) known]
    show ?thesis by (rule wp_mono [OF spec]) (use t in \<open>auto simp: g' blocks_only_def\<close>)
  qed
  have put: "wp (on_sh (insert_multipart_part (en_sh E) b k (of_nat (length data)) (scast n) u (cp_md5 ?P data) (map (block_hash ?P) ?cs)))
    (\<lambda>_. ?Q (hex_of E (cp_md5 ?P data))) (\<lambda>e. ?R (fail_as InternalError e)) v"
    if v: "sh_unchanged g s t" "upload_live (scont (cs_sh s)) b k u" "blocks_only t v"
      "cas_ok (g'\<lparr>gh_refs := add_refs (gh_refs g') (map (block_hash ?P) ?cs)\<rparr>) v" for t v
  proof -
    have mp: "part_record ?P b k u (scast n) ?cs = multipart_new (of_nat (length data)) (scast n) b k u (cp_md5 ?P data) (map (block_hash ?P) ?cs)"
      by (simp add: part_record_def concat_chunks_of)
    have dec: "multipart_try_from (multipart_to_vec (part_record ?P b k u (scast n) ?cs)) = Inr (part_record ?P b k u (scast n) ?cs)"
      by (rule part_record_decodes [OF P names]) (use m in simp)
    show ?thesis
      by (rule wp_mono [OF insert_multipart_part_spec [OF v(4) mp dec]])
        (use v(1-3) in \<open>auto simp: blocks_only_def cont_ins_def\<close>)
  qed
  show ?thesis unfolding upload_part_op_def wp_bindM wp_s3_try
  proof (rule wp_mono [OF on_get_upload [OF ok]], goal_cases)
    case (1 r t)
    then have t: "sh_unchanged g s t" and live: "r \<noteq> None \<longleftrightarrow> upload_live (scont (cs_sh s)) b k u" by blast+
    show ?case
    proof (cases "r = None")
      case True
      show ?thesis unfolding if_P [OF True] wp_s3_error by (rule keep [OF t])
    next
      case False
      show ?thesis unfolding if_not_P [OF False] wp_bindM wp_liftE
      proof (cases "optional_md5 b64 (pq_content_md5 req)", goal_cases)
        case (1 e)
        show ?case unfolding 1 sum.case by (rule keep [OF t])
      next
        case (2 ex)
        show ?case unfolding 2 sum.case fr(1) option.case
        proof (cases "option_or (pq_content_length req) (decoded_content_length (pq_decoded_length req))", goal_cases)
          case 1
          show ?case unfolding 1 option.case wp_s3_error by (rule keep [OF t])
        next
          case (2 cl)
          show ?case unfolding 2 option.case wp_bindM wp_s3_try
          proof (rule wp_mono [OF store [OF t]], goal_cases)
            case (1 x v)
            obtain blocks hash sz where x: "x = (blocks, hash, sz)" by (cases x)
            with 1 have v: "blocks = map (block_hash ?P) ?cs" "hash = cp_md5 ?P data" "sz = of_nat (length data)" "blocks_only t v"
              "cas_ok (g'\<lparr>gh_refs := add_refs (gh_refs g') blocks\<rparr>) v" by auto
            have "cas_ok (g'\<lparr>gh_refs := gh_refs g'\<rparr>) v" by (rule drop_ref [OF v(5)])
            then have drop: "?R e v" for e using v(4) t by (simp add: blocks_only_def)
            note last = put [OF t _ v(4,5) [unfolded v(1)]]
            show ?case unfolding x prod.case v(1-3)
            proof (cases "sint cl < 0 \<or> cl \<noteq> of_nat (length data)", goal_cases)
              case 1
              show ?case unfolding if_P [OF 1] wp_s3_error by (rule drop)
            next
              case 2
              show ?case unfolding if_not_P [OF 2]
              proof (cases "expect_md5 ex (cp_md5 ?P data)", goal_cases)
                case 1
                then have e: "\<not> \<not> expect_md5 ex (cp_md5 ?P data)" by simp
                show ?case unfolding if_not_P [OF e] wp_bindM wp_s3_try wp_ret_fun by (rule last) (use live False in blast)
              next
                case 2
                show ?case unfolding if_P [OF 2] wp_s3_error by (rule drop)
              qed
            qed
          qed
        qed
      qed
    qed
  qed (use keep in blast)
qed

lemma complete_make:
  assumes ok: "cas_ok g s" and b: "\<not> reserved_name b" and css: "length (concat css) < 2 ^ 57"
    and ob: "ob = complete_record (en_params E) now css"
    and w: "cs_ns w = cs_ns s" "cas_ok (g\<lparr>gh_refs := add_refs (gh_refs g) (object_blocks ob)\<rparr>) w"
      "took_parts b k u ns parts (cont_del UPLOADS_TREE (upload_key b k u) (scont (cs_sh s))) (scont (cs_sh w))"
  shows "wp (create_object_meta E now b (as_bytes k) (obj_size ob) (obj_hash ob) (obj_data ob))
    (\<lambda>r s'. r = ob \<and> cas_ok g s' \<and> stored_at (ncont (cs_ns s)) b (as_bytes k) ob (ncont (cs_ns s')) \<and>
       \<not> upload_live (scont (cs_sh s')) b k u \<and> (\<forall>n \<in> set ns. part_at (scont (cs_sh s')) (part_key b k u n) = None))
    (\<lambda>e s'. cas_ok g s' \<and> (ncont (cs_ns s') = ncont (cs_ns s) \<or> stored_at (ncont (cs_ns s)) b (as_bytes k) ob (ncont (cs_ns s')))) w"
proof -
  have cok: "cont_ok (scont (cs_sh s))" by (rule sh.inv_cont [OF cas_okD(4) [OF ok]])
  have eq: "ob = object_new now (obj_size ob) (obj_hash ob) (obj_data ob)" by (simp add: ob complete_record_def object_new_def)
  have dec: "object_try_from (object_to_vec ob) = Inr ob" unfolding ob by (rule complete_record_decodes [OF cas_okD(1) [OF ok] css])
  have gone: "parts_gone (part_key b k u ` set ns) (cont_del UPLOADS_TREE (upload_key b k u) (scont (cs_sh s))) (scont (cs_sh w))"
    using w(3) by (simp add: took_parts_def)
  have end_: "\<not> upload_live (scont (cs_sh x)) b k u \<and> (\<forall>n \<in> set ns. part_at (scont (cs_sh x)) (part_key b k u n) = None)"
    if "\<forall>n. n \<noteq> DEFAULT_BLOCK_TREE \<longrightarrow> scont (cs_sh x) n = scont (cs_sh w) n" for x
    using that gone cok by (auto simp: upload_live_def part_at_def parts_gone_def)
  show ?thesis
    by (rule wp_mono [OF create_object_meta_spec [OF w(2) b eq dec, of "as_bytes k"]]) (use w end_ in auto)
qed

lemma complete_spec:
  assumes ok: "cas_ok g s" and b: "\<not> reserved_name b" and css: "length (concat css) < 2 ^ 57"
    and mu: "ns = (case mu of Some (Some ps) \<Rightarrow> map scast (numbered 0 (length ps)) | _ \<Rightarrow> [])"
    and up: "list_all2 (uploaded (en_params E) (scont (cs_sh s)) b k u) ns css"
    and ob: "ob = complete_record (en_params E) now css"
  shows "wp (complete_multipart_upload_op E now b k u mu)
    (\<lambda>tag s'. cas_ok g s' \<and> stored_at (ncont (cs_ns s)) b (as_bytes k) ob (ncont (cs_ns s')) \<and> tag = format_e_tag (hex_of E) ob \<and>
       upload_live (scont (cs_sh s)) b k u \<and> \<not> upload_live (scont (cs_sh s')) b k u \<and>
       (\<forall>n \<in> set ns. part_at (scont (cs_sh s')) (part_key b k u n) = None) \<and>
       ns \<noteq> [] \<and> mu = Some (Some (map Some (numbered 0 (length ns)))))
    (\<lambda>e s'. cas_ok g s' \<and> (ncont (cs_ns s') = ncont (cs_ns s) \<or> stored_at (ncont (cs_ns s)) b (as_bytes k) ob (ncont (cs_ns s')))) s"
    (is "wp _ ?Q ?R s")
proof -
  let ?P = "en_params E"
  have keep: "?R e t" if "sh_unchanged g s t" for e t using that by simp
  have taken: "parts = map (\<lambda>(n, cs). part_record ?P b k u n cs) (zip ns css)"
    if "list_all2 (\<lambda>n mp. part_at (scont (cs_sh s)) (part_key b k u n) = Some mp) ns parts" for parts
    using that up by (auto simp: list_all2_conv_all_nth uploaded_def intro!: nth_equalityI)
  have len: "length ns = length css" using up by (rule list_all2_lengthD)
  show ?thesis
  proof (cases "\<exists>ps. mu = Some (Some ps) \<and> ps \<noteq> []")
    case False
    then show ?thesis unfolding complete_multipart_upload_op_def using ok by (auto simp: Let_def split: option.split)
  next
    case True
    then obtain ps where ps: "mu = Some (Some ps)" "ps \<noteq> []" by blast
    then have ns: "ns = map scast (numbered 0 (length ps))" using mu by simp
    have claim: "wp (on_sh (claim_upload_with_parts (en_sh E) b k u ns))
      (\<lambda>r w. cs_ns w = cs_ns s \<and> (case r of
          Claimed rec parts \<Rightarrow> cas_ok (g\<lparr>gh_refs := add_refs (gh_refs g) (concat (map mp_blocks parts))\<rparr>) w \<and>
            upload_live (scont (cs_sh s)) b k u \<and>
            took_parts b k u ns parts (cont_del UPLOADS_TREE (upload_key b k u) (scont (cs_sh s))) (scont (cs_sh w))
        | _ \<Rightarrow> cas_ok g w))
      (\<lambda>e. ?R (fail_as InternalError e)) v" if v: "sh_unchanged g s v" for v
    proof -
      have "cas_ok g v" using v by blast
      from on_claim_upload_with_parts [OF this, of b k u ns] show ?thesis
        by (rule wp_mono) (use v in \<open>auto split: upload_claim.splits\<close>)
    qed
    have get: "wp (s3_try (on_sh (get_upload (en_sh E) b k u))) (\<lambda>_ t. sh_unchanged g s t) ?R s"
      unfolding wp_s3_try by (rule wp_mono [OF on_get_upload [OF ok]]) auto
    have val: "wp (validate_parts E b k u 0 ps)
      (\<lambda>ns' v. sh_unchanged g s v \<and> ps = map Some (numbered 0 (length ps)) \<and> ns' = ns) ?R t" if t: "sh_unchanged g s t" for t
    proof -
      have "cas_ok g t" using t by blast
      from validate_parts_spec [OF this] show ?thesis by (rule wp_mono) (use t ns in auto)
    qed
    show ?thesis unfolding complete_multipart_upload_op_def ps(1) option.case Let_def if_not_P [OF ps(2)]
    proof (rule wp_seq [OF get], goal_cases)
      case (1 r t)
      show ?case
      proof (cases "r = None")
        case True
        show ?thesis unfolding if_P [OF True] wp_s3_error by (rule keep) (use 1 in blast)
      next
        case False
        show ?thesis unfolding if_not_P [OF False]
        proof (rule wp_seq [OF val], use 1 in blast, goal_cases)
          case (1 ns' v)
          then have v: "sh_unchanged g s v" "ns' = ns" "ps = map Some (numbered 0 (length ps))" by blast+
          show ?case unfolding v(2) wp_bindM wp_s3_try
          proof (rule wp_mono [OF claim [OF v(1)]], goal_cases)
            case (1 c w)
            show ?case
            proof (cases c)
              case (Claimed rec parts)
              with 1 have w: "cs_ns w = cs_ns s" "cas_ok (g\<lparr>gh_refs := add_refs (gh_refs g) (concat (map mp_blocks parts))\<rparr>) w"
                "upload_live (scont (cs_sh s)) b k u"
                "took_parts b k u ns parts (cont_del UPLOADS_TREE (upload_key b k u) (scont (cs_sh s))) (scont (cs_sh w))" by simp_all
              have "list_all2 (\<lambda>n mp. part_at (scont (cs_sh s)) (part_key b k u n) = Some mp) ns parts"
                using w(4) by (simp add: took_parts_def part_at_def)
              note parts = taken [OF this]
              have snd: "map snd (zip ns css) = css" using len by simp
              have blocks: "concat (map mp_blocks parts) = object_blocks ob"
                unfolding parts blocks_records [where now = now] snd ob ..
              have hash: "calculate_multipart_hash ?P parts = (obj_hash ob, obj_size ob)"
                unfolding parts calculate_hash_records [where now = now] snd ob ..
              have data: "obj_data ob = MultiPart (object_blocks ob) (of_nat (length parts))"
                using len by (simp add: ob complete_record_def object_new_def object_blocks_def parts)
              have req: "ns \<noteq> []" "mu = Some (Some (map Some (numbered 0 (length ns))))" using ps v(3) ns by auto
              show ?thesis
                unfolding Claimed upload_claim.case hash prod.case blocks wp_bindM wp_s3_try wp_ret
                by (rule wp_mono [OF complete_make [OF ok b css ob w(1) w(2) [unfolded blocks] w(4), unfolded data]])
                  (use w(3) req ps(1) in auto)
            qed (use 1 in simp_all)
          qed
        qed
      qed
    qed
  qed
qed

end

subsection \<open>Properties of the multipart handlers\<close>

lemma complete_record_whole:
  assumes "\<forall>c \<in> set (concat css). c \<noteq> [] \<and> unique_hash P c \<and> block_hash P c \<notin> D" "length (concat (concat css)) < 2 ^ 63"
  shows "object_whole P D (complete_record P now css) (concat (concat css))"
proof -
  let ?ob = "complete_record P now css"
  have ob: "inlined ?ob = None" "object_blocks ?ob = map (block_hash P) (concat css)" "obj_size ?ob = of_nat (length (concat (concat css)))"
    by (simp_all add: complete_record_def inlined_def object_blocks_def object_new_def)
  then have "\<exists>cs. object_blocks ?ob = map (block_hash P) cs \<and> concat cs = concat (concat css) \<and>
      (\<forall>c \<in> set cs. c \<noteq> [] \<and> unique_hash P c \<and> block_hash P c \<notin> D)"
    using assms(1) by blast
  then show ?thesis unfolding object_whole_def ob(1,3) using assms(2) by simp
qed

definition part_request_ok :: "cas_params \<Rightarrow> ghost \<Rightarrow> part_request \<Rightarrow> bytes \<Rightarrow> bool" where
  "part_request_ok P g req data \<longleftrightarrow>
    (case pq_body req of None \<Rightarrow> False | Some frames \<Rightarrow> (\<forall>f \<in> set frames. \<not> isl f) \<and> body frames = data) \<and>
    set (chunks_of BLOCK_SIZE data) \<subseteq> cp_known P \<and> 2 * block_count data \<le> gh_room g \<and> block_count data \<le> gh_nonces g \<and> block_count data < 2 ^ 57"

lemma upload_part_run:
  assumes "store_ok F V G W P g s" "upload_names_ok b k u" "part_request_ok P g req data"
    "upload_part_op (fjall_env F nm G sm P) b64 b k u n req s = (r, s')"
  shows "store_ok F V G W P (after_put g data) s' \<and> objects V s' = objects V s \<and> (case r of
      Inr tag \<Rightarrow> tag = cp_hex P (cp_md5 P data) \<and> upload_live (shared_content W s) b k u \<and>
        uploaded P (shared_content W s') b k u (scast n) (chunks_of BLOCK_SIZE data) \<and>
        shared_content W s' UPLOADS_TREE = shared_content W s UPLOADS_TREE \<and>
        (\<forall>key. key \<noteq> part_key b k u (scast n) \<longrightarrow> part_at (shared_content W s') key = part_at (shared_content W s) key)
    | Inl _ \<Rightarrow> True)"
proof -
  obtain frames where fr: "pq_body req = Some frames" "\<forall>f \<in> set frames. \<not> isl f" "data = concat (map projr frames)"
    using assms(3) by (auto simp: part_request_ok_def body_def split: option.splits)
  let ?m = "length (chunks_of BLOCK_SIZE data)" and ?key = "part_key b k u (scast n)"
  let ?mp = "part_record P b k u (scast n) (chunks_of BLOCK_SIZE data)"
  have m: "2 * ?m \<le> gh_room g" "?m \<le> gh_nonces g" "?m < 2 ^ 57" using assms(3) by (simp_all add: part_request_ok_def block_count_def)
  have known: "set (chunks_of BLOCK_SIZE data) \<subseteq> cp_known P" using assms(3) by (simp add: part_request_ok_def)
  have g: "after_put g data = g\<lparr>gh_room := gh_room g - 2 * ?m, gh_nonces := gh_nonces g - ?m\<rparr>"
    by (simp add: after_put_def block_count_def)
  note run = wp_run [OF fc.upload_part_spec [where V = V and W = W and g = g and s = s,
      unfolded cas_ok_store_ok fjall_env_simps, OF assms(1,2) fr refl m known g] assms(4)]
  have dec: "multipart_try_from (multipart_to_vec ?mp) = Inr ?mp"
    by (rule part_record_decodes) (use assms(1,2) m in \<open>simp_all add: store_ok_def\<close>)
  have cok: "cont_ok (shared_content W s)" using assms(1) fjs.inv_cont by (auto simp: store_ok_def)
  show ?thesis
  proof (cases r)
    case (Inr tag)
    then have "cs_ns s' = cs_ns s" and c: "shared_content W s' MULTIPART_PARTS_TREE = cont_ins MULTIPART_PARTS_TREE ?key (multipart_to_vec ?mp) (shared_content W s) MULTIPART_PARTS_TREE"
      "shared_content W s' UPLOADS_TREE = shared_content W s UPLOADS_TREE" using run by simp_all
    then have "objects V s' = objects V s" by (intro objects_same) simp
    moreover have "part_at (shared_content W s') key = (if key = ?key then Some ?mp else part_at (shared_content W s) key)" for key
      unfolding part_at_def c(1) using cok dec by simp
    ultimately show ?thesis using run Inr c(2) by (simp add: uploaded_def)
  qed (use run in \<open>auto intro: objects_same\<close>)
qed

text \<open>C29: A part whose body arrives without an error and that is answered with success belongs to a live upload and is on record with the blocks and the digest of exactly
  the bytes that were sent; no other part, no upload and no object is touched. A part that is refused leaves the
  objects as they are, and in both cases no block in use is lost.\<close>
theorem upload_part_stores:
  assumes "store_ok F V G W P g s" "upload_names_ok b k u" "part_request_ok P g req data"
    "upload_part_op (fjall_env F nm G sm P) b64 b k u n req s = (r, s')"
  shows "store_ok F V G W P (after_put g data) s' \<and> objects V s' = objects V s \<and> (case r of
      Inr tag \<Rightarrow> tag = cp_hex P (cp_md5 P data) \<and> upload_live (shared_content W s) b k u \<and>
        uploaded P (shared_content W s') b k u (scast n) (chunks_of BLOCK_SIZE data) \<and>
        shared_content W s' UPLOADS_TREE = shared_content W s UPLOADS_TREE \<and>
        (\<forall>key. key \<noteq> part_key b k u (scast n) \<longrightarrow> part_at (shared_content W s') key = part_at (shared_content W s) key)
    | Inl _ \<Rightarrow> True)"
  by (rule upload_part_run [OF assms])

text \<open>The part numbers of a request to complete an upload.\<close>

definition requested :: "i32 option list option option \<Rightarrow> i64 list" where
  "requested mu = (case mu of Some (Some ps) \<Rightarrow> map scast (numbered 0 (length ps)) | _ \<Rightarrow> [])"

text \<open>C27: Completing an upload whose parts are on record makes, of the key, the object that consists of the blocks of the parts
  in their order, with the digest of the parts' digests and the number of parts; the request lists the parts from one
  without gaps, and the upload and these parts are gone. The object inherits the references of the parts. Whatever
  the answer, no other key is touched and no block in use is lost.\<close>
theorem complete_assembles:
  assumes "store_ok F V G W P g s" "\<not> reserved_name b" "length (concat css) < 2 ^ 57"
    "list_all2 (uploaded P (shared_content W s) b k u) (requested mu) css"
    "complete_multipart_upload_op (fjall_env F nm G sm P) now b k u mu s = (r, s')"
  shows "store_ok F V G W P g s' \<and> (case r of
      Inr tag \<Rightarrow> tag = format_e_tag (cp_hex P) (complete_record P now css) \<and>
        objects V s' = obj_upd (objects V s) b (as_bytes k) (Some (complete_record P now css)) \<and>
        mu = Some (Some (map Some (numbered 0 (length css)))) \<and> css \<noteq> [] \<and>
        upload_live (shared_content W s) b k u \<and> \<not> upload_live (shared_content W s') b k u \<and>
        (\<forall>n \<in> set (requested mu). part_at (shared_content W s') (part_key b k u n) = None)
    | Inl _ \<Rightarrow> objects V s' = objects V s \<or>
        objects V s' = obj_upd (objects V s) b (as_bytes k) (Some (complete_record P now css)))"
proof -
  let ?ob = "complete_record P now css"
  note run = wp_run [OF fc.complete_spec [where V = V and W = W and g = g and s = s,
      unfolded cas_ok_store_ok fjall_env_simps, OF assms(1-3) requested_def assms(4) refl] assms(5)]
  have dec: "object_try_from (object_to_vec ?ob) = Inr ?ob"
    by (rule complete_record_decodes) (use assms(1,3) in \<open>simp_all add: store_ok_def\<close>)
  note upd = objects_stored [OF _ assms(2) dec]
  have len: "length (requested mu) = length css" using assms(4) by (rule list_all2_lengthD)
  show ?thesis
  proof (cases r)
    case (Inr tag)
    then show ?thesis using run upd [of V s "as_bytes k" s'] len by auto
  next
    case (Inl e)
    then show ?thesis using run upd [of V s "as_bytes k" s'] objects_same [of V s' s] by auto
  qed
qed

text \<open>C28: What was uploaded in parts is read as a whole: after an upload is completed, a GET of the key answers with the entity tag
  and the length of the whole and with the bytes of the parts one after the other; a body that is not complete ends in the
  error the operating system answered to opening or reading a block file. The only refusal is \<open>ServiceUnavailable\<close>, when
  the lookup of the record and its blocks ended in an error the database answered. Asked of the blocks of the
  parts is that no other block of the store has the hash of one of them and that none is marked degraded.\<close>
theorem multipart_readable:
  assumes "store_ok F V G W P g s" "\<not> reserved_name b" "length (concat css) < 2 ^ 57" "length (concat (concat css)) < 2 ^ 63"
    "list_all2 (uploaded P (shared_content W s) b k u) (requested mu) css"
    "\<forall>c \<in> set (concat css). c \<noteq> [] \<and> unique_hash P c \<and> block_hash P c \<notin> gh_degraded g"
    "complete_multipart_upload_op (fjall_env F nm G sm P) now b k u mu s = (Inr tag, s')"
    "range_check_ok check"
    "get_object_op (fjall_env F nm G sm P) disk_file io verify check b k None s' = (r, s'')"
  shows "(\<exists>out. r = Inr out \<and> go_e_tag out = tag \<and> go_content_length out = of_nat (length (concat (concat css))) \<and>
      (go_body out = Inr (concat (concat css)) \<or> (\<exists>er. io_fault io er \<and> go_body out = Inl (IoFailed er)))) \<or>
    r = Inl (S3Error ServiceUnavailable) \<and>
      (\<exists>m. get_object_paths (fjall_env F nm G sm P) b (as_bytes k) s' = (Inl (CMeta m), s'') \<and> db_fault F G m)"
proof -
  let ?ob = "complete_record P now css"
  note run = wp_run [OF fc.complete_spec [where V = V and W = W and g = g and s = s,
      unfolded cas_ok_store_ok fjall_env_simps, OF assms(1-3) requested_def assms(5) refl] assms(7), simplified]
  have dec: "object_try_from (object_to_vec ?ob) = Inr ?ob"
    by (rule complete_record_decodes) (use assms(1,3) in \<open>simp_all add: store_ok_def\<close>)
  have ok: "store_ok F V G W P g s'" and tag: "tag = format_e_tag (cp_hex P) ?ob" using run by simp_all
  have "objects V s' = obj_upd (objects V s) b (as_bytes k) (Some ?ob)" using run objects_stored [OF _ assms(2) dec] by blast
  then have at: "objects V s' b (as_bytes k) = Some ?ob" by (simp add: obj_upd_def)
  from wp_run [OF get_object_run [OF ok at complete_record_whole [OF assms(6,4)] assms(8)] assms(9)]
  show ?thesis by (cases r) (auto simp: get_served_def get_answer_def resolved_def byte_slice_def tag)
qed

lemma fail_as_upload [simp]: "fail_as InternalError e \<noteq> S3Error NoSuchUpload"
  by (simp add: fail_as_def split: cas_error.split)

text \<open>C30: An abort that is answered with success ends a live upload; the answer \<open>NoSuchUpload\<close> says that there was none, so of a
  complete and an abort of one upload only the first finds it. No object and no other upload changes, a part record
  goes only when its upload is gone, and no block in use is lost.\<close>
theorem abort_ends_upload:
  assumes "store_ok F V G W P g s"
    "abort_multipart_upload_op fuel (fjall_env F nm G sm P) b k u s = (r, s')"
  shows "store_ok F V G W P g s' \<and> objects V s' = objects V s \<and>
    (\<forall>key. key \<noteq> upload_key b k u \<longrightarrow>
       map_of (shared_content W s' UPLOADS_TREE) key = map_of (shared_content W s UPLOADS_TREE) key) \<and>
    parts_swept (shared_content W s) (shared_content W s') \<and> (case r of
      Inr _ \<Rightarrow> upload_live (shared_content W s) b k u \<and> \<not> upload_live (shared_content W s') b k u
    | Inl e \<Rightarrow> e = S3Error NoSuchUpload \<longrightarrow> \<not> upload_live (shared_content W s) b k u)"
    (is "?C")
proof -
  note spec = fc.abort_upload_spec [where F = F and nm = nm and G = G and sm = sm and P = P and V = V and W = W and g = g
    and s = s and b = b and k = k and u = u and fuel = fuel, unfolded cas_ok_store_ok fc.swept_def, OF assms(1)]
  have "wp (abort_multipart_upload_op fuel (fjall_env F nm G sm P) b k u)
    (\<lambda>_ s'. store_ok F V G W P g s' \<and> cs_ns s' = cs_ns s \<and>
       (\<forall>key. key \<noteq> upload_key b k u \<longrightarrow> map_of (shared_content W s' UPLOADS_TREE) key = map_of (shared_content W s UPLOADS_TREE) key) \<and>
       parts_swept (shared_content W s) (shared_content W s') \<and>
       upload_live (shared_content W s) b k u \<and> \<not> upload_live (shared_content W s') b k u)
    (\<lambda>e s'. store_ok F V G W P g s' \<and> cs_ns s' = cs_ns s \<and>
       (\<forall>key. key \<noteq> upload_key b k u \<longrightarrow> map_of (shared_content W s' UPLOADS_TREE) key = map_of (shared_content W s UPLOADS_TREE) key) \<and>
       parts_swept (shared_content W s) (shared_content W s') \<and>
       (e = S3Error NoSuchUpload \<longrightarrow> \<not> upload_live (shared_content W s) b k u)) s"
    unfolding abort_multipart_upload_op_def wp_bindM wp_s3_try
    by (rule wp_mono [OF spec]) (auto split: option.split)
  from wp_run [OF this assms(2)] show ?C by (cases r) (auto intro: objects_same)
qed

subsection \<open>Listings by pages\<close>

text \<open>A client that follows the markers of a listing: it asks for pages until one is the last.\<close>

fun walk :: "nat \<Rightarrow> ('m \<Rightarrow> 'a list \<times> 'm option) \<Rightarrow> 'm \<Rightarrow> 'a list option" where
  "walk 0 page m = None"
| "walk (Suc fuel) page m = (case page m of
     (xs, None) \<Rightarrow> Some xs
   | (xs, Some m') \<Rightarrow> map_option ((@) xs) (walk fuel page m'))"

lemma walk_all:
  assumes "\<And>m xs. good m \<Longrightarrow> page m = (xs, None) \<Longrightarrow> rest m = xs"
    and "\<And>m xs m'. good m \<Longrightarrow> page m = (xs, Some m') \<Longrightarrow> good m' \<and> xs \<noteq> [] \<and> rest m = xs @ rest m'"
  shows "good m \<Longrightarrow> length (rest m) < fuel \<Longrightarrow> walk fuel page m = Some (rest m)"
proof (induction fuel arbitrary: m)
  case (Suc fuel)
  obtain xs mo where p: "page m = (xs, mo)" by (cases "page m")
  show ?case
  proof (cases mo)
    case None
    then show ?thesis using assms(1) [OF Suc.prems(1)] p by simp
  next
    case (Some m')
    with p assms(2) [OF Suc.prems(1), of xs m'] have m': "good m'" "xs \<noteq> []" "rest m = xs @ rest m'" by simp_all
    then have "length (rest m') < fuel" using Suc.prems(2) by (cases xs) simp_all
    from Suc.IH [OF m'(1) this] show ?thesis using p Some m'(3) by simp
  qed
qed simp

text \<open>What lies after the last entry of a page.\<close>

lemma after_page:
  fixes f :: "'a \<Rightarrow> 'b::linorder"
  assumes "sorted (map f L)" "distinct (map f L)" "0 < n" "n < length L"
  shows "filter (\<lambda>x. f (last (take n L)) < f x) L = drop n L"
proof -
  have s: "sorted_wrt (<) (map f L)" using assms(1,2) by (simp add: strict_sorted_iff)
  have l: "last (take n L) = L ! (n - 1)" using assms(3,4) by (subst last_conv_nth) auto
  have "\<not> f (L ! (n - 1)) < f x" if "x \<in> set (take n L)" for x
  proof -
    obtain i where i: "i < n" "x = L ! i" using \<open>x \<in> set (take n L)\<close> assms(4) by (auto simp: in_set_conv_nth)
    have "f (L ! i) \<le> f (L ! (n - 1))" using sorted_nth_mono [OF assms(1), of i "n - 1"] i assms(3,4) by simp
    then show ?thesis using i by simp
  qed
  moreover have "f (L ! (n - 1)) < f x" if "x \<in> set (drop n L)" for x
  proof -
    obtain i where i: "i < length L - n" "x = L ! (n + i)" using \<open>x \<in> set (drop n L)\<close> by (auto simp: in_set_conv_nth)
    then show ?thesis using sorted_wrt_nth_less [OF s, of "n - 1" "n + i"] assms(3,4) by simp
  qed
  ultimately have "filter (\<lambda>x. f (last (take n L)) < f x) (take n L @ drop n L) = drop n L"
    unfolding filter_append l by (simp add: filter_True filter_False)
  then show ?thesis by simp
qed

lemma after_page_from:
  fixes f :: "'a \<Rightarrow> 'b::linorder"
  assumes "sorted (map f S)" "distinct (map f S)" "0 < n" "L = filter (\<lambda>x. Q x) S" "n < length L"
    and Q: "\<And>x y. Q x \<Longrightarrow> f x < f y \<Longrightarrow> Q y"
  shows "filter (\<lambda>x. f (last (take n L)) < f x) S = drop n L"
proof -
  have "take n L \<noteq> []" using assms(3,5) by auto
  then have "last (take n L) \<in> set L" by (meson in_set_takeD last_in_set)
  then have q: "Q (last (take n L))" using assms(4) by simp
  have "filter (\<lambda>x. f (last (take n L)) < f x) L = filter (\<lambda>x. Q x \<and> f (last (take n L)) < f x) S"
    unfolding assms(4) by simp
  also have "\<dots> = filter (\<lambda>x. f (last (take n L)) < f x) S" by (rule filter_cong [OF refl]) (use Q [OF q] in blast)
  finally have "filter (\<lambda>x. f (last (take n L)) < f x) S = filter (\<lambda>x. f (last (take n L)) < f x) L" ..
  also have "\<dots> = drop n L"
    by (rule after_page) (use assms(1-3,5) in \<open>simp_all add: assms(4) sorted_filter distinct_map_filter\<close>)
  finally show ?thesis .
qed

lemma sint_ucast_i32:
  assumes "- (2 ^ 31) \<le> sint (x :: i64)" "sint x < 2 ^ 31"
  shows "sint (ucast x :: i32) = sint x"
proof -
  have "sint (ucast x :: i32) = signed_take_bit 31 (sint x)" by transfer (simp add: signed_take_bit_take_bit signed_take_bit_signed_take_bit)
  also have "\<dots> = sint x" by (rule signed_take_bit_int_eq_self) (use assms in simp_all)
  finally show ?thesis .
qed

lemma sort_key_eq_Nil [simp]: "sort_key f xs = [] \<longleftrightarrow> xs = []"
  by (metis length_0_conv length_sort)

definition part_no :: "multipart \<Rightarrow> int" where
  "part_no p = sint (mp_part_number p)"

text \<open>C31: A client that follows the part number markers sees every part of an upload once, by ascending part number, whatever the size of
  the pages, as long as it is not zero.\<close>
theorem list_parts_pages:
  assumes "0 < n" "distinct (map part_no parts)" "\<forall>p \<in> set parts. 0 < part_no p \<and> part_no p < 2 ^ 31" "length parts < fuel"
  shows "walk fuel (\<lambda>mk. let page = parts_page_of mk n parts in (pl_parts page, map_option Some (pl_next page))) None =
    Some (sort_key part_no parts)"
proof -
  let ?S = "sort_key part_no parts"
  let ?L = "\<lambda>mk :: i32 option. filter (\<lambda>p. case mk of None \<Rightarrow> True | Some k \<Rightarrow> sint k < part_no p) ?S"
  have page: "parts_page_of mk n parts = \<lparr>pl_parts = take n (?L mk),
    pl_next = (if n < length (?L mk) then Some (ucast (mp_part_number (last (take n (?L mk))))) else None),
    pl_is_truncated = n < length (?L mk)\<rparr>" for mk
    using assms(1) by (cases mk) (auto simp: parts_page_of_def part_no_def [abs_def] Let_def)
  have next_: "?L (Some (ucast (mp_part_number (last (take n (?L mk)))))) = drop n (?L mk)" if n: "n < length (?L mk)" for mk
  proof -
    have "take n (?L mk) \<noteq> []" using n assms(1) by (cases "?L mk") auto
    then have "last (take n (?L mk)) \<in> set (?L mk)" by (meson in_set_takeD last_in_set)
    then have "last (take n (?L mk)) \<in> set parts" by simp
    then have "0 < part_no (last (take n (?L mk)))" "part_no (last (take n (?L mk))) < 2 ^ 31" using assms(3) by blast+
    then have "sint (ucast (mp_part_number (last (take n (?L mk)))) :: i32) = part_no (last (take n (?L mk)))"
      unfolding part_no_def by (intro sint_ucast_i32) linarith+
    moreover have "filter (\<lambda>p. part_no (last (take n (?L mk))) < part_no p) ?S = drop n (?L mk)"
      by (rule after_page_from [OF _ _ assms(1) refl n])
        (use assms(2) in \<open>auto simp: distinct_map split: option.splits\<close>)
    ultimately show ?thesis by simp
  qed
  have "walk fuel (\<lambda>mk. let page = parts_page_of mk n parts in (pl_parts page, map_option Some (pl_next page))) None = Some (?L None)"
  proof (rule walk_all [where good = "\<lambda>_. True"])
    fix mk xs assume "(let page = parts_page_of mk n parts in (pl_parts page, map_option Some (pl_next page))) = (xs, None)"
    then show "?L mk = xs" unfolding page by (auto simp: Let_def split: if_splits)
  next
    fix mk xs m' assume p: "(let page = parts_page_of mk n parts in (pl_parts page, map_option Some (pl_next page))) = (xs, Some m')"
    then have n: "n < length (?L mk)" unfolding page by (auto simp: Let_def split: if_splits)
    with p have "xs = take n (?L mk)" "m' = Some (ucast (mp_part_number (last (take n (?L mk)))))"
      unfolding page by (auto simp: Let_def)
    then show "True \<and> xs \<noteq> [] \<and> ?L mk = xs @ ?L m'" using next_ [OF n] n assms(1) by (cases "?L mk") auto
  qed (use assms(4) in simp_all)
  then show ?thesis by simp
qed

definition listed_upload :: "string \<Rightarrow> string option \<Rightarrow> upload_record \<Rightarrow> bool" where
  "listed_upload bucket prefix r \<longleftrightarrow> up_bucket r = bucket \<and> (case prefix of None \<Rightarrow> True | Some p \<Rightarrow> starts_with (up_key r) p)"

definition upload_order :: "upload_record \<Rightarrow> string \<times> string" where
  "upload_order r = (up_key r, up_upload_id r)"

text \<open>C32: A client that follows the key and upload id markers sees every upload of the bucket with the prefix once, by key and
  then by upload id, whatever the size of the pages, as long as it is not zero.\<close>
theorem list_uploads_pages:
  assumes "0 < n" "distinct (map upload_order (filter (listed_upload bucket prefix) uploads))" "length uploads < fuel"
  shows "walk fuel (\<lambda>mk. let page = uploads_page_of bucket prefix (map_option fst mk) (map_option snd mk) n uploads in
      (ul_uploads page, map_option Some (ul_next page))) None =
    Some (sort_key upload_order (filter (listed_upload bucket prefix) uploads))"
    (is "walk _ ?page _ = _")
proof -
  let ?S = "sort_key upload_order (filter (listed_upload bucket prefix) uploads)"
  let ?L = "\<lambda>mk. filter (\<lambda>r. case mk of None \<Rightarrow> True | Some k \<Rightarrow> k < upload_order r) ?S"
  have page: "uploads_page_of bucket prefix (map_option fst mk) (map_option snd mk) n uploads = \<lparr>ul_uploads = take n (?L mk),
    ul_next = (if n < length (?L mk) then Some (upload_order (last (take n (?L mk)))) else None),
    ul_is_truncated = n < length (?L mk)\<rparr>" for mk
  proof -
    have mark: "(up_key r > a \<or> up_key r = a \<and> up_upload_id r > c) \<longleftrightarrow> (a, c) < upload_order r" for a c r
      by (auto simp: upload_order_def less_prod_def' dest: order.strict_implies_order)
    show ?thesis using assms(1)
      by (cases mk) (auto simp: uploads_page_of_def Let_def mark upload_order_def [abs_def] listed_upload_def [abs_def])
  qed
  have next_: "?L (Some (upload_order (last (take n (?L mk))))) = drop n (?L mk)" if n: "n < length (?L mk)" for mk
  proof -
    have "filter (\<lambda>r. upload_order (last (take n (?L mk))) < upload_order r) ?S = drop n (?L mk)"
      by (rule after_page_from [OF _ _ assms(1) refl n])
        (use assms(2) in \<open>auto simp: distinct_map split: option.splits\<close>)
    then show ?thesis by simp
  qed
  have "walk fuel ?page None = Some (?L None)"
  proof (rule walk_all [where good = "\<lambda>_. True"])
    fix mk xs assume "?page mk = (xs, None)"
    then show "?L mk = xs" unfolding page by (auto simp: Let_def split: if_splits)
  next
    fix mk xs m' assume p: "?page mk = (xs, Some m')"
    then have n: "n < length (?L mk)" unfolding page by (auto simp: Let_def split: if_splits)
    with p have "xs = take n (?L mk)" "m' = Some (upload_order (last (take n (?L mk))))"
      unfolding page by (auto simp: Let_def)
    then show "True \<and> xs \<noteq> [] \<and> ?L mk = xs @ ?L m'" using next_ [OF n] n assms(1) by (cases "?L mk") auto
  qed (use le_less_trans [OF length_filter_le assms(3)] in simp_all)
  then show ?thesis by simp
qed

subsection \<open>An upload to run\<close>

definition toy_part_request :: part_request where
  "toy_part_request = \<lparr>pq_content_md5 = None, pq_body = Some [Inr [4]], pq_content_length = Some 1, pq_decoded_length = None\<rparr>"

abbreviation toy_begun :: "(mem_db fjall_store, mem_db fjall_store, disk) cas" where
  "toy_begun \<equiv> snd (on_sh (create_upload (en_sh toy_env) 1 ''b'' ''k'' ''u'') toy_state)"

abbreviation toy_upload :: "(mem_db fjall_store, mem_db fjall_store, disk, string) s3_act" where
  "toy_upload \<equiv> upload_part_op toy_env (\<lambda>_. None) ''b'' ''k'' ''u'' 1 toy_part_request"

abbreviation toy_parted :: "(mem_db fjall_store, mem_db fjall_store, disk) cas" where
  "toy_parted \<equiv> snd (toy_upload toy_begun)"

abbreviation toy_complete :: "(mem_db fjall_store, mem_db fjall_store, disk, string) s3_act" where
  "toy_complete \<equiv> complete_multipart_upload_op toy_env 0 ''b'' ''k'' ''u'' (Some (Some [Some 1]))"

lemma toy_begun_ok: "toy_ok toy_ghost toy_begun"
proof -
  let ?run = "on_sh (create_upload (en_sh toy_env) 1 ''b'' ''k'' ''u'') toy_state"
  note run = wp_run [OF fc.create_upload_spec [where F = mem_fjall and nm = PersistSyncAll and G = mem_fjall and sm = PersistSyncAll
      and P = toy_params and V = mem_view and W = mem_view and g = toy_ghost and s = toy_state and now = 1 and b = "''b''" and k = "''k''"
      and u = "''u''", unfolded cas_ok_store_ok, OF toy_state_ok] prod.collapse [symmetric]]
  show ?thesis using run by (cases "fst ?run") auto
qed

lemma toy_names: "upload_names_ok ''b'' ''k'' ''u''"
proof -
  have "utf8_string ''b''" "utf8_string ''k''" "utf8_string ''u''" by code_simp+
  then show ?thesis by (simp add: upload_names_ok_def)
qed

lemma toy_part_chunks: "chunks_of BLOCK_SIZE [4 :: u8] = [[4]]"
  by (subst chunks_of.simps) (simp add: BLOCK_SIZE_def)

lemma toy_part_ok: "part_request_ok toy_params toy_ghost toy_part_request [4]"
  by (simp add: part_request_ok_def toy_part_request_def body_def block_count_def toy_part_chunks toy_ghost_def)

lemma toy_upload_runs: "\<not> isl (fst (toy_upload toy_begun))"
  by code_simp

theorem upload_part_stores_witness:
  "uploaded toy_params (shared_content mem_view toy_parted) ''b'' ''k'' ''u'' (scast (1 :: i32)) (chunks_of BLOCK_SIZE [4])"
proof -
  from upload_part_stores [OF toy_begun_ok toy_names toy_part_ok prod.collapse [symmetric], of PersistSyncAll PersistSyncAll "\<lambda>_. None" 1]
  show ?thesis using toy_upload_runs by (auto split: sum.splits)
qed

lemma toy_parted_ok:
  "toy_ok (after_put toy_ghost [4]) toy_parted"
  "list_all2 (uploaded toy_params (shared_content mem_view toy_parted) ''b'' ''k'' ''u'') (requested (Some (Some [Some 1]))) [chunks_of BLOCK_SIZE [4]]"
proof -
  note run = upload_part_run [OF toy_begun_ok toy_names toy_part_ok prod.collapse [symmetric], of PersistSyncAll PersistSyncAll "\<lambda>_. None" 1]
  show "toy_ok (after_put toy_ghost [4]) toy_parted" using run by blast
  show "list_all2 (uploaded toy_params (shared_content mem_view toy_parted) ''b'' ''k'' ''u'') (requested (Some (Some [Some 1]))) [chunks_of BLOCK_SIZE [4]]"
    using run toy_upload_runs by (auto simp: requested_def split: sum.splits)
qed

lemma toy_complete_runs: "\<not> isl (fst (toy_complete toy_parted))"
  by code_simp

lemma toy_complete_name: "\<not> reserved_name ''b''"
  by code_simp

lemma toy_complete_run: "toy_complete toy_parted = (Inr (projr (fst (toy_complete toy_parted))), snd (toy_complete toy_parted))"
  using toy_complete_runs by (metis prod.collapse sum.collapse(2))

theorem complete_assembles_witness:
  "objects mem_view (snd (toy_complete toy_parted)) ''b'' (as_bytes ''k'') = Some (complete_record toy_params 0 [[[4]]])"
proof -
  have len: "length (concat [chunks_of BLOCK_SIZE [4 :: u8]]) < 2 ^ 57" by (simp add: toy_part_chunks)
  from complete_assembles [OF toy_parted_ok(1) toy_complete_name len toy_parted_ok(2) toy_complete_run]
  have "objects mem_view (snd (toy_complete toy_parted)) =
    obj_upd (objects mem_view toy_parted) ''b'' (as_bytes ''k'') (Some (complete_record toy_params 0 [chunks_of BLOCK_SIZE [4]]))"
    unfolding sum.case by blast
  then show ?thesis by (simp only: obj_upd_def toy_part_chunks fun_upd_same)
qed

abbreviation toy_get_whole :: "(mem_db fjall_store, mem_db fjall_store, disk, get_output) s3_act" where
  "toy_get_whole \<equiv> get_object_op toy_env disk_file (calm_io 4096) True toy_check ''b'' ''k'' None"

lemma toy_get_whole_runs: "\<not> isl (fst (toy_get_whole (snd (toy_complete toy_parted))))"
  by code_simp

theorem multipart_readable_witness:
  "\<exists>out. fst (toy_get_whole (snd (toy_complete toy_parted))) = Inr out \<and> go_body out = Inr [4]"
proof -
  have len: "length (concat [chunks_of BLOCK_SIZE [4 :: u8]]) < 2 ^ 57" "length (concat (concat [chunks_of BLOCK_SIZE [4 :: u8]])) < 2 ^ 63"
    by (simp_all add: toy_part_chunks)
  have c: "\<forall>c \<in> set (concat [chunks_of BLOCK_SIZE [4 :: u8]]). c \<noteq> [] \<and> unique_hash toy_params c \<and>
    block_hash toy_params c \<notin> gh_degraded (after_put toy_ghost [4])"
    by (simp add: toy_part_chunks toy_unique toy_ghost_def after_put_def)
  have whole: "concat (concat [chunks_of BLOCK_SIZE [4 :: u8]]) = [4]" by (simp add: toy_part_chunks)
  from multipart_readable [OF toy_parted_ok(1) toy_complete_name len toy_parted_ok(2) c toy_complete_run toy_check_ok prod.collapse [symmetric],
      where io = "calm_io 4096" and verify = True] toy_get_whole_runs calm_io_fault
  show ?thesis unfolding whole by (metis sum.disc(1))
qed

theorem abort_ends_upload_witness:
  "toy_ok toy_ghost (snd (abort_multipart_upload_op 5 toy_env ''b'' ''k'' ''u'' toy_begun))"
proof -
  from abort_ends_upload [OF toy_begun_ok prod.collapse [symmetric], of 5 PersistSyncAll PersistSyncAll "''b''" "''k''" "''u''"]
  show ?thesis by blast
qed

theorem list_parts_pages_witness:
  "walk 4 (\<lambda>mk. let page = parts_page_of mk 1 [sample_part\<lparr>mp_part_number := 2\<rparr>, sample_part] in (pl_parts page, map_option Some (pl_next page))) None =
   Some [sample_part, sample_part\<lparr>mp_part_number := 2\<rparr>]"
proof -
  let ?ps = "[sample_part\<lparr>mp_part_number := 2\<rparr>, sample_part]"
  have "distinct (map part_no ?ps)" "\<forall>p \<in> set ?ps. 0 < part_no p \<and> part_no p < 2 ^ 31"
    by (simp_all add: part_no_def sample_part_def multipart_new_def)
  from list_parts_pages [OF zero_less_one this, of 4] show ?thesis by (simp add: part_no_def sample_part_def multipart_new_def)
qed

definition sample_uploads :: "upload_record list" where
  "sample_uploads = [upload_record_new 5 ''b'' ''y'' ''1'', upload_record_new 6 ''b'' ''x'' ''2'', upload_record_new 7 ''c'' ''x'' ''3'']"

theorem list_uploads_pages_witness:
  "walk 4 (\<lambda>mk. let page = uploads_page_of ''b'' None (map_option fst mk) (map_option snd mk) 1 sample_uploads in
      (ul_uploads page, map_option Some (ul_next page))) None =
   Some (sort_key upload_order (filter (listed_upload ''b'' None) sample_uploads))"
proof (rule list_uploads_pages)
  show "distinct (map upload_order (filter (listed_upload ''b'' None) sample_uploads))"
    by (simp add: sample_uploads_def listed_upload_def upload_order_def upload_record_new_def upload_record_with_created_at_def)
qed (simp_all add: sample_uploads_def)

end
