(* ===== verification/Spec2Isabelle.thy ===== *)
theory Spec2Isabelle
  imports S3Multipart
begin

text \<open>
  \<^bold>\<open>A verification library for the content-addressed object store.\<close>

  The program is an object store that keeps the bytes of objects as blocks named by their hash, each block once
  however many objects hold it (\<open>src/cas-storage\<close>), an S3 front end over it (\<open>src/s3cas\<close>) and a Redis-protocol
  front end (\<open>src/respcas\<close>). Two key-value databases carry the metadata: a namespace database with one tree per
  bucket, and a database shared by all namespaces with the block records, the records of multipart uploads and of
  their parts. The bytes of the blocks are files in a fanout directory tree.

  \<^bold>\<open>How the model corresponds to the code.\<close> A function that can fail and changes state is a function from a state to a
  result and a new state (\<open>act\<close> in \<open>Prelude\<close>); every \<open>Err\<close>, early return and panic of the code is a branch of its
  definition. Structs are records, enums are datatypes, \<open>u64\<close>, \<open>i64\<close> and \<open>u8\<close> are words of that width, \<open>usize\<close> is a
  natural number with its bound written out. Definitions have the names of the functions they model. The packages the
  code only calls are parameters: fjall is a record of calls (\<open>fjall\<close> in \<open>FjallStore\<close>) with its documented behaviour as
  the hypothesis \<open>fjall_holds\<close>, BLAKE3, MD5, hex, base64 and the framework \<open>s3s\<close> are functions. The calls of the database
  may fail where fjall's may, the calls that change the disk wherever the list of outstanding faults says, and opening,
  seeking and reading a block file wherever \<open>read_io\<close> says; nothing is assumed about when they do.

  \<^bold>\<open>The theories\<close>, each importing the ones before it:

  \<^item> \<open>Prelude\<close>: machine types, byte order of keys, sorted association lists, the state and error monad and its weakest
    precondition calculus \<open>wp\<close>, which carries the proofs of all components.
  \<^item> \<open>Codec\<close>, \<open>Records\<close>, \<open>StoreHeader\<close>: \<open>metastore/codec.rs\<close>, \<open>block.rs\<close>, \<open>object.rs\<close>, \<open>upload_record.rs\<close>,
    \<open>bucket_meta.rs\<close>, \<open>hasher.rs\<close>, \<open>store_header.rs\<close> and the composite keys. A locale of codecs gives the round trips; the
    records are shown to be read back exactly as written, keys of different uploads and parts to be apart, and block
    paths to be injective.
  \<^item> \<open>MetaTraits\<close>, \<open>FjallStore\<close>, \<open>MetaStore\<close>: \<open>metastore/traits.rs\<close> as a record of operations, what a store promises as the
    locale \<open>store_contract\<close>, \<open>stores/fjall.rs\<close> as the implementation that is shown to keep it, and
    \<open>meta_store.rs\<close> with its transactions as the client that relies on it.
  \<^item> \<open>BlockDisk\<close>, \<open>ByteStream\<close>: \<open>cas/block_disk.rs\<close> and \<open>cas/placement.rs\<close> over a file system with faults (locales
    \<open>disk_contract\<close> and \<open>durable_disk\<close>), and the regrouping of an incoming stream into blocks.
  \<^item> \<open>CasState\<close>, \<open>DeletePath\<close>, \<open>WritePath\<close>, \<open>BatchCommit\<close>, \<open>GroupCommit\<close>, \<open>ObjectPath\<close>: the state of a store, the locale
    \<open>cas_contract\<close> that puts two stores and a disk together, and the operations of \<open>cas/delete_path.rs\<close>, \<open>write_path.rs\<close>,
    \<open>write_path/batch.rs\<close> and \<open>group_commit.rs\<close>.
  \<^item> \<open>BlockStream\<close>, \<open>ReadPath\<close>: \<open>cas/block_stream.rs\<close>, \<open>range_request.rs\<close> and \<open>read_path.rs\<close>.
  \<^item> \<open>CasStore\<close>, \<open>ClonePath\<close>, \<open>Uploads\<close>, \<open>Gc\<close>: the deployed store (the contract interpreted on fjall and the file
    system), \<open>cas/clone_path.rs\<close>, \<open>multipart.rs\<close>, \<open>uploads.rs\<close> and \<open>gc.rs\<close>.
  \<^item> \<open>S3Objects\<close>, \<open>S3Multipart\<close>: the object and bucket handlers and the multipart handlers of \<open>s3cas/api\<close>.

  \<^bold>\<open>What is shown.\<close> The invariant \<open>cas_inv\<close> (in \<open>CasState\<close>, \<open>store_ok\<close> for the deployed store) says that a block may
  leak but is never lost: every block id a record of an object or of a part names has a block record that counts at
  least as many references, and its file has the bytes of a block with that hash, unless the block is marked degraded. Each
  operation is shown to keep it on success and on every error. On top of it the store refines a map from bucket and key
  to object (\<open>objects\<close>): PUT, DELETE and clone are updates of that map (C2, C3, C5), reading gives back what was
  stored (C1, C4), closing a batch or a group answers every member and counts at least what the members answered with
  success stored (C6, C7), the stream serves the requested range, reports changed blocks and otherwise fails only
  when the operating system does (C8, C9), the record formats and keys decode (C10 to C15), the committer loses no batch
  (C16, C17), a sweep removes what is stale and nothing else, and ends (C19 to C21). The S3 handlers answer with the
  bytes, lengths and digests that fit (C22, C23), deleting a bucket empties it (C26), an upload in parts becomes the object
  of its parts, which is read as a whole (C27 to C29), an abort ends one upload only (C30), and following the markers
  of a listing of parts or uploads gives all of them in order (C31, C32). C18, C24 and C25 state behaviour of the
  code that is hardly meant: a panic, an object lost to a refused request, a bucket made by a delete.

  \<^bold>\<open>What reading asks of the hash.\<close> No hash is free of collisions, so that a block is read back can only be shown where two
  different blocks of the store do not have the same id. The set of the byte strings that ever are blocks is a ghost
  field of the parameters (\<open>cp_known\<close>, read by no operation); the requests say that their blocks are among it, and the
  theorems about reading (C1, C4, C22, C28) ask of the blocks they read that no other string of that set has their hash
  (\<open>unique_hash\<close>). All other theorems ask nothing of the hash but its length.

  \<^bold>\<open>Bounds.\<close> The invariant carries ghost values: \<open>gh_room\<close> bounds the references that can still be taken before the 64-bit count
  of a block could wrap, \<open>gh_nonces\<close> the temp names left, \<open>gh_refs\<close> the references held in flight, \<open>gh_temps\<close> the staged
  files. A request states how much of them it uses (\<open>put_request_ok\<close>). Loops that ask the database for each item carry fuel:
  one more than the number of records of the tree is enough, and the theorems about them show that they end with it.

  \<^bold>\<open>Not modelled.\<close> Concurrency: the critical sections under the block stripes run one at a time, in any order, and the
  committer's channels are a queue; metrics and log lines, which do not influence the store; opening a
  store (\<open>shared_block_store.rs\<close>, \<open>store_header/ops.rs\<close>), the offline checker \<open>scrub\<close>, configuration files, the command
  lines; the Redis front end; the object listings of the S3 front end; tests, fixtures and the load
  generator.
\<close>

end
